(* ===== verification/Prelude.thy ===== *)
theory Prelude
  imports Main "HOL-Library.Word" "HOL-Library.Multiset"
begin

text \<open>
  Shared vocabulary of the development: the machine integers of the engine, the C++
  exceptions it throws, the pieces of the C++ standard library it calls
  (\<^verbatim>\<open>std::lower_bound\<close>, \<^verbatim>\<open>std::to_string\<close>, \<^verbatim>\<open>string_view::find\<close>), and the generic
  lemmas and lemma collections the component theories share.

  Unsigned integers of the source are words of their width. Signed \<^verbatim>\<open>int64_t\<close> values
  are \<open>int\<close>s; every arithmetic operation on them is followed by \<open>s64\<close>, which reduces the
  mathematical result to two's complement. The C++ standard leaves signed overflow
  undefined; two's complement is what the supported compilers produce, and the theorems
  about arithmetic state the ranges in which no overflow happens at all.
\<close>

section \<open>Lemma collections\<close>

named_theorems s64_simps \<open>arithmetic on int64_t values that stay in range\<close>
named_theorems qty_simps \<open>Quantity comparisons and arithmetic read as tick arithmetic\<close>

section \<open>Machine integers\<close>

type_synonym u8 = "8 word"
type_synonym u16 = "16 word"
type_synonym u32 = "32 word"
type_synonym u64 = "64 word"

definition s64 :: "int \<Rightarrow> int" where
  "s64 x = (x + 2 ^ 63) mod 2 ^ 64 - 2 ^ 63"

definition in_s64 :: "int \<Rightarrow> bool" where
  "in_s64 x \<longleftrightarrow> - (2 ^ 63) \<le> x \<and> x < 2 ^ 63"

section \<open>Exceptions\<close>

datatype cpp_exception =
    Invalid_argument string
  | Out_of_range string
  | Runtime_error string
  | Simdjson_error string

type_synonym 'a result = "cpp_exception + 'a"

section \<open>Standard library\<close>

text \<open>
  \<^verbatim>\<open>std::lower_bound\<close> on a random-access range: the halving search over
  \<open>[first, first + len)\<close>, with \<open>p x\<close> for "\<open>x\<close> is ordered before the target".
\<close>

function lower_bound_from :: "('a \<Rightarrow> bool) \<Rightarrow> 'a list \<Rightarrow> nat \<Rightarrow> nat \<Rightarrow> nat" where
  "lower_bound_from p xs first len =
     (if len = 0 then first
      else let step = len div 2; it = first + step in
        if p (xs ! it) then lower_bound_from p xs (Suc it) (len - Suc step)
        else lower_bound_from p xs first step)"
  by pat_completeness auto
termination
  by (relation "measure (\<lambda>(p, xs, first, len). len)") auto

declare lower_bound_from.simps [simp del]

definition lower_bound :: "('a \<Rightarrow> bool) \<Rightarrow> 'a list \<Rightarrow> nat" where
  "lower_bound p xs = lower_bound_from p xs 0 (length xs)"

text \<open>\<^verbatim>\<open>std::to_string\<close> of an unsigned value, and the digit arithmetic on characters.\<close>

definition digit_char :: "nat \<Rightarrow> char" where
  "digit_char d = char_of (48 + d)"

definition char_digit :: "char \<Rightarrow> int" where
  "char_digit c = int (of_char c) - 48"

definition is_digit :: "char \<Rightarrow> bool" where
  "is_digit c \<longleftrightarrow> (48 :: nat) \<le> of_char c \<and> of_char c \<le> (57 :: nat)"

fun to_string :: "nat \<Rightarrow> string" where
  "to_string n = (if n < 10 then [digit_char n] else to_string (n div 10) @ [digit_char (n mod 10)])"

declare to_string.simps [simp del]

text \<open>\<^verbatim>\<open>s.find(c, pos)\<close>: the first index at or after \<open>pos\<close>, \<open>None\<close> for \<^verbatim>\<open>npos\<close>.\<close>

definition find_char :: "char \<Rightarrow> string \<Rightarrow> nat \<Rightarrow> nat option" where
  "find_char c s pos =
     (let k = length (takeWhile (\<lambda>x. x \<noteq> c) (drop pos s))
      in if pos + k < length s then Some (pos + k) else None)"

section \<open>Lemmas on machine integers\<close>

lemma s64_id [simp, s64_simps]: "in_s64 x \<Longrightarrow> s64 x = x"
  by (simp add: s64_def in_s64_def)

lemma in_s64_s64 [simp]: "in_s64 (s64 x)"
proof -
  have "0 \<le> (x + 2 ^ 63) mod 2 ^ 64" and "(x + 2 ^ 63) mod 2 ^ 64 < (2 ^ 64 :: int)"
    by simp_all
  then show ?thesis by (simp add: s64_def in_s64_def)
qed

lemma s64_mod: "s64 x mod 2 ^ 64 = x mod 2 ^ 64"
  by (simp add: s64_def mod_diff_left_eq)

lemma s64_cong: "x mod 2 ^ 64 = y mod 2 ^ 64 \<Longrightarrow> s64 x = s64 y"
  unfolding s64_def by (metis mod_add_left_eq)

lemma s64_s64_add [simp]: "s64 (s64 x + y) = s64 (x + y)"
  by (rule s64_cong) (metis mod_add_left_eq s64_mod)

lemma s64_s64_mult [simp]: "s64 (s64 x * y) = s64 (x * y)"
  by (rule s64_cong) (metis mod_mult_left_eq s64_mod)

lemma s64_add_s64 [simp]: "s64 (x + s64 y) = s64 (x + y)"
  by (metis add.commute s64_s64_add)

lemma s64_mult_s64 [simp]: "s64 (x * s64 y) = s64 (x * y)"
  by (metis mult.commute s64_s64_mult)

lemma s64_uminus_s64 [simp]: "s64 (- s64 x) = s64 (- x)"
  by (rule s64_cong) (metis mod_minus_eq s64_mod)

lemma in_s64_diff_nonneg [simp, intro]:
  "in_s64 a \<Longrightarrow> 0 \<le> b \<Longrightarrow> b \<le> a \<Longrightarrow> in_s64 (a - b)"
  by (simp add: in_s64_def)

lemma in_s64_0 [simp]: "in_s64 0"
  by (simp add: in_s64_def)

section \<open>Lemmas on the binary search\<close>

text \<open>On a partitioned list the search finds the partition point.\<close>

definition partitioned :: "('a \<Rightarrow> bool) \<Rightarrow> 'a list \<Rightarrow> bool" where
  "partitioned p xs \<longleftrightarrow> sorted_wrt (\<lambda>x y. p y \<longrightarrow> p x) xs"

lemma partitioned_dropWhile: "partitioned p xs \<Longrightarrow> x \<in> set (dropWhile p xs) \<Longrightarrow> \<not> p x"
  unfolding partitioned_def by (induction xs) (auto split: if_splits)

lemma partitioned_nth:
  assumes "partitioned p xs" and "i < length xs"
  shows "p (xs ! i) \<longleftrightarrow> i < length (takeWhile p xs)"
proof
  assume p: "p (xs ! i)"
  show "i < length (takeWhile p xs)"
  proof (rule ccontr)
    assume "\<not> i < length (takeWhile p xs)"
    then have "xs ! i \<in> set (dropWhile p xs)"
      using assms(2) by (metis in_set_conv_nth length_append le_add_diff_inverse
          linorder_not_less nat_add_left_cancel_less nth_append takeWhile_dropWhile_id)
    with p partitioned_dropWhile [OF assms(1)] show False by blast
  qed
next
  assume "i < length (takeWhile p xs)"
  then show "p (xs ! i)" by (metis nth_mem set_takeWhileD takeWhile_nth)
qed

lemma partitioned_filter: "partitioned p xs \<Longrightarrow> filter p xs = takeWhile p xs"
  unfolding partitioned_def by (induction xs) (auto simp: filter_empty_conv)

lemma lower_bound_from_eq:
  assumes "partitioned p xs" and "first \<le> length (takeWhile p xs)"
    and "length (takeWhile p xs) \<le> first + len" and "first + len \<le> length xs"
  shows "lower_bound_from p xs first len = length (takeWhile p xs)"
  using assms
proof (induction p xs first len rule: lower_bound_from.induct)
  case (1 p xs first len)
  show ?case
  proof (cases "len = 0")
    case True
    with 1 show ?thesis by (simp add: lower_bound_from.simps [of p xs _ 0])
  next
    case False
    define it where "it = first + len div 2"
    have it: "it < length xs" using False 1 by (auto simp: it_def)
    have cut: "p (xs ! it) \<longleftrightarrow> it < length (takeWhile p xs)"
      using 1(3) it by (rule partitioned_nth)
    show ?thesis
    proof (cases "p (xs ! it)")
      case True
      have "lower_bound_from p xs (Suc it) (len - Suc (len div 2)) = length (takeWhile p xs)"
        by (rule 1(1) [OF False refl]) (use True False cut 1 in \<open>auto simp: it_def\<close>)
      with False True show ?thesis
        by (simp add: lower_bound_from.simps [of p xs first len] it_def Let_def)
    next
      case no: False
      have "lower_bound_from p xs first (len div 2) = length (takeWhile p xs)"
        by (rule 1(2) [OF False refl]) (use no False cut 1 in \<open>auto simp: it_def\<close>)
      with False no show ?thesis
        by (simp add: lower_bound_from.simps [of p xs first len] it_def Let_def)
    qed
  qed
qed

lemma lower_bound_eq: "partitioned p xs \<Longrightarrow> lower_bound p xs = length (takeWhile p xs)"
  unfolding lower_bound_def by (rule lower_bound_from_eq) (auto simp: length_takeWhile_le)

section \<open>Lemmas on association lists\<close>

lemma set_erase_key:
  assumes "distinct (map fst xs)" and "(k, v) \<in> set xs"
  shows "set xs = insert (k, v) {x \<in> set xs. fst x \<noteq> k}"
proof -
  have "x = (k, v)" if "x \<in> set xs" and "fst x = k" for x
    using eq_key_imp_eq_value [OF assms(1) assms(2), of "snd x"] that by (cases x) auto
  with assms(2) show ?thesis by blast
qed

end
