(* ===== verification/Wire_Layout.thy ===== *)
theory Wire_Layout
  imports Prelude
begin

text \<open>
  What the shared-memory structures have in common: the fixed-width symbol field that
  \<^verbatim>\<open>setSymbol\<close>, \<^verbatim>\<open>setSlotSymbol\<close> and \<^verbatim>\<open>setSnapshotSymbol\<close> fill with \<^verbatim>\<open>memset\<close> and \<^verbatim>\<open>memcpy\<close>,
  and the C++ layout rule that the \<^verbatim>\<open>static_assert\<close>s on \<^verbatim>\<open>offsetof\<close> and \<^verbatim>\<open>sizeof\<close> pin down.
\<close>

section \<open>Fixed-width symbol fields\<close>

definition SYMBOL_BYTES :: nat where "SYMBOL_BYTES = 16"

definition NUL :: char where "NUL = char_of (0::nat)"

definition memset_zero :: "string \<Rightarrow> string" where
  "memset_zero field = replicate (length field) NUL"

definition memcpy_to :: "string \<Rightarrow> string \<Rightarrow> string" where
  "memcpy_to field src = src @ drop (length src) field"

definition c_string :: "string \<Rightarrow> string" where
  "c_string field = takeWhile (\<lambda>c. c \<noteq> NUL) field"

lemma memcpy_memset:
  "length src \<le> length field \<Longrightarrow> memcpy_to (memset_zero field) src = src @ replicate (length field - length src) NUL"
  by (simp add: memcpy_to_def memset_zero_def)

text \<open>
  The contract of such a setter on a structure \<open>'s\<close>: a symbol that leaves no room for the
  terminator is refused with \<^verbatim>\<open>std::invalid_argument\<close>, any other symbol fills the field and
  is padded with zero bytes.
\<close>

locale symbol_field =
  fixes field :: "'s \<Rightarrow> string" and put :: "'s \<Rightarrow> string \<Rightarrow> 's result" and message :: string
  assumes put_long: "SYMBOL_BYTES \<le> length symbol \<Longrightarrow> put s symbol = Inl (Invalid_argument message)"
    and put_short: "length symbol < SYMBOL_BYTES \<Longrightarrow> length (field s) = SYMBOL_BYTES \<Longrightarrow>
      \<exists>s'. put s symbol = Inr s' \<and> field s' = symbol @ replicate (SYMBOL_BYTES - length symbol) NUL"
begin

lemma put_fails_iff:
  assumes "length (field s) = SYMBOL_BYTES"
  shows "put s symbol = Inl (Invalid_argument message) \<longleftrightarrow> SYMBOL_BYTES \<le> length symbol"
  using put_long [of symbol s] put_short [OF _ assms, of symbol] by (cases "length symbol < SYMBOL_BYTES") auto

lemma put_keeps_width:
  assumes "length (field s) = SYMBOL_BYTES" and "put s symbol = Inr s'"
  shows "length (field s') = SYMBOL_BYTES"
  using put_long [of symbol s] put_short [OF _ assms(1), of symbol] assms(2)
  by (cases "length symbol < SYMBOL_BYTES") auto

lemma put_reads_back:
  assumes "length (field s) = SYMBOL_BYTES" and "put s symbol = Inr s'" and "NUL \<notin> set symbol"
  shows "c_string (field s') = symbol"
proof -
  have short: "length symbol < SYMBOL_BYTES" using put_long [of symbol s] assms(2) by (cases "length symbol < SYMBOL_BYTES") auto
  with put_short [OF short assms(1)] assms(2)
  have f: "field s' = symbol @ replicate (SYMBOL_BYTES - length symbol) NUL" by auto
  have "\<forall>c \<in> set symbol. c \<noteq> NUL" using assms(3) by blast
  then show ?thesis using short by (simp add: f c_string_def takeWhile_append2)
qed

end

section \<open>Struct layout\<close>

text \<open>
  The layout of a standard-layout struct: each member, given by size and alignment, starts
  at the next multiple of its alignment, and the size is rounded up to the largest
  alignment.
\<close>

definition align_up :: "nat \<Rightarrow> nat \<Rightarrow> nat" where
  "align_up a n = (n + a - 1) div a * a"

fun member_offsets :: "nat \<Rightarrow> (nat \<times> nat) list \<Rightarrow> nat list \<times> nat" where
  "member_offsets pos [] = ([], pos)"
| "member_offsets pos ((sz, al) # ms) =
     (let here = align_up al pos; (rest, end_pos) = member_offsets (here + sz) ms in (here # rest, end_pos))"

definition struct_align :: "(nat \<times> nat) list \<Rightarrow> nat" where
  "struct_align ms = foldr max (map snd ms) 1"

definition struct_offsets :: "(nat \<times> nat) list \<Rightarrow> nat list" where
  "struct_offsets ms = fst (member_offsets 0 ms)"

definition struct_size :: "(nat \<times> nat) list \<Rightarrow> nat" where
  "struct_size ms = align_up (struct_align ms) (snd (member_offsets 0 ms))"

end
