(* ===== verification/Price_Quantity.thy ===== *)
theory Price_Quantity
  imports Prelude
begin

text \<open>
  Fixed-point prices and quantities, \<^verbatim>\<open>engine/include/engine/common/price_quantity.hpp\<close>.
  A \<open>Price\<close> or \<open>Quantity\<close> wraps an \<^verbatim>\<open>int64_t\<close> count of ticks of \<open>10\<^sup>-\<^sup>1\<^sup>0\<close>. The
  theory holds the parser and the printer of decimal strings as written (index arithmetic,
  exceptions, wrap-around), a grammar \<open>decimal_value\<close> that says what a decimal string
  means, and the lemmas that relate the three. The locale \<open>decimal_text\<close> states the
  contract that \<^verbatim>\<open>Price\<close> and \<^verbatim>\<open>Quantity\<close> share.
\<close>

section \<open>Definitions\<close>

definition PRICE_SCALE :: int where "PRICE_SCALE = 10000000000"
definition PRICE_SCALE_DIGITS :: nat where "PRICE_SCALE_DIGITS = 10"
definition QUANTITY_SCALE :: int where "QUANTITY_SCALE = 10000000000"
definition QUANTITY_SCALE_DIGITS :: nat where "QUANTITY_SCALE_DIGITS = 10"

definition priceScaleSupports :: "int \<Rightarrow> bool" where
  "priceScaleSupports pairDecimals \<longleftrightarrow> pairDecimals \<le> int PRICE_SCALE_DIGITS"

definition quantityScaleSupports :: "int \<Rightarrow> bool" where
  "quantityScaleSupports lotDecimals \<longleftrightarrow> lotDecimals \<le> int QUANTITY_SCALE_DIGITS"

text \<open>The lambda \<^verbatim>\<open>digitsToInt\<close> of \<^verbatim>\<open>parseFixedPoint\<close>: a loop over the characters.\<close>

fun digitsToInt_loop :: "int \<Rightarrow> string \<Rightarrow> int result" where
  "digitsToInt_loop value [] = Inr value"
| "digitsToInt_loop value (c # cs) =
     (if \<not> is_digit c then Inl (Invalid_argument ''parseFixedPoint: invalid character'')
      else digitsToInt_loop (s64 (s64 (value * 10) + char_digit c)) cs)"

definition digitsToInt :: "string \<Rightarrow> int result" where
  "digitsToInt digits = digitsToInt_loop 0 digits"

text \<open>The padding loop: one multiplication by ten per missing fractional digit.\<close>

primrec pad_fraction :: "nat \<Rightarrow> int \<Rightarrow> int" where
  "pad_fraction 0 fracValue = fracValue"
| "pad_fraction (Suc n) fracValue = pad_fraction n (s64 (fracValue * 10))"

definition parseFixedPoint :: "string \<Rightarrow> int \<Rightarrow> nat \<Rightarrow> int result" where
  "parseFixedPoint s scale scaleDigits =
     (if s = [] then Inl (Invalid_argument ''parseFixedPoint: empty string'')
      else
        let hasSign = s ! 0 = CHR ''-'' \<or> s ! 0 = CHR ''+'';
            negative = s ! 0 = CHR ''-'';
            pos = (if hasSign then 1 else 0);
            dot = find_char (CHR ''.'') s pos;
            intPart = (case dot of None \<Rightarrow> drop pos s | Some d \<Rightarrow> take (d - pos) (drop pos s));
            fracPart = (case dot of None \<Rightarrow> [] | Some d \<Rightarrow> drop (d + 1) s)
        in if length fracPart > scaleDigits
           then Inl (Invalid_argument ''parseFixedPoint: more fractional digits than scale supports'')
           else case digitsToInt intPart of Inl e \<Rightarrow> Inl e
           | Inr intValue \<Rightarrow> (case digitsToInt fracPart of Inl e \<Rightarrow> Inl e
           | Inr fracValue \<Rightarrow>
               let ticks = s64 (s64 (intValue * scale) +
                                pad_fraction (scaleDigits - length fracPart) fracValue)
               in Inr (if negative then s64 (- ticks) else ticks)))"

definition formatFixedPoint :: "int \<Rightarrow> int \<Rightarrow> nat \<Rightarrow> string" where
  "formatFixedPoint ticks scale scaleDigits =
     (let negative = ticks < 0;
          absTicks = (word_of_int (if negative then s64 (- ticks) else ticks) :: u64);
          intPart = absTicks div word_of_int scale;
          fracPart = absTicks mod word_of_int scale;
          fracStr = to_string (unat fracPart);
          fracStr' = (if length fracStr < scaleDigits
                      then replicate (scaleDigits - length fracStr) (CHR ''0'') @ fracStr
                      else fracStr)
      in (if negative then ''-'' else '''') @ to_string (unat intPart) @ ''.'' @ fracStr')"

datatype Price = Price (price_ticks: int)

datatype Quantity = Quantity (qty_ticks: int)

text \<open>
  The defaulted three-way comparisons compare the ticks; \<^verbatim>\<open><\<close>, \<^verbatim>\<open><=\<close> and the other relations are
  rewritten by the compiler to tests of their result. The arithmetic operators wrap around.
\<close>

datatype strong_ordering = Ordering_less | Ordering_equal | Ordering_greater

definition ticks_compare :: "int \<Rightarrow> int \<Rightarrow> strong_ordering" where
  "ticks_compare a b = (if a < b then Ordering_less else if a = b then Ordering_equal else Ordering_greater)"

definition price_compare :: "Price \<Rightarrow> Price \<Rightarrow> strong_ordering" where
  "price_compare a b = ticks_compare (price_ticks a) (price_ticks b)"

definition qty_compare :: "Quantity \<Rightarrow> Quantity \<Rightarrow> strong_ordering" where
  "qty_compare a b = ticks_compare (qty_ticks a) (qty_ticks b)"

definition qty_subtract :: "Quantity \<Rightarrow> Quantity \<Rightarrow> Quantity" where
  "qty_subtract a b = Quantity (s64 (qty_ticks a - qty_ticks b))"

definition qty_add :: "Quantity \<Rightarrow> Quantity \<Rightarrow> Quantity" where
  "qty_add a b = Quantity (s64 (qty_ticks a + qty_ticks b))"

lemma ticks_compare_simps [simp]:
  "ticks_compare a b = Ordering_less \<longleftrightarrow> a < b" "ticks_compare a b = Ordering_greater \<longleftrightarrow> b < a"
  "ticks_compare a b = Ordering_equal \<longleftrightarrow> a = b"
  by (auto simp: ticks_compare_def)

instantiation Price :: linorder
begin
definition less_eq_Price :: "Price \<Rightarrow> Price \<Rightarrow> bool" where
  "less_eq_Price a b \<longleftrightarrow> price_compare a b \<noteq> Ordering_greater"
definition less_Price :: "Price \<Rightarrow> Price \<Rightarrow> bool" where
  "less_Price a b \<longleftrightarrow> price_compare a b = Ordering_less"
instance
  by standard (auto simp: less_eq_Price_def less_Price_def price_compare_def intro: Price.expand)
end

instantiation Quantity :: linorder
begin
definition less_eq_Quantity :: "Quantity \<Rightarrow> Quantity \<Rightarrow> bool" where
  "less_eq_Quantity a b \<longleftrightarrow> qty_compare a b \<noteq> Ordering_greater"
definition less_Quantity :: "Quantity \<Rightarrow> Quantity \<Rightarrow> bool" where
  "less_Quantity a b \<longleftrightarrow> qty_compare a b = Ordering_less"
instance
  by standard (auto simp: less_eq_Quantity_def less_Quantity_def qty_compare_def intro: Quantity.expand)
end

instantiation Quantity :: "{plus, minus}"
begin
definition plus_Quantity :: "Quantity \<Rightarrow> Quantity \<Rightarrow> Quantity" where
  "plus_Quantity = qty_add"
definition minus_Quantity :: "Quantity \<Rightarrow> Quantity \<Rightarrow> Quantity" where
  "minus_Quantity = qty_subtract"
instance ..
end

lemma less_eq_Price_iff: "a \<le> b \<longleftrightarrow> price_ticks a \<le> price_ticks b"
  by (auto simp: less_eq_Price_def price_compare_def)

lemma less_Price_iff: "a < b \<longleftrightarrow> price_ticks a < price_ticks b"
  by (simp add: less_Price_def price_compare_def)

lemma less_eq_Quantity_iff: "a \<le> b \<longleftrightarrow> qty_ticks a \<le> qty_ticks b"
  by (auto simp: less_eq_Quantity_def qty_compare_def)

definition price_fromDecimalString :: "string \<Rightarrow> Price result" where
  "price_fromDecimalString s = map_sum id Price (parseFixedPoint s PRICE_SCALE PRICE_SCALE_DIGITS)"

definition price_toDecimalString :: "Price \<Rightarrow> string" where
  "price_toDecimalString p = formatFixedPoint (price_ticks p) PRICE_SCALE PRICE_SCALE_DIGITS"

definition qty_fromDecimalString :: "string \<Rightarrow> Quantity result" where
  "qty_fromDecimalString s = map_sum id Quantity (parseFixedPoint s QUANTITY_SCALE QUANTITY_SCALE_DIGITS)"

definition qty_toDecimalString :: "Quantity \<Rightarrow> string" where
  "qty_toDecimalString q = formatFixedPoint (qty_ticks q) QUANTITY_SCALE QUANTITY_SCALE_DIGITS"

text \<open>
  The meaning of a decimal string, in unbounded integers: an optional sign, digits, and
  optionally a point followed by at most \<open>k\<close> digits, in units of \<open>10\<^sup>-\<^sup>k\<close>.
\<close>

definition digits_val :: "string \<Rightarrow> int" where
  "digits_val cs = foldl (\<lambda>v c. v * 10 + char_digit c) 0 cs"

definition unsigned_value :: "nat \<Rightarrow> string \<Rightarrow> int option" where
  "unsigned_value k body =
     (let ip = takeWhile (\<lambda>c. c \<noteq> CHR ''.'') body; fp = drop (Suc (length ip)) body
      in if list_all is_digit ip \<and> list_all is_digit fp \<and> length fp \<le> k
         then Some (digits_val ip * 10 ^ k + digits_val fp * 10 ^ (k - length fp)) else None)"

fun decimal_value :: "nat \<Rightarrow> string \<Rightarrow> int option" where
  "decimal_value k [] = None"
| "decimal_value k (c # cs) =
     (if c = CHR ''-'' then map_option uminus (unsigned_value k cs)
      else if c = CHR ''+'' then unsigned_value k cs
      else unsigned_value k (c # cs))"

section \<open>Lemmas\<close>

lemma qty_le_iff [qty_simps]: "a \<le> b \<longleftrightarrow> qty_ticks a \<le> qty_ticks b"
  by (simp add: less_eq_Quantity_iff)

lemma qty_less_iff [qty_simps]: "a < b \<longleftrightarrow> qty_ticks a < qty_ticks b"
  by (simp add: less_Quantity_def qty_compare_def)

lemma qty_ticks_min [simp, qty_simps]: "qty_ticks (min a b) = min (qty_ticks a) (qty_ticks b)"
  by (simp add: min_def less_eq_Quantity_iff)

lemma qty_ticks_minus [simp, qty_simps]: "qty_ticks (a - b) = s64 (qty_ticks a - qty_ticks b)"
  by (simp add: minus_Quantity_def qty_subtract_def)

lemma qty_ticks_plus [simp, qty_simps]: "qty_ticks (a + b) = s64 (qty_ticks a + qty_ticks b)"
  by (simp add: plus_Quantity_def qty_add_def)

subsection \<open>Digits\<close>

lemma digit_char_props:
  assumes "d < 10"
  shows "is_digit (digit_char d)" and "char_digit (digit_char d) = int d"
    and "digit_char d \<noteq> CHR ''.''"
proof -
  have o: "of_char (digit_char d) = 48 + d"
    using assms by (simp add: digit_char_def)
  then show "is_digit (digit_char d)" and "char_digit (digit_char d) = int d"
    using assms by (simp_all add: is_digit_def char_digit_def)
  have "of_char (CHR ''.'') = (46 :: nat)" by simp
  with o show "digit_char d \<noteq> CHR ''.''" by auto
qed

lemma is_digit_neq:
  assumes "is_digit c"
  shows "c \<noteq> CHR ''.''" and "c \<noteq> CHR ''-''" and "c \<noteq> CHR ''+''"
  using assms by (auto simp: is_digit_def)

lemma char_digit_range: "is_digit c \<Longrightarrow> 0 \<le> char_digit c \<and> char_digit c \<le> 9"
  by (auto simp: is_digit_def char_digit_def)

lemma foldl_digits: "foldl (\<lambda>v c. v * 10 + char_digit c) a cs = a * 10 ^ length cs + digits_val cs"
proof (induction cs arbitrary: a)
  case Nil
  show ?case by (simp add: digits_val_def)
next
  case (Cons c cs)
  have "digits_val (c # cs) = char_digit c * 10 ^ length cs + digits_val cs"
    using Cons [of "char_digit c"] by (simp add: digits_val_def)
  with Cons show ?case by (simp add: algebra_simps)
qed

lemma digits_val_simps [simp]:
  "digits_val [] = 0"
  "digits_val (c # cs) = char_digit c * 10 ^ length cs + digits_val cs"
  "digits_val (as @ bs) = digits_val as * 10 ^ length bs + digits_val bs"
  using foldl_digits [of "char_digit c" cs] foldl_digits [of "digits_val as" bs]
  by (simp_all add: digits_val_def)

lemma digits_val_nonneg: "list_all is_digit cs \<Longrightarrow> 0 \<le> digits_val cs"
  by (induction cs) (auto dest: char_digit_range)

lemma digits_val_less: "list_all is_digit cs \<Longrightarrow> digits_val cs < 10 ^ length cs"
proof (induction cs)
  case Nil
  show ?case by simp
next
  case (Cons c cs)
  have "char_digit c * 10 ^ length cs \<le> 9 * 10 ^ length cs"
    using Cons.prems char_digit_range [of c] by (intro mult_right_mono) auto
  moreover have "digits_val cs < 10 ^ length cs" using Cons by simp
  ultimately have "char_digit c * 10 ^ length cs + digits_val cs < 10 * 10 ^ length cs" by linarith
  then show ?case by simp
qed

lemma digits_val_zeros [simp]: "digits_val (replicate n (CHR ''0'')) = 0"
  by (induction n) (simp_all add: char_digit_def)

lemma list_all_zeros [simp]: "list_all is_digit (replicate n (CHR ''0''))"
  by (induction n) (simp_all add: is_digit_def)

lemma to_string_digits [simp]: "list_all is_digit (to_string n)"
proof (induction n rule: to_string.induct)
  case (1 n)
  then show ?case
    by (subst to_string.simps) (auto simp: digit_char_props)
qed

lemma digits_val_to_string [simp]: "digits_val (to_string n) = int n"
proof (induction n rule: to_string.induct)
  case (1 n)
  show ?case
  proof (cases "n < 10")
    case True
    then show ?thesis by (simp add: to_string.simps [of n] digit_char_props)
  next
    case False
    have "int (n div 10) * 10 + int (n mod 10) = int n" by presburger
    with False 1 show ?thesis
      by (simp add: to_string.simps [of n] digit_char_props del: of_nat_div of_nat_mod zdiv_int zmod_int)
  qed
qed

lemma to_string_neq_Nil [simp]: "to_string n \<noteq> []"
  by (subst to_string.simps) simp

lemma length_to_string: "0 < k \<Longrightarrow> n < 10 ^ k \<Longrightarrow> length (to_string n) \<le> k"
proof (induction n arbitrary: k rule: to_string.induct)
  case (1 n)
  show ?case
  proof (cases "n < 10")
    case True
    with 1 show ?thesis by (simp add: to_string.simps [of n])
  next
    case False
    with 1(3) have "k \<noteq> 1" by auto
    with 1(2) obtain j where j: "k = Suc j" "0 < j" by (cases k) auto
    have "n div 10 < 10 ^ j" using 1(3) j by (simp add: div_less_iff_less_mult mult.commute)
    with 1(1) [OF False j(2)] False j show ?thesis by (simp add: to_string.simps [of n])
  qed
qed

subsection \<open>The parser computes the meaning of the string\<close>

lemma digitsToInt_loop_eq:
  "digitsToInt_loop v cs =
     (if list_all is_digit cs then Inr (if cs = [] then v else s64 (v * 10 ^ length cs + digits_val cs))
      else Inl (Invalid_argument ''parseFixedPoint: invalid character''))"
proof (induction cs arbitrary: v)
  case Nil
  show ?case by simp
next
  case (Cons c cs)
  have "s64 (s64 (v * 10 + char_digit c) * 10 ^ length cs + digits_val cs)
        = s64 ((v * 10 + char_digit c) * 10 ^ length cs + digits_val cs)"
    by (metis s64_s64_add s64_s64_mult)
  with Cons show ?case by (simp add: algebra_simps)
qed

lemma digitsToInt_eq:
  "digitsToInt cs = (if list_all is_digit cs then Inr (s64 (digits_val cs))
     else Inl (Invalid_argument ''parseFixedPoint: invalid character''))"
  by (simp add: digitsToInt_def digitsToInt_loop_eq)

lemma pad_fraction_eq: "pad_fraction n (s64 v) = s64 (v * 10 ^ n)"
  by (induction n arbitrary: v) (simp_all add: algebra_simps)

text \<open>The index arithmetic of the parser splits the body at its first point.\<close>

lemma find_char_split:
  fixes s :: string and pos :: nat
  defines "body \<equiv> drop pos s"
  defines "ip \<equiv> takeWhile (\<lambda>c. c \<noteq> CHR ''.'') body"
  assumes "pos \<le> length s"
  shows "(case find_char (CHR ''.'') s pos of None \<Rightarrow> drop pos s | Some d \<Rightarrow> take (d - pos) (drop pos s)) = ip"
    and "(case find_char (CHR ''.'') s pos of None \<Rightarrow> [] | Some d \<Rightarrow> drop (d + 1) s) = drop (Suc (length ip)) body"
proof -
  have le: "length ip \<le> length body" unfolding ip_def by (rule length_takeWhile_le)
  have tk: "take (length ip) body = ip" unfolding ip_def by (metis takeWhile_eq_take)
  have len: "length body = length s - pos" by (simp add: body_def)
  have f: "find_char (CHR ''.'') s pos = (if length ip < length body then Some (pos + length ip) else None)"
    using assms(3) len by (auto simp: find_char_def Let_def ip_def body_def)
  show "(case find_char (CHR ''.'') s pos of None \<Rightarrow> drop pos s | Some d \<Rightarrow> take (d - pos) (drop pos s)) = ip"
    using tk le by (auto simp: f body_def)
  show "(case find_char (CHR ''.'') s pos of None \<Rightarrow> [] | Some d \<Rightarrow> drop (d + 1) s) = drop (Suc (length ip)) body"
    using le by (auto simp: f body_def add.commute)
qed

lemma parseFixedPoint_body:
  assumes "s \<noteq> []"
  defines "hasSign \<equiv> s ! 0 = CHR ''-'' \<or> s ! 0 = CHR ''+''"
  shows "case unsigned_value k (drop (if hasSign then 1 else 0) s) of
       None \<Rightarrow> \<exists>m. parseFixedPoint s (10 ^ k) k = Inl (Invalid_argument m)
     | Some v \<Rightarrow> parseFixedPoint s (10 ^ k) k = Inr (s64 (if s ! 0 = CHR ''-'' then - v else v))"
proof -
  define pos :: nat where "pos = (if hasSign then 1 else 0)"
  define ip where "ip = takeWhile (\<lambda>c. c \<noteq> CHR ''.'') (drop pos s)"
  define fp where "fp = drop (Suc (length ip)) (drop pos s)"
  have pos: "pos \<le> length s" using assms(1) by (cases s) (auto simp: pos_def)
  have parse: "parseFixedPoint s (10 ^ k) k =
     (if length fp > k then Inl (Invalid_argument ''parseFixedPoint: more fractional digits than scale supports'')
      else case digitsToInt ip of Inl e \<Rightarrow> Inl e
      | Inr iv \<Rightarrow> (case digitsToInt fp of Inl e \<Rightarrow> Inl e
      | Inr fv \<Rightarrow> let t = s64 (s64 (iv * 10 ^ k) + pad_fraction (k - length fp) fv)
                in Inr (if s ! 0 = CHR ''-'' then s64 (- t) else t)))"
    unfolding parseFixedPoint_def Let_def hasSign_def [symmetric] pos_def [symmetric]
      find_char_split [OF pos] ip_def fp_def
    by (simp only: assms(1) if_False)
  have uv: "unsigned_value k (drop pos s) =
      (if list_all is_digit ip \<and> list_all is_digit fp \<and> length fp \<le> k
       then Some (digits_val ip * 10 ^ k + digits_val fp * 10 ^ (k - length fp)) else None)"
    by (simp add: unsigned_value_def Let_def ip_def fp_def)
  show ?thesis
    unfolding pos_def [symmetric] uv parse
    by (auto simp: digitsToInt_eq pad_fraction_eq Let_def simp del: of_nat_le_iff)
qed

lemma parseFixedPoint_decimal_value:
  "case decimal_value k s of
     None \<Rightarrow> \<exists>m. parseFixedPoint s (10 ^ k) k = Inl (Invalid_argument m)
   | Some v \<Rightarrow> parseFixedPoint s (10 ^ k) k = Inr (s64 v)"
proof (cases s)
  case Nil
  then show ?thesis by (simp add: parseFixedPoint_def)
next
  case (Cons c cs)
  then show ?thesis
    using parseFixedPoint_body [of s k]
    by (auto simp: option.case_eq_if split: if_splits)
qed

lemma parseFixedPoint_Some: "decimal_value k s = Some v \<Longrightarrow> parseFixedPoint s (10 ^ k) k = Inr (s64 v)"
  using parseFixedPoint_decimal_value [of s k] by simp

subsection \<open>The printer writes a string that means the ticks\<close>

definition fraction_digits :: "nat \<Rightarrow> nat \<Rightarrow> string" where
  "fraction_digits k n = replicate (k - length (to_string n)) (CHR ''0'') @ to_string n"

lemma fraction_digits_props:
  assumes "0 < k" and "n < 10 ^ k"
  shows "list_all is_digit (fraction_digits k n)" and "digits_val (fraction_digits k n) = int n"
    and "length (fraction_digits k n) = k"
  using length_to_string [OF assms] by (simp_all add: fraction_digits_def)

lemma formatFixedPoint_eq:
  assumes "in_s64 t" and "0 < k" and "10 ^ k < (2 ^ 63 :: int)"
  shows "formatFixedPoint t (10 ^ k) k =
     (if t < 0 then ''-'' else '''') @ to_string (nat \<bar>t\<bar> div 10 ^ k) @ ''.'' @ fraction_digits k (nat \<bar>t\<bar> mod 10 ^ k)"
proof -
  define a :: u64 where "a = word_of_int (if t < 0 then s64 (- t) else t)"
  have mod: "(if t < 0 then s64 (- t) else t) mod 2 ^ 64 = \<bar>t\<bar>"
    using assms(1) s64_mod [of "- t"] by (auto simp: in_s64_def)
  have "uint a = \<bar>t\<bar>"
    unfolding a_def uint_word_of_int using mod by simp
  then have a: "unat a = nat \<bar>t\<bar>"
    by (simp only: unat_eq_nat_uint)
  have k: "unat (word_of_int (10 ^ k) :: u64) = 10 ^ k"
    using assms(3) by (simp only: unat_eq_nat_uint uint_word_of_int) (simp add: nat_power_eq)
  have "nat \<bar>t\<bar> mod 10 ^ k < 10 ^ k" by simp
  then have len: "length (to_string (nat \<bar>t\<bar> mod 10 ^ k)) \<le> k"
    using assms(2) by (rule length_to_string [rotated])
  have pad: "(if length (to_string n) < k then replicate (k - length (to_string n)) (CHR ''0'') @ to_string n
         else to_string n) = fraction_digits k n" if "length (to_string n) \<le> k" for n
    using that by (auto simp: fraction_digits_def)
  show ?thesis
    unfolding formatFixedPoint_def Let_def a_def [symmetric] unat_div_distrib unat_mod_distrib a k
    using pad [OF len] by simp
qed

lemma takeWhile_digits_dot:
  "list_all is_digit ds \<Longrightarrow> takeWhile (\<lambda>c. c \<noteq> CHR ''.'') (ds @ CHR ''.'' # fs) = ds"
  by (induction ds) (auto dest: is_digit_neq)

lemma unsigned_value_dot:
  assumes "list_all is_digit ds" and "list_all is_digit fs" and "length fs = k"
  shows "unsigned_value k (ds @ CHR ''.'' # fs) = Some (digits_val ds * 10 ^ k + digits_val fs)"
  using assms by (simp add: unsigned_value_def takeWhile_digits_dot Let_def)

lemma decimal_value_digit:
  assumes "list_all is_digit ds" and "ds \<noteq> []"
  shows "decimal_value k (ds @ r) = unsigned_value k (ds @ r)"
  using assms by (cases ds) (auto dest: is_digit_neq)

lemma decimal_value_format:
  assumes "in_s64 t" and "0 < k" and "10 ^ k < (2 ^ 63 :: int)"
  shows "decimal_value k (formatFixedPoint t (10 ^ k) k) = Some t"
proof -
  define n where "n = nat \<bar>t\<bar>"
  define body where "body = to_string (n div 10 ^ k) @ CHR ''.'' # fraction_digits k (n mod 10 ^ k)"
  have "unsigned_value k body = Some (int (n div 10 ^ k) * 10 ^ k + int (n mod 10 ^ k))"
    using fraction_digits_props [OF assms(2), of "n mod 10 ^ k"]
    by (simp add: body_def unsigned_value_dot)
  moreover have "int (n div 10 ^ k) * 10 ^ k + int (n mod 10 ^ k) = int n"
    by (simp only: zdiv_int zmod_int of_nat_power of_nat_numeral div_mult_mod_eq)
  ultimately have u: "unsigned_value k body = Some \<bar>t\<bar>" by (simp add: n_def)
  have d: "decimal_value k body = unsigned_value k body"
    unfolding body_def by (rule decimal_value_digit) simp_all
  show ?thesis
    using u d by (auto simp: formatFixedPoint_eq [OF assms] body_def n_def)
qed

subsection \<open>The contract of decimal text\<close>

lemma s64_eq_iff: "s64 v = v \<longleftrightarrow> in_s64 v"
  by (metis in_s64_s64 s64_id)

lemma scale_is_power:
  "PRICE_SCALE = 10 ^ PRICE_SCALE_DIGITS" "QUANTITY_SCALE = 10 ^ QUANTITY_SCALE_DIGITS"
  "0 < PRICE_SCALE_DIGITS" "0 < QUANTITY_SCALE_DIGITS"
  "10 ^ PRICE_SCALE_DIGITS < (2 ^ 63 :: int)" "10 ^ QUANTITY_SCALE_DIGITS < (2 ^ 63 :: int)"
  by (simp_all add: PRICE_SCALE_def PRICE_SCALE_DIGITS_def QUANTITY_SCALE_def QUANTITY_SCALE_DIGITS_def)

lemma parse_format:
  assumes "in_s64 t" and "0 < k" and "10 ^ k < (2 ^ 63 :: int)"
  shows "parseFixedPoint (formatFixedPoint t (10 ^ k) k) (10 ^ k) k = Inr t"
  using parseFixedPoint_Some [OF decimal_value_format [OF assms]] assms(1) by simp

lemma parse_in_s64: "parseFixedPoint s (10 ^ k) k = Inr t \<Longrightarrow> in_s64 t"
  using parseFixedPoint_decimal_value [of s k] by (auto split: option.splits)

lemma parse_error_kind: "parseFixedPoint s (10 ^ k) k = Inl e \<Longrightarrow> \<exists>m. e = Invalid_argument m"
  using parseFixedPoint_decimal_value [of s k] by (auto split: option.splits)

text \<open>
  What \<^verbatim>\<open>Price\<close> and \<^verbatim>\<open>Quantity\<close> promise of their text: printing a representable value
  and parsing it gives the value back, and parsing either throws \<^verbatim>\<open>invalid_argument\<close> or
  gives a representable value.
\<close>

locale decimal_text =
  fixes fromDecimalString :: "string \<Rightarrow> 'a result"
    and toDecimalString :: "'a \<Rightarrow> string"
    and representable :: "'a \<Rightarrow> bool"
  assumes parse_print: "representable x \<Longrightarrow> fromDecimalString (toDecimalString x) = Inr x"
    and parse_representable: "fromDecimalString s = Inr x \<Longrightarrow> representable x"
    and parse_invalid: "fromDecimalString s = Inl e \<Longrightarrow> \<exists>m. e = Invalid_argument m"
begin

lemma print_inj: "representable x \<Longrightarrow> representable y \<Longrightarrow> toDecimalString x = toDecimalString y \<Longrightarrow> x = y"
  by (metis parse_print sum.inject(2))

lemma canonical: "fromDecimalString s = Inr x \<Longrightarrow> fromDecimalString (toDecimalString x) = Inr x"
  by (rule parse_print) (rule parse_representable)

end

definition price_ok :: "Price \<Rightarrow> bool" where "price_ok p \<longleftrightarrow> in_s64 (price_ticks p)"
definition qty_ok :: "Quantity \<Rightarrow> bool" where "qty_ok q \<longleftrightarrow> in_s64 (qty_ticks q)"

lemma map_sum_Inr_iff: "map_sum id f x = Inr y \<longleftrightarrow> (\<exists>z. x = Inr z \<and> y = f z)"
  by (cases x) auto

lemma map_sum_Inl_iff: "map_sum id f x = Inl e \<longleftrightarrow> x = Inl e"
  by (cases x) auto

interpretation price_text: decimal_text price_fromDecimalString price_toDecimalString price_ok
  by unfold_locales
    (auto simp: price_fromDecimalString_def price_toDecimalString_def price_ok_def scale_is_power(1)
      parse_format [OF _ scale_is_power(3,5)] map_sum_Inr_iff map_sum_Inl_iff dest: parse_in_s64 parse_error_kind)

interpretation qty_text: decimal_text qty_fromDecimalString qty_toDecimalString qty_ok
  by unfold_locales
    (auto simp: qty_fromDecimalString_def qty_toDecimalString_def qty_ok_def scale_is_power(2)
      parse_format [OF _ scale_is_power(4,6)] map_sum_Inr_iff map_sum_Inl_iff dest: parse_in_s64 parse_error_kind)

section \<open>Properties\<close>

text \<open>
  C16 (functional): \<^verbatim>\<open>parseFixedPoint\<close> at the price scale computes the meaning of the decimal
  string: it throws \<^verbatim>\<open>invalid_argument\<close> exactly on the strings the grammar does not accept
  (empty, a stray character, more than ten fractional digits), and otherwise returns the
  value in ticks, reduced to 64 bits.
\<close>

theorem parseFixedPoint_computes_value:
  "case decimal_value PRICE_SCALE_DIGITS s of
     None \<Rightarrow> \<exists>m. parseFixedPoint s PRICE_SCALE PRICE_SCALE_DIGITS = Inl (Invalid_argument m)
   | Some v \<Rightarrow> parseFixedPoint s PRICE_SCALE PRICE_SCALE_DIGITS = Inr (s64 v)"
  unfolding scale_is_power(1) by (rule parseFixedPoint_decimal_value)

text \<open>
  C17 (round trip): every 64-bit price and every 64-bit quantity survives being printed by
  \<^verbatim>\<open>toDecimalString\<close> and read back by \<^verbatim>\<open>fromDecimalString\<close>.
\<close>

theorem decimal_string_roundtrip:
  assumes "in_s64 t"
  shows "price_fromDecimalString (price_toDecimalString (Price t)) = Inr (Price t) \<and>
    qty_fromDecimalString (qty_toDecimalString (Quantity t)) = Inr (Quantity t)"
  using assms price_text.parse_print [of "Price t"] qty_text.parse_print [of "Quantity t"]
  by (simp_all add: price_ok_def qty_ok_def)

theorem decimal_string_roundtrip_witness:
  "in_s64 (- 12345) \<and>
   price_fromDecimalString (price_toDecimalString (Price (- 12345))) = Inr (Price (- 12345)) \<and>
   qty_fromDecimalString (qty_toDecimalString (Quantity (- 12345))) = Inr (Quantity (- 12345))"
proof -
  have h: "in_s64 (- 12345)" by (simp add: in_s64_def)
  show ?thesis using h decimal_string_roundtrip [OF h] by simp
qed



end
