(* ===== verification/Order_Book.thy ===== *)
theory Order_Book
  imports Price_Quantity
begin

text \<open>
  One side of the order book and the book itself:
  \<^verbatim>\<open>engine/include/engine/book/price_level.hpp\<close>, \<^verbatim>\<open>order_book.hpp\<close> and
  \<^verbatim>\<open>engine/src/book/order_book.cpp\<close>. The side is the sorted vector of levels that the
  code keeps, with its binary search, its erase, assign and insert, and the eviction that
  keeps it at \<open>BOOK_DEPTH\<close> levels. \<open>side_map\<close> abstracts it to a finite map from prices to
  quantities; the lemmas show that every operation implements its map counterpart, and the
  locale \<open>level_store\<close> is the interface the book client relies on.
\<close>

section \<open>Definitions\<close>

record PriceLevel =
  level_price :: Price
  level_quantity :: Quantity

datatype BookSide = Bid | Ask

definition BOOK_DEPTH :: nat where "BOOK_DEPTH = 100"

record OrderBookSide =
  side_of :: BookSide
  levels_of :: "PriceLevel list"

record OrderBook =
  book_symbol :: string
  bids :: OrderBookSide
  asks :: OrderBookSide
  lastSeq :: u64
  lastCheckSum :: u32

definition new_side :: "BookSide \<Rightarrow> OrderBookSide" where
  "new_side b = \<lparr>side_of = b, levels_of = []\<rparr>"

definition new_book :: OrderBook where
  "new_book = \<lparr>book_symbol = [], bids = new_side Bid, asks = new_side Ask, lastSeq = 0, lastCheckSum = 0\<rparr>"

definition better :: "OrderBookSide \<Rightarrow> Price \<Rightarrow> Price \<Rightarrow> bool" where
  "better s a b = (if side_of s = Bid then a > b else a < b)"

definition level_position :: "OrderBookSide \<Rightarrow> Price \<Rightarrow> nat" where
  "level_position s price = lower_bound (\<lambda>level. better s (level_price level) price) (levels_of s)"

definition applyDelta :: "OrderBookSide \<Rightarrow> Price \<Rightarrow> Quantity \<Rightarrow> OrderBookSide \<times> Price option" where
  "applyDelta s price newQuantity =
     (let xs = levels_of s;
          it = level_position s price;
          foundExisting = (it < length xs \<and> level_price (xs ! it) = price)
      in if qty_ticks newQuantity = 0
         then (if foundExisting then s\<lparr>levels_of := take it xs @ drop (Suc it) xs\<rparr> else s, None)
         else
           let xs' = (if foundExisting then xs[it := (xs ! it)\<lparr>level_quantity := newQuantity\<rparr>]
                      else take it xs @ \<lparr>level_price = price, level_quantity = newQuantity\<rparr> # drop it xs)
           in if length xs' > BOOK_DEPTH
              then (s\<lparr>levels_of := take BOOK_DEPTH xs'\<rparr>, Some (level_price (last xs')))
              else (s\<lparr>levels_of := xs'\<rparr>, None))"

definition clear :: "OrderBookSide \<Rightarrow> OrderBookSide" where
  "clear s = s\<lparr>levels_of := []\<rparr>"

definition top :: "OrderBookSide \<Rightarrow> PriceLevel result" where
  "top s = (case levels_of s of [] \<Rightarrow> Inl (Out_of_range ''OrderBookSide::top: side has no levels'')
            | l # _ \<Rightarrow> Inr l)"

definition depth :: "OrderBookSide \<Rightarrow> nat \<Rightarrow> PriceLevel list" where
  "depth s n = take (min n (length (levels_of s))) (levels_of s)"

definition sizeAtPrice :: "OrderBookSide \<Rightarrow> Price \<Rightarrow> Quantity" where
  "sizeAtPrice s price =
     (let it = level_position s price
      in if it < length (levels_of s) \<and> level_price (levels_of s ! it) = price
         then level_quantity (levels_of s ! it) else Quantity 0)"

text \<open>The invariant of a side: strictly best-first, at most \<open>BOOK_DEPTH\<close> levels, none empty.\<close>

definition side_inv :: "OrderBookSide \<Rightarrow> bool" where
  "side_inv s \<longleftrightarrow> sorted_wrt (better s) (map level_price (levels_of s))
     \<and> length (levels_of s) \<le> BOOK_DEPTH
     \<and> (\<forall>l \<in> set (levels_of s). qty_ticks (level_quantity l) \<noteq> 0)"

definition book_inv :: "OrderBook \<Rightarrow> bool" where
  "book_inv b \<longleftrightarrow> side_inv (bids b) \<and> side_inv (asks b) \<and> side_of (bids b) = Bid \<and> side_of (asks b) = Ask"

definition level_pair :: "PriceLevel \<Rightarrow> Price \<times> Quantity" where
  "level_pair l = (level_price l, level_quantity l)"

definition side_map :: "OrderBookSide \<Rightarrow> (Price \<rightharpoonup> Quantity)" where
  "side_map s = map_of (map level_pair (levels_of s))"

text \<open>
  The specification of a delta on the map: quantity zero removes the price, any other
  quantity sets it; of more than \<open>BOOK_DEPTH\<close> prices the worst one is dropped.
\<close>

definition mirror_delta :: "(Price \<rightharpoonup> Quantity) \<Rightarrow> Price \<times> Quantity \<Rightarrow> (Price \<rightharpoonup> Quantity)" where
  "mirror_delta m d = (if qty_ticks (snd d) = 0 then m(fst d := None) else m(fst d \<mapsto> snd d))"

definition worst_price :: "BookSide \<Rightarrow> Price set \<Rightarrow> Price" where
  "worst_price b ps = (case b of Bid \<Rightarrow> Min ps | Ask \<Rightarrow> Max ps)"

definition evict_spec :: "BookSide \<Rightarrow> (Price \<rightharpoonup> Quantity) \<Rightarrow> Price option" where
  "evict_spec b m = (if card (dom m) > BOOK_DEPTH then Some (worst_price b (dom m)) else None)"

definition drop_evicted :: "(Price \<rightharpoonup> Quantity) \<Rightarrow> Price option \<Rightarrow> (Price \<rightharpoonup> Quantity)" where
  "drop_evicted m ev = (case ev of None \<Rightarrow> m | Some p \<Rightarrow> m(p := None))"

section \<open>Lemmas\<close>

lemma better_irrefl [simp]: "\<not> better s a a"
  by (simp add: better_def)

lemma better_trans: "better s a b \<Longrightarrow> better s b c \<Longrightarrow> better s a c"
  by (auto simp: better_def split: if_splits)

lemma better_total: "better s a b \<or> a = b \<or> better s b a"
  by (auto simp: better_def)

lemma better_levels [simp]: "better (s\<lparr>levels_of := xs\<rparr>) = better s"
  by (simp add: better_def fun_eq_iff)

lemma side_inv_sorted: "side_inv s \<Longrightarrow> sorted_wrt (better s) (map level_price (levels_of s))"
  by (simp add: side_inv_def)

lemma sorted_better_distinct: "sorted_wrt (better s) ps \<Longrightarrow> distinct ps"
  by (induction ps) auto

lemma partitioned_better:
  assumes "sorted_wrt (better s) (map level_price xs)"
  shows "partitioned (\<lambda>l. better s (level_price l) p) xs"
  using assms unfolding partitioned_def
  by (induction xs) (auto intro: better_trans)

text \<open>The search splits the side at the price: better levels before, the rest at or after.\<close>

lemma level_position_split:
  assumes "side_inv s"
  obtains A B where "levels_of s = A @ B" and "level_position s p = length A"
    and "\<forall>a \<in> set A. better s (level_price a) p"
    and "(\<forall>b \<in> set B. better s p (level_price b))
       \<or> (\<exists>l B'. B = l # B' \<and> level_price l = p \<and> (\<forall>b \<in> set B'. better s p (level_price b)))"
proof -
  let ?P = "\<lambda>l. better s (level_price l) p"
  let ?A = "takeWhile ?P (levels_of s)" and ?B = "dropWhile ?P (levels_of s)"
  have srt: "sorted_wrt (better s) (map level_price (levels_of s))"
    using assms by (rule side_inv_sorted)
  have pos: "level_position s p = length ?A"
    unfolding level_position_def by (rule lower_bound_eq) (rule partitioned_better [OF srt])
  have srtB: "sorted_wrt (better s) (map level_price ?B)"
    using srt by (metis map_append sorted_wrt_append takeWhile_dropWhile_id)
  have B: "(\<forall>b \<in> set ?B. better s p (level_price b))
       \<or> (\<exists>l B'. ?B = l # B' \<and> level_price l = p \<and> (\<forall>b \<in> set B'. better s p (level_price b)))"
  proof (cases ?B)
    case Nil
    show ?thesis unfolding Nil by simp
  next
    case (Cons l B')
    then have "\<not> ?P l" by (metis dropWhile_eq_Cons_conv)
    then consider "level_price l = p" | "better s p (level_price l)"
      using better_total by blast
    then show ?thesis
      using srtB Cons by cases (auto intro: better_trans)
  qed
  show ?thesis
    by (rule that [of ?A ?B]) (auto simp: pos B dest: set_takeWhileD)
qed

lemma map_of_levels_None:
  "(\<forall>l \<in> set xs. better s (level_price l) p) \<or> (\<forall>l \<in> set xs. better s p (level_price l))
   \<Longrightarrow> map_of (map level_pair xs) p = None"
  by (auto simp: map_of_eq_None_iff level_pair_def)

lemma dom_side_map: "dom (side_map s) = level_price ` set (levels_of s)"
  by (force simp: side_map_def dom_map_of_conv_image_fst level_pair_def)

lemma card_dom_levels:
  "sorted_wrt (better s) (map level_price xs) \<Longrightarrow> card (dom (map_of (map level_pair xs))) = length xs"
  using distinct_card [OF sorted_better_distinct, of s "map level_price xs"]
  by (simp add: dom_map_of_conv_image_fst image_image level_pair_def)

lemma last_is_worst:
  assumes "sorted_wrt (better s) ps" and "ps \<noteq> []"
  shows "last ps = worst_price (side_of s) (set ps)"
proof -
  have le: "p = last ps \<or> better s p (last ps)" if "p \<in> set ps" for p
    using assms that by (induction ps) auto
  show ?thesis
    using le assms(2)
    by (cases "side_of s") (auto simp: worst_price_def better_def intro!: Min_eqI [symmetric] Max_eqI [symmetric]
        intro: less_imp_le)
qed

subsection \<open>One delta, as an edit of the sorted list\<close>

definition edited :: "PriceLevel list \<Rightarrow> Price \<Rightarrow> Quantity \<Rightarrow> PriceLevel list \<Rightarrow> PriceLevel list" where
  "edited A p q B = A @ (if qty_ticks q = 0 then [] else [\<lparr>level_price = p, level_quantity = q\<rparr>]) @ B"

lemma edited_zero: "qty_ticks q = 0 \<Longrightarrow> edited A p q B = A @ B"
  and edited_nonzero: "qty_ticks q \<noteq> 0 \<Longrightarrow> edited A p q B = A @ \<lparr>level_price = p, level_quantity = q\<rparr> # B"
  by (simp_all add: edited_def)

lemma applyDelta_edit:
  assumes "side_inv s"
  obtains A M B where "levels_of s = A @ M @ B"
    and "M = [] \<or> (\<exists>l. M = [l] \<and> level_price l = p)"
    and "\<forall>a \<in> set A. better s (level_price a) p" and "\<forall>b \<in> set B. better s p (level_price b)"
    and "applyDelta s p q = (s\<lparr>levels_of := take BOOK_DEPTH (edited A p q B)\<rparr>,
       if length (edited A p q B) > BOOK_DEPTH then Some (level_price (last (edited A p q B))) else None)"
proof -
  obtain A B where
    AB: "levels_of s = A @ B" and pos: "level_position s p = length A"
    and A: "\<forall>a \<in> set A. better s (level_price a) p"
    and B: "(\<forall>b \<in> set B. better s p (level_price b))
       \<or> (\<exists>l B'. B = l # B' \<and> level_price l = p \<and> (\<forall>b \<in> set B'. better s p (level_price b)))"
    by (rule level_position_split [OF assms])
  have len: "length A + length B \<le> BOOK_DEPTH" using assms AB by (simp add: side_inv_def)
  have same: "s\<lparr>levels_of := A @ B\<rparr> = s" using AB by simp
  from B show ?thesis
  proof
    assume B1: "\<forall>b \<in> set B. better s p (level_price b)"
    then have absent: "(length A < length (A @ B) \<and> level_price ((A @ B) ! length A) = p) = False"
      by (cases B) (auto simp: better_def)
    have "applyDelta s p q = (s\<lparr>levels_of := take BOOK_DEPTH (edited A p q B)\<rparr>,
       if length (edited A p q B) > BOOK_DEPTH then Some (level_price (last (edited A p q B))) else None)"
      unfolding applyDelta_def Let_def pos AB absent if_False
      using len same by (cases "qty_ticks q = 0") (simp_all add: edited_zero edited_nonzero)
    then show ?thesis using that [of A "[]" B] AB A B1 by simp
  next
    assume "\<exists>l B'. B = l # B' \<and> level_price l = p \<and> (\<forall>b \<in> set B'. better s p (level_price b))"
    then obtain l B' where l: "B = l # B'" "level_price l = p" and B2: "\<forall>b \<in> set B'. better s p (level_price b)"
      by blast
    have upd: "l\<lparr>level_quantity := q\<rparr> = \<lparr>level_price = p, level_quantity = q\<rparr>"
      using l(2) by (cases l) simp
    have "applyDelta s p q = (s\<lparr>levels_of := take BOOK_DEPTH (edited A p q B')\<rparr>,
       if length (edited A p q B') > BOOK_DEPTH then Some (level_price (last (edited A p q B'))) else None)"
      using len l upd by (simp add: applyDelta_def pos AB edited_def Let_def)
    then show ?thesis using that [of A "[l]" B'] AB A B2 l by simp
  qed
qed

lemma edited_sorted:
  assumes "sorted_wrt (better s) (map level_price (A @ M @ B))"
    and "\<forall>a \<in> set A. better s (level_price a) p" and "\<forall>b \<in> set B. better s p (level_price b)"
  shows "sorted_wrt (better s) (map level_price (edited A p q B))"
  using assms by (auto simp: edited_def sorted_wrt_append)

lemma edited_map:
  assumes "M = [] \<or> (\<exists>l. M = [l] \<and> level_price l = p)"
    and "\<forall>a \<in> set A. better s (level_price a) p" and "\<forall>b \<in> set B. better s p (level_price b)"
  shows "map_of (map level_pair (edited A p q B)) = mirror_delta (map_of (map level_pair (A @ M @ B))) (p, q)"
proof -
  have A: "map_of (map level_pair A) p = None" and B: "map_of (map level_pair B) p = None"
    using assms(2,3) by (blast intro: map_of_levels_None)+
  have ext: "f = g" if "f p = g p" and "\<And>x. x \<noteq> p \<Longrightarrow> f x = g x" for f g :: "Price \<rightharpoonup> Quantity"
    using that by (metis ext)
  show ?thesis
    using assms(1) A B
    by (intro ext) (auto simp: edited_def mirror_delta_def level_pair_def map_add_def split: option.splits)
qed

lemma map_of_butlast:
  assumes "sorted_wrt (better s) (map level_price zs)" and "zs \<noteq> []"
  shows "map_of (map level_pair (butlast zs)) = (map_of (map level_pair zs))(level_price (last zs) := None)"
proof -
  define ys l where "ys = butlast zs" and "l = last zs"
  have zs: "zs = ys @ [l]" using assms(2) by (simp add: ys_def l_def)
  have "\<forall>y \<in> set ys. better s (level_price y) (level_price l)"
    using assms(1) by (auto simp: zs sorted_wrt_append)
  then have "map_of (map level_pair ys) (level_price l) = None"
    by (blast intro: map_of_levels_None)
  then show ?thesis
    by (auto simp: zs level_pair_def map_add_def fun_eq_iff split: option.splits)
qed

text \<open>A sorted list of levels that is at most one too long, cut to the depth limit.\<close>

lemma truncated_levels:
  assumes srt: "sorted_wrt (better s) (map level_price zs)" and "length zs \<le> Suc BOOK_DEPTH"
  defines "m \<equiv> map_of (map level_pair zs)"
    and "ev \<equiv> if length zs > BOOK_DEPTH then Some (level_price (last zs)) else None"
  shows "ev = evict_spec (side_of s) m" and "map_of (map level_pair (take BOOK_DEPTH zs)) = drop_evicted m ev"
proof -
  have card: "card (dom m) = length zs" using card_dom_levels [OF srt] by (simp add: m_def)
  have dom: "dom m = set (map level_price zs)"
    unfolding m_def by (force simp: dom_map_of_conv_image_fst level_pair_def)
  have "ev = evict_spec (side_of s) m \<and> map_of (map level_pair (take BOOK_DEPTH zs)) = drop_evicted m ev"
  proof (cases "length zs > BOOK_DEPTH")
    case True
    then have "length zs = Suc BOOK_DEPTH" and ne: "zs \<noteq> []" using assms(2) by auto
    then have cut: "take BOOK_DEPTH zs = butlast zs" by (simp add: butlast_conv_take)
    have "level_price (last zs) = worst_price (side_of s) (dom m)"
      using last_is_worst [OF srt] ne by (simp add: dom last_map)
    with True cut ne show ?thesis
      by (simp add: ev_def evict_spec_def card drop_evicted_def map_of_butlast [OF srt] flip: m_def)
  next
    case False
    then show ?thesis by (simp add: ev_def evict_spec_def card drop_evicted_def flip: m_def)
  qed
  then show "ev = evict_spec (side_of s) m" and "map_of (map level_pair (take BOOK_DEPTH zs)) = drop_evicted m ev" by auto
qed

lemma applyDelta_correct:
  assumes "side_inv s" and "applyDelta s p q = (s', ev)"
  defines "m \<equiv> mirror_delta (side_map s) (p, q)"
  shows "side_inv s'" and "side_of s' = side_of s" and "ev = evict_spec (side_of s) m"
    and "side_map s' = drop_evicted m ev"
proof -
  obtain A M B where
    AMB: "levels_of s = A @ M @ B" and M: "M = [] \<or> (\<exists>l. M = [l] \<and> level_price l = p)"
    and A: "\<forall>a \<in> set A. better s (level_price a) p" and B: "\<forall>b \<in> set B. better s p (level_price b)"
    and d: "applyDelta s p q = (s\<lparr>levels_of := take BOOK_DEPTH (edited A p q B)\<rparr>,
       if length (edited A p q B) > BOOK_DEPTH then Some (level_price (last (edited A p q B))) else None)"
    by (rule applyDelta_edit [OF assms(1)])
  define zs where "zs = edited A p q B"
  have srt: "sorted_wrt (better s) (map level_price zs)"
    using edited_sorted [OF _ A B] side_inv_sorted [OF assms(1)] by (simp add: zs_def AMB)
  have m: "map_of (map level_pair zs) = m"
    using edited_map [OF M A B, of q] by (simp add: zs_def m_def side_map_def AMB)
  have qs: "\<forall>l \<in> set zs. qty_ticks (level_quantity l) \<noteq> 0"
    using assms(1) by (auto simp: side_inv_def AMB zs_def edited_def)
  have len: "length zs \<le> Suc BOOK_DEPTH"
    using assms(1) by (auto simp: side_inv_def AMB zs_def edited_def)
  have s': "s' = s\<lparr>levels_of := take BOOK_DEPTH zs\<rparr>"
    and ev: "ev = (if length zs > BOOK_DEPTH then Some (level_price (last zs)) else None)"
    using d assms(2) by (auto simp: zs_def)
  show "side_of s' = side_of s" by (simp add: s')
  have "sorted_wrt (better s) (map level_price (take BOOK_DEPTH zs))"
    using srt by (simp add: take_map [symmetric] sorted_wrt_take)
  then show "side_inv s'"
    using qs by (auto simp: s' side_inv_def dest: in_set_takeD)
  show "ev = evict_spec (side_of s) m" "side_map s' = drop_evicted m ev"
    using truncated_levels [OF srt len] by (simp_all add: m ev s' side_map_def)
qed

lemma sizeAtPrice_eq:
  assumes "side_inv s"
  shows "sizeAtPrice s p = (case side_map s p of None \<Rightarrow> Quantity 0 | Some q \<Rightarrow> q)"
proof -
  obtain A B where
    AB: "levels_of s = A @ B" and pos: "level_position s p = length A"
    and A: "\<forall>a \<in> set A. better s (level_price a) p"
    and B: "(\<forall>b \<in> set B. better s p (level_price b))
       \<or> (\<exists>l B'. B = l # B' \<and> level_price l = p \<and> (\<forall>b \<in> set B'. better s p (level_price b)))"
    by (rule level_position_split [OF assms])
  have A': "map_of (map level_pair A) p = None" using A by (blast intro: map_of_levels_None)
  from B show ?thesis
  proof
    assume B1: "\<forall>b \<in> set B. better s p (level_price b)"
    then have "map_of (map level_pair B) p = None" by (blast intro: map_of_levels_None)
    moreover have "\<not> (length A < length (A @ B) \<and> level_price ((A @ B) ! length A) = p)"
      using B1 by (cases B) (auto simp: better_def)
    ultimately show ?thesis
      using A' by (auto simp: sizeAtPrice_def side_map_def AB pos Let_def map_add_def)
  next
    assume "\<exists>l B'. B = l # B' \<and> level_price l = p \<and> (\<forall>b \<in> set B'. better s p (level_price b))"
    then show ?thesis
      using A' by (auto simp: sizeAtPrice_def side_map_def AB pos Let_def map_add_def level_pair_def)
  qed
qed

lemma clear_props [simp]:
  "side_inv (clear s)" "side_map (clear s) = Map.empty" "side_of (clear s) = side_of s" "levels_of (clear s) = []"
  by (simp_all add: clear_def side_inv_def side_map_def)

lemma new_side_props [simp]:
  "side_inv (new_side b)" "side_map (new_side b) = Map.empty" "side_of (new_side b) = b" "levels_of (new_side b) = []"
  by (simp_all add: new_side_def side_inv_def side_map_def)

lemma book_inv_new [simp]: "book_inv new_book"
  by (simp add: book_inv_def new_book_def)

lemma depth_eq [simp]: "depth s n = take n (levels_of s)"
  by (simp add: depth_def min_def)

section \<open>The interface of a level store\<close>

text \<open>
  Feeding a list of level updates to a store, and what the feed announces: every update,
  followed by a removal (quantity zero) of the price it evicted, if any. This is the loop
  body that \<^verbatim>\<open>KrakenBookClient::applyMessage\<close> runs over each side of a message.
\<close>

fun feed_levels :: "('s \<Rightarrow> Price \<Rightarrow> Quantity \<Rightarrow> 's \<times> Price option) \<Rightarrow> 's \<Rightarrow> (Price \<times> Quantity) list
    \<Rightarrow> 's \<times> (Price \<times> Quantity) list" where
  "feed_levels f s [] = (s, [])"
| "feed_levels f s ((p, q) # us) =
     (let (s', ev) = f s p q; (s'', ds) = feed_levels f s' us
      in (s'', (p, q) # (case ev of None \<Rightarrow> [] | Some e \<Rightarrow> [(e, Quantity 0)]) @ ds))"

locale level_store =
  fixes upd :: "'s \<Rightarrow> Price \<Rightarrow> Quantity \<Rightarrow> 's \<times> Price option"
    and size_at :: "'s \<Rightarrow> Price \<Rightarrow> Quantity"
    and wipe :: "'s \<Rightarrow> 's"
    and invar :: "'s \<Rightarrow> bool"
    and lookup :: "'s \<Rightarrow> (Price \<rightharpoonup> Quantity)"
  assumes upd_invar: "invar s \<Longrightarrow> upd s p q = (s', ev) \<Longrightarrow> invar s'"
    and upd_lookup: "invar s \<Longrightarrow> upd s p q = (s', ev) \<Longrightarrow> lookup s' = drop_evicted (mirror_delta (lookup s) (p, q)) ev"
    and size_at_lookup: "invar s \<Longrightarrow> size_at s p = (case lookup s p of None \<Rightarrow> Quantity 0 | Some q \<Rightarrow> q)"
    and wipe_invar: "invar (wipe s)"
    and wipe_lookup: "lookup (wipe s) = Map.empty"
begin

lemma size_at_upd:
  assumes "invar s" and "upd s p q = (s', ev)"
  shows "size_at s' r = (if ev = Some r then Quantity 0 else if r = p then q else size_at s r)"
proof -
  have "invar s'" using assms by (rule upd_invar)
  moreover have "qty_ticks q = 0 \<Longrightarrow> q = Quantity 0" by (cases q) simp
  ultimately show ?thesis
    using assms
    by (auto simp: size_at_lookup upd_lookup drop_evicted_def mirror_delta_def split: option.splits)
qed

lemma upd_mirror:
  assumes "invar s" and "upd s p q = (s', ev)"
  shows "foldl mirror_delta (lookup s) ((p, q) # (case ev of None \<Rightarrow> [] | Some e \<Rightarrow> [(e, Quantity 0)])) = lookup s'"
  using upd_lookup [OF assms] by (auto simp: drop_evicted_def mirror_delta_def split: option.splits)

lemma feed_mirror:
  assumes "invar s" and "feed_levels upd s us = (s', ds)"
  shows "invar s' \<and> foldl mirror_delta (lookup s) ds = lookup s'"
  using assms
proof (induction us arbitrary: s s' ds)
  case Nil
  then show ?case by simp
next
  case (Cons u us)
  obtain p q where u: "u = (p, q)" by (cases u)
  obtain s1 ev where d: "upd s p q = (s1, ev)" by (cases "upd s p q")
  obtain s2 ds2 where f: "feed_levels upd s1 us = (s2, ds2)" by (cases "feed_levels upd s1 us")
  have ds: "s' = s2" "ds = ((p, q) # (case ev of None \<Rightarrow> [] | Some e \<Rightarrow> [(e, Quantity 0)])) @ ds2"
    using Cons.prems(2) by (auto simp: u d f)
  have "invar s1" using Cons.prems(1) d by (rule upd_invar)
  from Cons.IH [OF this f] show ?case
    unfolding ds foldl_append upd_mirror [OF Cons.prems(1) d] .
qed

end

interpretation book_side: level_store applyDelta sizeAtPrice clear side_inv side_map
  by unfold_locales (auto simp: sizeAtPrice_eq dest: applyDelta_correct)

lemma feed_levels_side_of: "feed_levels applyDelta s us = (s', ds) \<Longrightarrow> side_inv s \<Longrightarrow> side_of s' = side_of s"
proof (induction us arbitrary: s s' ds)
  case Nil
  then show ?case by simp
next
  case (Cons u us)
  obtain p q s1 ev where u: "u = (p, q)" and d: "applyDelta s p q = (s1, ev)"
    by (metis surj_pair)
  from Cons.prems obtain ds' where "feed_levels applyDelta s1 us = (s', ds')"
    by (auto simp: u d split: prod.splits)
  with Cons.IH applyDelta_correct(1,2) [OF Cons.prems(2) d] show ?case by metis
qed

section \<open>Properties\<close>

text \<open>
  C1 (refinement): one delta on the sorted vector implements the map specification. The
  side stays strictly best-first with at most \<open>BOOK_DEPTH\<close> non-empty levels; the map is
  updated at the price; when that leaves more than \<open>BOOK_DEPTH\<close> prices the worst one (the
  lowest bid, the highest ask) is removed and reported, and only then.
\<close>

theorem applyDelta_refines_map:
  assumes "side_inv s" and "applyDelta s p q = (s', ev)"
  shows "side_inv s' \<and> side_of s' = side_of s
    \<and> ev = evict_spec (side_of s) (mirror_delta (side_map s) (p, q))
    \<and> side_map s' = drop_evicted (mirror_delta (side_map s) (p, q)) ev"
  using applyDelta_correct [OF assms] by blast

definition demo_side :: OrderBookSide where
  "demo_side = \<lparr>side_of = Bid, levels_of =
     [\<lparr>level_price = Price 102, level_quantity = Quantity 5\<rparr>, \<lparr>level_price = Price 100, level_quantity = Quantity 7\<rparr>]\<rparr>"

definition demo_side' :: OrderBookSide where
  "demo_side' = \<lparr>side_of = Bid, levels_of =
     [\<lparr>level_price = Price 102, level_quantity = Quantity 5\<rparr>, \<lparr>level_price = Price 101, level_quantity = Quantity 9\<rparr>,
      \<lparr>level_price = Price 100, level_quantity = Quantity 7\<rparr>]\<rparr>"

lemma demo_side_inv: "side_inv demo_side"
  by (simp add: demo_side_def side_inv_def better_def less_Price_iff BOOK_DEPTH_def)

lemma demo_side_delta: "applyDelta demo_side (Price 101) (Quantity 9) = (demo_side', None)"
  by (simp add: demo_side_def demo_side'_def applyDelta_def level_position_def lower_bound_def
      lower_bound_from.simps better_def less_Price_iff BOOK_DEPTH_def)

theorem applyDelta_refines_map_witness:
  "side_inv demo_side \<and> applyDelta demo_side (Price 101) (Quantity 9) = (demo_side', None)
   \<and> side_inv demo_side' \<and> side_map demo_side' = (side_map demo_side)(Price 101 \<mapsto> Quantity 9)"
  using demo_side_inv demo_side_delta applyDelta_refines_map [OF demo_side_inv demo_side_delta]
  by (simp add: drop_evicted_def mirror_delta_def)

text \<open>
  After a delta the binary search of \<^verbatim>\<open>sizeAtPrice\<close> returns the new
  quantity at that price, zero at an evicted price, and what it returned before anywhere
  else.
\<close>

lemma sizeAtPrice_applyDelta:
  assumes "side_inv s" and "applyDelta s p q = (s', ev)"
  shows "sizeAtPrice s' r = (if ev = Some r then Quantity 0 else if r = p then q else sizeAtPrice s r)"
  using assms by (rule book_side.size_at_upd)

text \<open>
  \<^verbatim>\<open>top\<close> throws exactly on an empty side and otherwise returns the best
  price of the side together with its quantity.
\<close>

lemma top_is_best:
  assumes "side_inv s"
  shows "case top s of
      Inl e \<Rightarrow> e = Out_of_range ''OrderBookSide::top: side has no levels'' \<and> dom (side_map s) = {}
    | Inr l \<Rightarrow> side_map s (level_price l) = Some (level_quantity l)
        \<and> (\<forall>p \<in> dom (side_map s). p = level_price l \<or> better s (level_price l) p)"
proof (cases "levels_of s")
  case Nil
  then show ?thesis by (simp add: top_def dom_side_map)
next
  case (Cons l ls)
  have "side_map s (level_price l) = Some (level_quantity l)"
    by (simp add: side_map_def Cons level_pair_def)
  then show ?thesis
    using side_inv_sorted [OF assms] by (auto simp: top_def dom_side_map Cons)
qed

end
