(* ===== verification/Ring_Buffer.thy ===== *)
theory Ring_Buffer
  imports Wire_Layout Order_Book
begin

text \<open>
  The delta queue of a symbol slot, \<^verbatim>\<open>engine/include/engine/ipc/ring_buffer.hpp\<close>: the wire
  struct \<^verbatim>\<open>BookDelta\<close>, \<^verbatim>\<open>setSymbol\<close>, \<^verbatim>\<open>toWireSide\<close> and the lock-free
  \<^verbatim>\<open>BookDeltaRingBuffer\<close> with one producer and one consumer.

  The indices are 64-bit words that run on and wrap around; the array is a list of
  \<^verbatim>\<open>RING_BUFFER_CAPACITY\<close> entries. A bounded queue is specified as a locale and the ring
  buffer interprets it. A second model splits both operations at every access to shared
  memory and interleaves the two threads; an access is atomic and immediately visible
  (sequential consistency, which acquire/release gives for the one-way hand-over of a slot
  through an index).
\<close>

section \<open>Definitions\<close>

definition RING_BUFFER_CAPACITY :: u64 where "RING_BUFFER_CAPACITY = 4096"

record BookDelta =
  bd_symbol :: string
  bd_seq :: u64
  bd_engineTsNanos :: u64
  bd_side :: u8
  bd_price :: Price
  bd_size :: Quantity

definition BookDelta_members :: "(nat \<times> nat) list" where
  "BookDelta_members = [(16, 1), (8, 8), (8, 8), (1, 1), (8, 8), (8, 8)]"

definition zero_delta :: BookDelta where
  "zero_delta = \<lparr>bd_symbol = replicate SYMBOL_BYTES NUL, bd_seq = 0, bd_engineTsNanos = 0, bd_side = 0,
     bd_price = Price 0, bd_size = Quantity 0\<rparr>"

fun toWireSide :: "BookSide \<Rightarrow> u8" where
  "toWireSide Bid = 0"
| "toWireSide Ask = 1"

definition setSymbol :: "BookDelta \<Rightarrow> string \<Rightarrow> BookDelta result" where
  "setSymbol delta symbol =
     (if SYMBOL_BYTES \<le> length symbol
      then Inl (Invalid_argument ''BookDelta: symbol too long for fixed-width field'')
      else Inr (delta\<lparr>bd_symbol := memcpy_to (memset_zero (bd_symbol delta)) symbol\<rparr>))"

record RingBuffer =
  writeIndex :: u64
  readIndex :: u64
  droppedCount :: u64
  ring_slots :: "BookDelta list"

definition new_ring :: RingBuffer where
  "new_ring = \<lparr>writeIndex = 0, readIndex = 0, droppedCount = 0,
     ring_slots = replicate (unat RING_BUFFER_CAPACITY) zero_delta\<rparr>"

definition reset :: "RingBuffer \<Rightarrow> RingBuffer" where
  "reset rb = rb\<lparr>writeIndex := 0, readIndex := 0, droppedCount := 0\<rparr>"

definition slot_index :: "u64 \<Rightarrow> nat" where
  "slot_index i = unat (i mod RING_BUFFER_CAPACITY)"

definition tryPush :: "RingBuffer \<Rightarrow> BookDelta \<Rightarrow> RingBuffer \<times> bool" where
  "tryPush rb item =
     (let w = writeIndex rb; r = readIndex rb
      in if w - r \<ge> RING_BUFFER_CAPACITY
         then (rb\<lparr>droppedCount := droppedCount rb + 1\<rparr>, False)
         else let rb1 = rb\<lparr>ring_slots := (ring_slots rb)[slot_index w := item]\<rparr>
              in (rb1\<lparr>writeIndex := w + 1\<rparr>, True))"

text \<open>\<^verbatim>\<open>tryPop\<close> returns the copied item, or nothing where the code returns \<^verbatim>\<open>false\<close>.\<close>

definition tryPop :: "RingBuffer \<Rightarrow> RingBuffer \<times> BookDelta option" where
  "tryPop rb =
     (let r = readIndex rb; w = writeIndex rb
      in if r = w then (rb, None)
         else let item = ring_slots rb ! slot_index r
              in (rb\<lparr>readIndex := r + 1\<rparr>, Some item))"

text \<open>The layout of the buffer and the offset that the code asserts.\<close>

definition RingBuffer_members :: "(nat \<times> nat) list" where
  "RingBuffer_members = [(8, 8), (8, 8), (8, 8), (struct_size BookDelta_members * unat RING_BUFFER_CAPACITY, 8)]"

definition writeIndexOffset :: nat where "writeIndexOffset = struct_offsets RingBuffer_members ! 0"

section \<open>Specification: a bounded queue\<close>

datatype 'a queue_call = Push 'a | Pop

text \<open>
  The reference queue is a list with a capacity: a push is refused exactly when the list is
  full, a pop takes the head. The caller of either queue sees the answer of every call.
\<close>

definition fifo_push :: "nat \<Rightarrow> 'a list \<Rightarrow> 'a \<Rightarrow> 'a list \<times> bool" where
  "fifo_push capacity xs x = (if length xs < capacity then (xs @ [x], True) else (xs, False))"

fun fifo_pop :: "'a list \<Rightarrow> 'a list \<times> 'a option" where
  "fifo_pop [] = ([], None)"
| "fifo_pop (x # xs) = (xs, Some x)"

datatype 'a queue_answer = Pushed bool | Popped "'a option"

fun queue_run :: "('q \<Rightarrow> 'a \<Rightarrow> 'q \<times> bool) \<Rightarrow> ('q \<Rightarrow> 'q \<times> 'a option) \<Rightarrow> 'q \<Rightarrow> 'a queue_call list
    \<Rightarrow> 'q \<times> 'a queue_answer list" where
  "queue_run push pop q [] = (q, [])"
| "queue_run push pop q (Push x # cs) =
     (let (q1, ok) = push q x; (q2, answers) = queue_run push pop q1 cs in (q2, Pushed ok # answers))"
| "queue_run push pop q (Pop # cs) =
     (let (q1, out) = pop q; (q2, answers) = queue_run push pop q1 cs in (q2, Popped out # answers))"

locale bounded_queue =
  fixes push :: "'q \<Rightarrow> 'a \<Rightarrow> 'q \<times> bool" and pop :: "'q \<Rightarrow> 'q \<times> 'a option"
    and items :: "'q \<Rightarrow> 'a list" and inv :: "'q \<Rightarrow> bool" and capacity :: nat
  assumes inv_bound: "inv q \<Longrightarrow> length (items q) \<le> capacity"
    and push_law: "inv q \<Longrightarrow> push q x = (q', ok) \<Longrightarrow>
      inv q' \<and> ok = (length (items q) < capacity) \<and> items q' = (if ok then items q @ [x] else items q)"
    and pop_law: "inv q \<Longrightarrow> pop q = (q', out) \<Longrightarrow>
      inv q' \<and> (case out of None \<Rightarrow> items q = [] \<and> items q' = [] | Some x \<Rightarrow> items q = x # items q')"
begin

lemma push_simulates: "inv q \<Longrightarrow> push q x = (q', ok) \<Longrightarrow> inv q' \<and> fifo_push capacity (items q) x = (items q', ok)"
  using push_law [of q x q' ok] by (auto simp: fifo_push_def)

lemma pop_simulates: "inv q \<Longrightarrow> pop q = (q', out) \<Longrightarrow> inv q' \<and> fifo_pop (items q) = (items q', out)"
  using pop_law [of q q' out] by (cases out) auto

lemma run_simulates:
  "inv q \<Longrightarrow> queue_run push pop q cs = (q', answers) \<Longrightarrow>
     inv q' \<and> queue_run (fifo_push capacity) fifo_pop (items q) cs = (items q', answers)"
proof (induction cs arbitrary: q answers)
  case Nil
  then show ?case by simp
next
  case (Cons c cs)
  show ?case
  proof (cases c)
    case (Push x)
    obtain q1 ok where p: "push q x = (q1, ok)" by (rule prod.exhaust)
    obtain rest where r: "queue_run push pop q1 cs = (q', rest)" and a: "answers = Pushed ok # rest"
      using Cons.prems(2) Push p by (auto split: prod.splits)
    have l: "inv q1" "fifo_push capacity (items q) x = (items q1, ok)" using push_simulates [OF Cons.prems(1) p] by auto
    then show ?thesis using Cons.IH [OF l(1) r] a Push by simp
  next
    case Pop
    obtain q1 out where p: "pop q = (q1, out)" by (rule prod.exhaust)
    obtain rest where r: "queue_run push pop q1 cs = (q', rest)" and a: "answers = Popped out # rest"
      using Cons.prems(2) Pop p by (auto split: prod.splits)
    have l: "inv q1" "fifo_pop (items q) = (items q1, out)" using pop_simulates [OF Cons.prems(1) p] by auto
    then show ?thesis using Cons.IH [OF l(1) r] a Pop by simp
  qed
qed

text \<open>Nothing is refused while no more than the capacity is outstanding.\<close>

lemma push_accepts: "inv q \<Longrightarrow> length (items q) < capacity \<Longrightarrow> snd (push q x)"
  using push_law [of q x] by (cases "push q x") auto

end

section \<open>Lemmas: index arithmetic\<close>

definition ring_items :: "RingBuffer \<Rightarrow> BookDelta list" where
  "ring_items rb = map (\<lambda>i. ring_slots rb ! slot_index (readIndex rb + of_nat i))
     [0..<unat (writeIndex rb - readIndex rb)]"

definition ring_inv :: "RingBuffer \<Rightarrow> bool" where
  "ring_inv rb \<longleftrightarrow> length (ring_slots rb) = unat RING_BUFFER_CAPACITY
     \<and> unat (writeIndex rb - readIndex rb) \<le> unat RING_BUFFER_CAPACITY"

lemma capacity_nat [simp]: "unat RING_BUFFER_CAPACITY = 4096"
  by (simp add: RING_BUFFER_CAPACITY_def)

lemma slot_index_bound [simp]: "slot_index i < 4096"
  by (simp add: slot_index_def unat_mod)

text \<open>The capacity divides \<open>2 ^ 64\<close>, so slots stay consecutive across the wrap of the indices.\<close>

lemma slot_index_add: "slot_index (r + of_nat i) = (slot_index r + i) mod 4096"
proof -
  have "unat (r + of_nat i) mod 4096 = (unat r + i) mod 4096"
    by (simp add: unat_word_ariths unat_of_nat mod_mod_cancel mod_add_right_eq)
  then show ?thesis by (simp add: slot_index_def unat_mod mod_add_left_eq)
qed

lemma slot_index_distinct:
  assumes "i < 4096" and "j < 4096" and "slot_index (r + of_nat i) = slot_index (r + of_nat j)"
  shows "i = j"
proof -
  have "int ((slot_index r + i) mod 4096) = int ((slot_index r + j) mod 4096)"
    using assms(3) by (simp only: slot_index_add)
  then have "(int (slot_index r) + int i) mod 4096 = (int (slot_index r) + int j) mod 4096"
    by (simp add: zmod_int)
  then have "(int (slot_index r) + int i - int (slot_index r)) mod 4096 = (int (slot_index r) + int j - int (slot_index r)) mod 4096"
    by (rule mod_diff_cong) simp
  then show ?thesis using assms(1,2) by simp
qed

lemma distance_0 [simp]: "unat ((w :: u64) - r) = 0 \<longleftrightarrow> w = r"
  by (simp add: unat_eq_zero)

lemma distance_push: "unat ((w :: u64) - r) < 4096 \<Longrightarrow> unat (w + 1 - r) = Suc (unat (w - r))"
proof -
  assume "unat (w - r) < 4096"
  then have "unat (w - r) + 1 < 2 ^ 64" by simp
  then have "unat ((w - r) + 1) = unat (w - r) + 1" using unat_word_ariths(1) [of "w - r" 1] by simp
  then show ?thesis by (simp add: algebra_simps)
qed

lemma distance_pop: "(w :: u64) \<noteq> r \<Longrightarrow> Suc (unat (w - (r + 1))) = unat (w - r)"
proof -
  assume "w \<noteq> r"
  then have "unat (w - r - 1) = unat (w - r) - 1" by (intro unat_minus_one) simp
  moreover have "0 < unat (w - r)" using \<open>w \<noteq> r\<close> by (simp add: unat_gt_0)
  ultimately show ?thesis by (simp add: algebra_simps)
qed

lemma length_ring_items [simp]: "length (ring_items rb) = unat (writeIndex rb - readIndex rb)"
  by (simp add: ring_items_def)

lemma full_iff: "RING_BUFFER_CAPACITY \<le> (w :: u64) - r \<longleftrightarrow> 4096 \<le> unat (w - r)"
  by (simp add: word_le_nat_alt)

lemma ring_items_store:
  assumes "ring_inv rb" and "unat (writeIndex rb - readIndex rb) < 4096"
  shows "ring_items (rb\<lparr>ring_slots := (ring_slots rb)[slot_index (writeIndex rb) := item]\<rparr>) = ring_items rb"
proof (rule nth_equalityI)
  fix i assume "i < length (ring_items (rb\<lparr>ring_slots := (ring_slots rb)[slot_index (writeIndex rb) := item]\<rparr>))"
  then have i: "i < unat (writeIndex rb - readIndex rb)" by simp
  have "slot_index (readIndex rb + of_nat i) \<noteq> slot_index (writeIndex rb)"
    using slot_index_distinct [of i "unat (writeIndex rb - readIndex rb)" "readIndex rb"] i assms(2) by auto
  then show "ring_items (rb\<lparr>ring_slots := (ring_slots rb)[slot_index (writeIndex rb) := item]\<rparr>) ! i = ring_items rb ! i"
    using i by (simp add: ring_items_def)
qed simp

lemma ring_items_publish:
  assumes "unat (writeIndex rb - readIndex rb) < 4096" and "w = writeIndex rb + 1"
  shows "ring_items (rb\<lparr>writeIndex := w\<rparr>) = ring_items rb @ [ring_slots rb ! slot_index (writeIndex rb)]"
  using distance_push [OF assms(1)] by (simp add: ring_items_def assms(2))

lemma ring_items_consume:
  assumes "readIndex rb \<noteq> writeIndex rb" and "r = readIndex rb + 1"
  shows "ring_items rb = ring_slots rb ! slot_index (readIndex rb) # ring_items (rb\<lparr>readIndex := r\<rparr>)"
proof -
  let ?n = "unat (writeIndex rb - r)"
  have "Suc ?n = unat (writeIndex rb - readIndex rb)" using distance_pop [of "writeIndex rb" "readIndex rb"] assms by simp
  then have "ring_items rb = map (\<lambda>i. ring_slots rb ! slot_index (readIndex rb + of_nat i)) [0..<Suc ?n]"
    by (simp add: ring_items_def)
  also have "\<dots> = ring_slots rb ! slot_index (readIndex rb) # ring_items (rb\<lparr>readIndex := r\<rparr>)"
    unfolding upt_conv_Cons [OF zero_less_Suc] map_Suc_upt [symmetric] by (simp add: ring_items_def assms(2) ac_simps)
  finally show ?thesis .
qed

lemma tryPush_law:
  assumes inv: "ring_inv rb" and p: "tryPush rb item = (rb', ok)"
  shows "ring_inv rb' \<and> ok = (length (ring_items rb) < 4096) \<and> ring_items rb' = (if ok then ring_items rb @ [item] else ring_items rb)"
proof (cases "unat (writeIndex rb - readIndex rb) < 4096")
  case False
  then have "rb' = rb\<lparr>droppedCount := droppedCount rb + 1\<rparr>" "\<not> ok"
    using p by (auto simp: tryPush_def full_iff Let_def)
  then show ?thesis using inv False by (simp add: ring_inv_def ring_items_def)
next
  case True
  let ?rb1 = "rb\<lparr>ring_slots := (ring_slots rb)[slot_index (writeIndex rb) := item]\<rparr>"
  have rb': "rb' = ?rb1\<lparr>writeIndex := writeIndex rb + 1\<rparr>" "ok"
    using p True by (auto simp: tryPush_def full_iff Let_def)
  have "ring_items rb' = ring_items ?rb1 @ [ring_slots ?rb1 ! slot_index (writeIndex rb)]"
    using ring_items_publish [of ?rb1] True by (simp add: rb')
  also have "ring_items ?rb1 = ring_items rb" using inv True by (rule ring_items_store)
  finally show ?thesis
    using inv True rb' distance_push [OF True] by (simp add: ring_inv_def)
qed

lemma tryPop_law:
  assumes inv: "ring_inv rb" and p: "tryPop rb = (rb', out)"
  shows "ring_inv rb' \<and> (case out of None \<Rightarrow> ring_items rb = [] \<and> ring_items rb' = []
    | Some x \<Rightarrow> ring_items rb = x # ring_items rb')"
proof (cases "readIndex rb = writeIndex rb")
  case True
  then show ?thesis using inv p by (auto simp: tryPop_def Let_def ring_items_def)
next
  case False
  have rb': "rb' = rb\<lparr>readIndex := readIndex rb + 1\<rparr>" "out = Some (ring_slots rb ! slot_index (readIndex rb))"
    using p False by (auto simp: tryPop_def Let_def)
  have "Suc (unat (writeIndex rb - readIndex rb')) = unat (writeIndex rb - readIndex rb)"
    using distance_pop [of "writeIndex rb" "readIndex rb"] False by (simp add: rb')
  then show ?thesis using inv ring_items_consume [OF False] by (simp add: ring_inv_def rb')
qed

interpretation delta_queue: bounded_queue tryPush tryPop ring_items ring_inv 4096
proof unfold_locales
  show "length (ring_items rb) \<le> 4096" if "ring_inv rb" for rb using that by (simp add: ring_inv_def)
qed (blast dest: tryPush_law tryPop_law)+

interpretation delta_symbol: symbol_field bd_symbol setSymbol
  "''BookDelta: symbol too long for fixed-width field''"
  by unfold_locales (auto simp: setSymbol_def memcpy_memset)

lemma ring_inv_new [simp]: "ring_inv new_ring" and ring_items_new [simp]: "ring_items new_ring = []"
  by (simp_all add: ring_inv_def ring_items_def new_ring_def)

lemma ring_inv_reset [simp]: "ring_inv rb \<Longrightarrow> ring_inv (reset rb)" and ring_items_reset [simp]: "ring_items (reset rb) = []"
  by (simp_all add: ring_inv_def ring_items_def reset_def)

section \<open>Two threads\<close>

text \<open>
  The producer inside \<^verbatim>\<open>tryPush\<close> and the consumer inside \<^verbatim>\<open>tryPop\<close>: what each has loaded
  so far. Every step is one access to shared memory.
\<close>

datatype Producer = P_Idle | P_LoadedW BookDelta u64 | P_Loaded BookDelta u64 u64 | P_Written BookDelta u64

datatype Consumer = C_Idle | C_LoadedR u64 | C_Loaded u64 u64 | C_Copied u64 BookDelta

record spsc =
  sp_ring :: RingBuffer
  sp_producer :: Producer
  sp_consumer :: Consumer
  sp_pushed :: "BookDelta list"
  sp_popped :: "BookDelta list"

definition spsc_start :: spsc where
  "spsc_start = \<lparr>sp_ring = new_ring, sp_producer = P_Idle, sp_consumer = C_Idle, sp_pushed = [], sp_popped = []\<rparr>"

inductive spsc_step :: "spsc \<Rightarrow> spsc \<Rightarrow> bool" where
  push_begin: "sp_producer s = P_Idle \<Longrightarrow>
     spsc_step s (s\<lparr>sp_producer := P_LoadedW item (writeIndex (sp_ring s))\<rparr>)"
| push_acquire: "sp_producer s = P_LoadedW item w \<Longrightarrow>
     spsc_step s (s\<lparr>sp_producer := P_Loaded item w (readIndex (sp_ring s))\<rparr>)"
| push_full: "sp_producer s = P_Loaded item w r \<Longrightarrow> w - r \<ge> RING_BUFFER_CAPACITY \<Longrightarrow>
     spsc_step s (s\<lparr>sp_producer := P_Idle, sp_ring := (sp_ring s)\<lparr>droppedCount := droppedCount (sp_ring s) + 1\<rparr>\<rparr>)"
| push_store: "sp_producer s = P_Loaded item w r \<Longrightarrow> \<not> w - r \<ge> RING_BUFFER_CAPACITY \<Longrightarrow>
     spsc_step s (s\<lparr>sp_producer := P_Written item w,
       sp_ring := (sp_ring s)\<lparr>ring_slots := (ring_slots (sp_ring s))[slot_index w := item]\<rparr>\<rparr>)"
| push_publish: "sp_producer s = P_Written item w \<Longrightarrow>
     spsc_step s (s\<lparr>sp_producer := P_Idle, sp_ring := (sp_ring s)\<lparr>writeIndex := w + 1\<rparr>,
       sp_pushed := sp_pushed s @ [item]\<rparr>)"
| pop_begin: "sp_consumer s = C_Idle \<Longrightarrow>
     spsc_step s (s\<lparr>sp_consumer := C_LoadedR (readIndex (sp_ring s))\<rparr>)"
| pop_acquire: "sp_consumer s = C_LoadedR r \<Longrightarrow>
     spsc_step s (s\<lparr>sp_consumer := C_Loaded r (writeIndex (sp_ring s))\<rparr>)"
| pop_empty: "sp_consumer s = C_Loaded r w \<Longrightarrow> r = w \<Longrightarrow>
     spsc_step s (s\<lparr>sp_consumer := C_Idle\<rparr>)"
| pop_copy: "sp_consumer s = C_Loaded r w \<Longrightarrow> r \<noteq> w \<Longrightarrow>
     spsc_step s (s\<lparr>sp_consumer := C_Copied r (ring_slots (sp_ring s) ! slot_index r)\<rparr>)"
| pop_publish: "sp_consumer s = C_Copied r item \<Longrightarrow>
     spsc_step s (s\<lparr>sp_consumer := C_Idle, sp_ring := (sp_ring s)\<lparr>readIndex := r + 1\<rparr>,
       sp_popped := sp_popped s @ [item]\<rparr>)"

text \<open>What a thread has loaded is current for the index it owns and stale on the safe side for the other.\<close>

fun producer_ok :: "RingBuffer \<Rightarrow> Producer \<Rightarrow> bool" where
  "producer_ok rb P_Idle \<longleftrightarrow> True"
| "producer_ok rb (P_LoadedW item w) \<longleftrightarrow> w = writeIndex rb"
| "producer_ok rb (P_Loaded item w r) \<longleftrightarrow> w = writeIndex rb \<and> unat (w - readIndex rb) \<le> unat (w - r)"
| "producer_ok rb (P_Written item w) \<longleftrightarrow> w = writeIndex rb \<and> unat (w - readIndex rb) < 4096
     \<and> ring_slots rb ! slot_index w = item"

fun consumer_ok :: "RingBuffer \<Rightarrow> Consumer \<Rightarrow> bool" where
  "consumer_ok rb C_Idle \<longleftrightarrow> True"
| "consumer_ok rb (C_LoadedR r) \<longleftrightarrow> r = readIndex rb"
| "consumer_ok rb (C_Loaded r w) \<longleftrightarrow> r = readIndex rb \<and> unat (w - r) \<le> unat (writeIndex rb - r)"
| "consumer_ok rb (C_Copied r item) \<longleftrightarrow> r = readIndex rb \<and> r \<noteq> writeIndex rb \<and> ring_slots rb ! slot_index r = item"

definition spsc_inv :: "spsc \<Rightarrow> bool" where
  "spsc_inv s \<longleftrightarrow> ring_inv (sp_ring s) \<and> producer_ok (sp_ring s) (sp_producer s) \<and> consumer_ok (sp_ring s) (sp_consumer s)
     \<and> sp_pushed s = sp_popped s @ ring_items (sp_ring s)"

lemma store_keeps_unread:
  assumes "unat (w - r) < 4096" and "r \<noteq> w"
  shows "slot_index w \<noteq> slot_index r"
  using slot_index_distinct [of 0 "unat (w - r)" r] assms by auto

lemma consumer_ok_store:
  assumes "consumer_ok rb c" and "unat (writeIndex rb - readIndex rb) < 4096"
  shows "consumer_ok (rb\<lparr>ring_slots := (ring_slots rb)[slot_index (writeIndex rb) := item]\<rparr>) c"
  using assms store_keeps_unread [OF assms(2)] by (cases c) auto

lemma consumer_ok_publish:
  assumes "consumer_ok rb c" and "unat (writeIndex rb - readIndex rb) < 4096"
  shows "consumer_ok (rb\<lparr>writeIndex := writeIndex rb + 1\<rparr>) c"
proof -
  have d: "unat (writeIndex rb + 1 - readIndex rb) = Suc (unat (writeIndex rb - readIndex rb))"
    using assms(2) by (rule distance_push)
  then have "readIndex rb \<noteq> writeIndex rb + 1" by (metis diff_self nat.distinct(1) unat_0)
  with assms d show ?thesis by (cases c) auto
qed

lemma producer_ok_consume:
  assumes "producer_ok rb p" and "readIndex rb \<noteq> writeIndex rb"
  shows "producer_ok (rb\<lparr>readIndex := readIndex rb + 1\<rparr>) p"
  using assms distance_pop [of "writeIndex rb" "readIndex rb"] by (cases p) auto

lemma spsc_inv_start: "spsc_inv spsc_start"
  by (simp add: spsc_inv_def spsc_start_def)

lemma spsc_inv_step:
  assumes "spsc_step s t" and "spsc_inv s"
  shows "spsc_inv t"
  using assms
proof (induction rule: spsc_step.induct)
  case (push_full s item w r)
  have "producer_ok rb p \<Longrightarrow> producer_ok (rb\<lparr>droppedCount := d\<rparr>) p"
    "consumer_ok rb c = consumer_ok (rb\<lparr>droppedCount := d\<rparr>) c" for rb p c d
    by (cases p; simp) (cases c; simp)
  with push_full show ?case by (simp add: spsc_inv_def ring_inv_def ring_items_def)
next
  case (push_store s item w r)
  then have w: "w = writeIndex (sp_ring s)" and room: "unat (writeIndex (sp_ring s) - readIndex (sp_ring s)) < 4096"
    by (auto simp: spsc_inv_def full_iff)
  with push_store consumer_ok_store [OF _ room] ring_items_store [OF _ room] show ?case
    by (simp add: spsc_inv_def ring_inv_def)
next
  case (push_publish s item w)
  then have w: "w = writeIndex (sp_ring s)" and room: "unat (writeIndex (sp_ring s) - readIndex (sp_ring s)) < 4096"
    by (auto simp: spsc_inv_def)
  with push_publish consumer_ok_publish [OF _ room] ring_items_publish [OF room] distance_push [OF room] show ?case
    by (simp add: spsc_inv_def ring_inv_def)
next
  case (pop_publish s r item)
  then have r: "r = readIndex (sp_ring s)" and ne: "readIndex (sp_ring s) \<noteq> writeIndex (sp_ring s)"
    by (auto simp: spsc_inv_def)
  with pop_publish producer_ok_consume [OF _ ne] ring_items_consume [OF ne] distance_pop [OF ne [symmetric]] show ?case
    by (simp add: spsc_inv_def ring_inv_def)
qed (auto simp: spsc_inv_def)

lemma spsc_reachable_inv: "rtranclp spsc_step spsc_start s \<Longrightarrow> spsc_inv s"
  by (induction rule: rtranclp_induct) (auto intro: spsc_inv_start spsc_inv_step)

text \<open>A call that is not interrupted is the sequential operation.\<close>

lemma push_uninterrupted:
  assumes "sp_producer s = P_Idle" and "tryPush (sp_ring s) item = (rb', ok)"
  shows "rtranclp spsc_step s (s\<lparr>sp_producer := P_Idle, sp_ring := rb', sp_pushed := sp_pushed s @ (if ok then [item] else [])\<rparr>)"
proof -
  let ?w = "writeIndex (sp_ring s)" and ?r = "readIndex (sp_ring s)"
  let ?s1 = "s\<lparr>sp_producer := P_LoadedW item ?w\<rparr>" and ?s2 = "s\<lparr>sp_producer := P_Loaded item ?w ?r\<rparr>"
  have 1: "spsc_step s ?s1" using assms(1) by (rule spsc_step.push_begin)
  have 2: "spsc_step ?s1 ?s2" using spsc_step.push_acquire [of ?s1 item ?w] by simp
  show ?thesis
  proof (cases "RING_BUFFER_CAPACITY \<le> ?w - ?r")
    case True
    then have "spsc_step ?s2 (s\<lparr>sp_producer := P_Idle, sp_ring := rb', sp_pushed := sp_pushed s @ (if ok then [item] else [])\<rparr>)"
      using spsc_step.push_full [of ?s2 item ?w ?r] assms by (auto simp: tryPush_def Let_def)
    with 1 2 show ?thesis by (meson converse_rtranclp_into_rtranclp r_into_rtranclp)
  next
    case False
    let ?rb1 = "(sp_ring s)\<lparr>ring_slots := (ring_slots (sp_ring s))[slot_index ?w := item]\<rparr>"
    let ?s3 = "s\<lparr>sp_producer := P_Written item ?w, sp_ring := ?rb1\<rparr>"
    have 3: "spsc_step ?s2 ?s3" using spsc_step.push_store [of ?s2 item ?w ?r] False by simp
    have "spsc_step ?s3 (s\<lparr>sp_producer := P_Idle, sp_ring := rb', sp_pushed := sp_pushed s @ (if ok then [item] else [])\<rparr>)"
      using spsc_step.push_publish [of ?s3 item ?w] assms False by (auto simp: tryPush_def Let_def)
    with 1 2 3 show ?thesis by (meson converse_rtranclp_into_rtranclp r_into_rtranclp)
  qed
qed

lemma pop_uninterrupted:
  assumes "sp_consumer s = C_Idle" and "tryPop (sp_ring s) = (rb', out)"
  shows "rtranclp spsc_step s (s\<lparr>sp_consumer := C_Idle, sp_ring := rb',
    sp_popped := sp_popped s @ (case out of None \<Rightarrow> [] | Some x \<Rightarrow> [x])\<rparr>)" (is "rtranclp _ _ ?t")
proof -
  let ?w = "writeIndex (sp_ring s)" and ?r = "readIndex (sp_ring s)"
  let ?s1 = "s\<lparr>sp_consumer := C_LoadedR ?r\<rparr>" and ?s2 = "s\<lparr>sp_consumer := C_Loaded ?r ?w\<rparr>"
  have 1: "spsc_step s ?s1" using assms(1) by (rule spsc_step.pop_begin)
  have 2: "spsc_step ?s1 ?s2" using spsc_step.pop_acquire [of ?s1 ?r] by simp
  show ?thesis
  proof (cases "?r = ?w")
    case True
    then have "spsc_step ?s2 ?t"
      using spsc_step.pop_empty [of ?s2 ?r ?w] assms by (auto simp: tryPop_def Let_def)
    with 1 2 show ?thesis by (meson converse_rtranclp_into_rtranclp r_into_rtranclp)
  next
    case False
    let ?s3 = "s\<lparr>sp_consumer := C_Copied ?r (ring_slots (sp_ring s) ! slot_index ?r)\<rparr>"
    have 3: "spsc_step ?s2 ?s3" using spsc_step.pop_copy [of ?s2 ?r ?w] False by simp
    have "spsc_step ?s3 ?t"
      using spsc_step.pop_publish [of ?s3 ?r] assms False by (auto simp: tryPop_def Let_def)
    with 1 2 3 show ?thesis by (meson converse_rtranclp_into_rtranclp r_into_rtranclp)
  qed
qed

section \<open>Properties\<close>

lemma push_count:
  assumes "ring_inv rb" and "tryPush rb item = (rb', ok)"
  shows "droppedCount rb' = droppedCount rb + (if ok then 0 else 1)"
  using assms(2) by (auto simp: tryPush_def Let_def split: if_splits)

lemma pop_count: "tryPop rb = (rb', out) \<Longrightarrow> droppedCount rb' = droppedCount rb"
  by (auto simp: tryPop_def Let_def split: if_splits)

lemma run_count:
  "ring_inv rb \<Longrightarrow> queue_run tryPush tryPop rb calls = (rb', answers) \<Longrightarrow>
     droppedCount rb' = droppedCount rb + of_nat (count_list answers (Pushed False))"
proof (induction calls arbitrary: rb answers)
  case (Cons c calls)
  show ?case
  proof (cases c)
    case (Push item)
    obtain rb1 ok where p: "tryPush rb item = (rb1, ok)" by (rule prod.exhaust)
    obtain rest where r: "queue_run tryPush tryPop rb1 calls = (rb', rest)" and a: "answers = Pushed ok # rest"
      using Cons.prems(2) Push p by (auto split: prod.splits)
    have i: "ring_inv rb1" using delta_queue.push_simulates [OF Cons.prems(1) p] by blast
    show ?thesis using Cons.IH [OF i r] push_count [OF Cons.prems(1) p] a by (cases ok) (simp_all add: add.assoc)
  next
    case Pop
    obtain rb1 out where p: "tryPop rb = (rb1, out)" by (rule prod.exhaust)
    obtain rest where r: "queue_run tryPush tryPop rb1 calls = (rb', rest)" and a: "answers = Popped out # rest"
      using Cons.prems(2) Pop p by (auto split: prod.splits)
    have i: "ring_inv rb1" using delta_queue.pop_simulates [OF Cons.prems(1) p] by blast
    show ?thesis using Cons.IH [OF i r] pop_count [OF p] a by simp
  qed
qed simp

text \<open>
  C12 (refinement): a ring buffer is a bounded first-in first-out queue, across any number of
  wrap-arounds of its 64-bit indices. For a buffer whose indices are at most 4096 apart (a new
  buffer is one, and every call keeps it so) and every sequence of \<^verbatim>\<open>tryPush\<close> and
  \<^verbatim>\<open>tryPop\<close> calls, each call is answered exactly as by a list of capacity 4096: a
  push is accepted exactly when fewer than 4096 items are stored, a pop returns the oldest item
  and fails exactly when none is stored; the items stored at the end are those of the list, and
  the drop counter has grown by the number of refused pushes (modulo \<open>2^64\<close>).
\<close>

theorem ring_buffer_fifo:
  assumes "ring_inv rb" and "queue_run tryPush tryPop rb calls = (rb', answers)"
  shows "ring_inv rb' \<and> queue_run (fifo_push 4096) fifo_pop (ring_items rb) calls = (ring_items rb', answers)
    \<and> droppedCount rb' = droppedCount rb + of_nat (count_list answers (Pushed False))"
  using delta_queue.run_simulates [OF assms] run_count [OF assms] by blast

definition demo_delta :: "nat \<Rightarrow> BookDelta" where
  "demo_delta k = zero_delta\<lparr>bd_seq := of_nat k\<rparr>"

definition demo_wrapped :: RingBuffer where
  "demo_wrapped = new_ring\<lparr>writeIndex := - 1, readIndex := - 1\<rparr>"

lemma demo_wrapped_inv: "ring_inv demo_wrapped" and demo_wrapped_items: "ring_items demo_wrapped = []"
  by (simp_all add: demo_wrapped_def ring_inv_def new_ring_def ring_items_def)

theorem ring_buffer_fifo_witness:
  "\<exists>rb'. queue_run tryPush tryPop demo_wrapped [Push (demo_delta 1), Push (demo_delta 2), Pop, Pop, Pop] =
     (rb', [Pushed True, Pushed True, Popped (Some (demo_delta 1)), Popped (Some (demo_delta 2)), Popped None])
     \<and> ring_items rb' = []"
proof -
  obtain rb' answers where
    r: "queue_run tryPush tryPop demo_wrapped [Push (demo_delta 1), Push (demo_delta 2), Pop, Pop, Pop] = (rb', answers)"
    by (rule prod.exhaust)
  show ?thesis unfolding r using ring_buffer_fifo [OF demo_wrapped_inv r] by (simp add: demo_wrapped_items fifo_push_def)
qed

text \<open>
  \<^verbatim>\<open>tryPush\<close> stores the item exactly when fewer than 4096 items are
  outstanding; otherwise it returns \<^verbatim>\<open>false\<close>, leaves every stored item in place and counts
  the drop. \<^verbatim>\<open>tryPop\<close> returns the oldest item and fails exactly on an empty buffer.
\<close>

lemma push_pop_behaviour:
  assumes "ring_inv rb"
  shows "(case tryPush rb item of (rb', ok) \<Rightarrow> ring_inv rb' \<and>
      (if length (ring_items rb) < 4096
       then ok \<and> ring_items rb' = ring_items rb @ [item] \<and> droppedCount rb' = droppedCount rb
       else \<not> ok \<and> ring_items rb' = ring_items rb \<and> droppedCount rb' = droppedCount rb + 1))
    \<and> (case tryPop rb of (rb', out) \<Rightarrow> ring_inv rb' \<and>
      (case ring_items rb of [] \<Rightarrow> out = None \<and> rb' = rb | x # xs \<Rightarrow> out = Some x \<and> ring_items rb' = xs))"
proof (intro conjI)
  obtain rb1 ok where p: "tryPush rb item = (rb1, ok)" by (rule prod.exhaust)
  have "droppedCount rb1 = (if length (ring_items rb) < 4096 then droppedCount rb else droppedCount rb + 1)"
    using p by (auto simp: tryPush_def Let_def full_iff split: if_splits)
  then show "case tryPush rb item of (rb', ok) \<Rightarrow> ring_inv rb' \<and>
      (if length (ring_items rb) < 4096
       then ok \<and> ring_items rb' = ring_items rb @ [item] \<and> droppedCount rb' = droppedCount rb
       else \<not> ok \<and> ring_items rb' = ring_items rb \<and> droppedCount rb' = droppedCount rb + 1)"
    using tryPush_law [OF assms p] by (auto simp: p)
next
  obtain rb2 out where q: "tryPop rb = (rb2, out)" by (rule prod.exhaust)
  have "out = None \<Longrightarrow> rb2 = rb" using q by (auto simp: tryPop_def Let_def split: if_splits)
  then show "case tryPop rb of (rb', out) \<Rightarrow> ring_inv rb' \<and>
      (case ring_items rb of [] \<Rightarrow> out = None \<and> rb' = rb | x # xs \<Rightarrow> out = Some x \<and> ring_items rb' = xs)"
    using tryPop_law [OF assms q] by (auto simp: q split: option.splits list.splits)
qed

text \<open>
  C8 (safety): with the producer in \<^verbatim>\<open>tryPush\<close> and the consumer in \<^verbatim>\<open>tryPop\<close> interleaved at
  every shared access, what has been popped is always a prefix of what has been pushed, the
  rest is what the buffer holds, and at most 4096 items are held: nothing is lost,
  duplicated or reordered.
\<close>

theorem spsc_delivers_in_order:
  assumes "rtranclp spsc_step spsc_start s"
  shows "sp_pushed s = sp_popped s @ ring_items (sp_ring s) \<and> length (ring_items (sp_ring s)) \<le> 4096"
  using spsc_reachable_inv [OF assms] by (simp add: spsc_inv_def ring_inv_def)

theorem spsc_delivers_in_order_witness:
  "\<exists>s. rtranclp spsc_step spsc_start s \<and> sp_pushed s = [demo_delta 1] \<and> sp_pushed s = sp_popped s @ ring_items (sp_ring s)"
proof -
  let ?s = "spsc_start\<lparr>sp_producer := P_Idle, sp_ring := fst (tryPush new_ring (demo_delta 1)), sp_pushed := [demo_delta 1]\<rparr>"
  have "snd (tryPush new_ring (demo_delta 1))" by (rule delta_queue.push_accepts) simp_all
  then have r: "rtranclp spsc_step spsc_start ?s"
    using push_uninterrupted [of spsc_start "demo_delta 1" "fst (tryPush new_ring (demo_delta 1))" True]
    by (simp add: spsc_start_def prod_eq_iff)
  show ?thesis using spsc_delivers_in_order [OF r] r by (intro exI [of _ ?s]) simp
qed

text \<open>
  C15 (safety): the two threads never touch the same array element at the same time. When the
  producer has passed its capacity check and the consumer its emptiness check, the slot about
  to be written differs from the slot about to be read.
\<close>

theorem spsc_no_slot_race:
  assumes "rtranclp spsc_step spsc_start s"
    and "sp_producer s = P_Loaded item w r" and "\<not> w - r \<ge> RING_BUFFER_CAPACITY"
    and "sp_consumer s = C_Loaded r' w'" and "r' \<noteq> w'"
  shows "slot_index w \<noteq> slot_index r'"
proof -
  have inv: "spsc_inv s" using assms(1) by (rule spsc_reachable_inv)
  have w: "w = writeIndex (sp_ring s)" "unat (w - readIndex (sp_ring s)) \<le> unat (w - r)"
    using inv assms(2) by (auto simp: spsc_inv_def)
  have r': "r' = readIndex (sp_ring s)" "unat (w' - r') \<le> unat (writeIndex (sp_ring s) - r')"
    using inv assms(4) by (auto simp: spsc_inv_def)
  have "0 < unat (w' - r')" using assms(5) by (simp add: unat_gt_0)
  with w r' assms(3) show ?thesis by (intro store_keeps_unread) (auto simp: full_iff)
qed

theorem spsc_no_slot_race_witness:
  "\<exists>s. rtranclp spsc_step spsc_start s \<and> sp_producer s = P_Loaded (demo_delta 2) 1 0 \<and> sp_consumer s = C_Loaded 0 1
     \<and> slot_index 1 \<noteq> slot_index 0"
proof -
  define rb where "rb = fst (tryPush new_ring (demo_delta 1))"
  define s0 where "s0 = spsc_start\<lparr>sp_producer := P_Idle, sp_ring := rb, sp_pushed := [demo_delta 1]\<rparr>"
  have ix: "writeIndex rb = 1" "readIndex rb = 0" by (simp_all add: rb_def tryPush_def new_ring_def RING_BUFFER_CAPACITY_def)
  have "snd (tryPush new_ring (demo_delta 1))" by (rule delta_queue.push_accepts) simp_all
  then have r0: "rtranclp spsc_step spsc_start s0"
    using push_uninterrupted [of spsc_start "demo_delta 1" rb True] by (simp add: spsc_start_def prod_eq_iff s0_def rb_def)
  let ?s1 = "s0\<lparr>sp_producer := P_LoadedW (demo_delta 2) 1\<rparr>" and ?s2 = "s0\<lparr>sp_producer := P_Loaded (demo_delta 2) 1 0\<rparr>"
  let ?s3 = "?s2\<lparr>sp_consumer := C_LoadedR 0\<rparr>" and ?s4 = "?s2\<lparr>sp_consumer := C_Loaded 0 1\<rparr>"
  have "spsc_step s0 ?s1" using spsc_step.push_begin [of s0 "demo_delta 2"] by (simp add: s0_def ix)
  moreover have "spsc_step ?s1 ?s2" using spsc_step.push_acquire [of ?s1 "demo_delta 2" 1] by (simp add: s0_def ix)
  moreover have "spsc_step ?s2 ?s3" using spsc_step.pop_begin [of ?s2] by (simp add: s0_def spsc_start_def ix)
  moreover have "spsc_step ?s3 ?s4" using spsc_step.pop_acquire [of ?s3 0] by (simp add: s0_def ix)
  ultimately have r: "rtranclp spsc_step spsc_start ?s4" using r0 by (meson rtranclp.rtrancl_into_rtrancl)
  have room: "\<not> RING_BUFFER_CAPACITY \<le> (1 :: u64) - 0" by (simp add: RING_BUFFER_CAPACITY_def word_le_nat_alt)
  show ?thesis
    using spsc_no_slot_race [OF r _ room, of "demo_delta 2" 0 1] r by (intro exI [of _ ?s4]) simp
qed

text \<open>
  \<^verbatim>\<open>setSymbol\<close> refuses exactly the symbols of 16 characters or more, and a
  symbol without zero bytes that is accepted is what a reader of the zero-terminated field
  gets back.
\<close>

lemma setSymbol_behaviour:
  assumes "length (bd_symbol delta) = SYMBOL_BYTES" and "NUL \<notin> set symbol"
  shows "case setSymbol delta symbol of
      Inl err \<Rightarrow> err = Invalid_argument ''BookDelta: symbol too long for fixed-width field'' \<and> 16 \<le> length symbol
    | Inr delta' \<Rightarrow> length symbol < 16 \<and> c_string (bd_symbol delta') = symbol \<and> length (bd_symbol delta') = 16"
proof (cases "setSymbol delta symbol")
  case (Inl err)
  then show ?thesis by (auto simp: setSymbol_def SYMBOL_BYTES_def split: if_splits)
next
  case (Inr delta')
  then have "length symbol < 16" by (auto simp: setSymbol_def SYMBOL_BYTES_def split: if_splits)
  then show ?thesis
    using delta_symbol.put_reads_back [OF assms(1) Inr assms(2)] delta_symbol.put_keeps_width [OF assms(1) Inr]
    by (simp add: Inr SYMBOL_BYTES_def)
qed

lemma BookDelta_layout:
  "struct_offsets BookDelta_members = [0, 16, 24, 32, 40, 48]" "struct_size BookDelta_members = 56"
  by (simp_all add: struct_offsets_def struct_size_def struct_align_def BookDelta_members_def align_up_def)

lemma RingBuffer_layout:
  "struct_offsets RingBuffer_members = [0, 8, 16, 24]" "struct_size RingBuffer_members = 229400" "writeIndexOffset = 0"
  by (simp_all add: writeIndexOffset_def RingBuffer_members_def BookDelta_layout(2))
    (simp_all add: struct_offsets_def struct_size_def struct_align_def align_up_def)

end
