(* ===== verification/Snapshot_Slot.thy ===== *)
theory Snapshot_Slot
  imports Wire_Layout Order_Book
begin

text \<open>
  The snapshot slot, \<^verbatim>\<open>engine/include/engine/ipc/snapshot_slot.hpp\<close>: the struct
  \<^verbatim>\<open>BookSnapshot\<close> and the seqlock \<^verbatim>\<open>SeqlockSlot<T>\<close> with one writer and one reader.

  \<^verbatim>\<open>write\<close> and \<^verbatim>\<open>reset\<close> are sequential operations. For the concurrent reader the payload is
  a list of memory cells that writer and reader copy one cell per step, so that a read can
  observe a half-written value; the loads and stores of \<^verbatim>\<open>version_\<close> are single steps. The
  writer's accesses take effect in program order. The reader's second load of \<^verbatim>\<open>version_\<close> is
  an acquire load, which does not keep the copy before it from taking effect later: whether
  the machine and the compiler keep that order is the parameter \<open>ordered\<close> of the reader's
  steps. The 32-bit version wraps; a ghost counter of the version increments says when that
  matters.
\<close>

section \<open>Definitions\<close>

record BookSnapshot =
  sn_symbol :: string
  sn_seq :: u64
  sn_engineTsNanos :: u64
  sn_numBidLevels :: u16
  sn_numAskLevels :: u16
  sn_bids :: "PriceLevel list"
  sn_asks :: "PriceLevel list"

definition PriceLevel_members :: "(nat \<times> nat) list" where
  "PriceLevel_members = [(8, 8), (8, 8)]"

definition BookSnapshot_members :: "(nat \<times> nat) list" where
  "BookSnapshot_members = [(16, 1), (8, 8), (8, 8), (2, 2), (2, 2),
     (struct_size PriceLevel_members * BOOK_DEPTH, 8), (struct_size PriceLevel_members * BOOK_DEPTH, 8)]"

definition zero_level :: PriceLevel where
  "zero_level = \<lparr>level_price = Price 0, level_quantity = Quantity 0\<rparr>"

definition zero_snapshot :: BookSnapshot where
  "zero_snapshot = \<lparr>sn_symbol = replicate SYMBOL_BYTES NUL, sn_seq = 0, sn_engineTsNanos = 0,
     sn_numBidLevels = 0, sn_numAskLevels = 0,
     sn_bids = replicate BOOK_DEPTH zero_level, sn_asks = replicate BOOK_DEPTH zero_level\<rparr>"

record 'v SeqlockSlot =
  version :: u32
  slot_value :: 'v

definition reset_slot :: "'v \<Rightarrow> 'v SeqlockSlot \<Rightarrow> 'v SeqlockSlot" where
  "reset_slot zero s = s\<lparr>version := 0, slot_value := zero\<rparr>"

definition write_slot :: "'v \<Rightarrow> 'v SeqlockSlot \<Rightarrow> 'v SeqlockSlot" where
  "write_slot v s =
     (let s1 = s\<lparr>version := version s + 1\<rparr>; s2 = s1\<lparr>slot_value := v\<rparr> in s2\<lparr>version := version s2 + 1\<rparr>)"

text \<open>
  The program points of \<^verbatim>\<open>write\<close> (the value and the number of cells written) and of \<^verbatim>\<open>read\<close>
  (\<^verbatim>\<open>before\<close> and the cells copied so far; \<open>R_Early\<close> has loaded \<^verbatim>\<open>after\<close>, its last argument,
  with cells still to be copied).
\<close>

datatype 'c Writer = W_Idle | W_Writing "'c list" nat

datatype 'c Reader = R_Start | R_Copying u32 "'c list" | R_Early u32 "'c list" u32 | R_Returned "'c list"

record 'c seqlock =
  sq_slot :: "'c list SeqlockSlot"
  sq_writer :: "'c Writer"
  sq_reader :: "'c Reader"
  sq_bumps :: nat
  sq_loaded :: nat
  sq_last :: "'c list"

definition bump :: "'c seqlock \<Rightarrow> 'c seqlock" where
  "bump s = s\<lparr>sq_slot := (sq_slot s)\<lparr>version := version (sq_slot s) + 1\<rparr>, sq_bumps := Suc (sq_bumps s)\<rparr>"

definition seqlock_start :: "'c list \<Rightarrow> 'c seqlock" where
  "seqlock_start v = \<lparr>sq_slot = \<lparr>version = 0, slot_value = v\<rparr>, sq_writer = W_Idle, sq_reader = R_Start,
     sq_bumps = 0, sq_loaded = 0, sq_last = v\<rparr>"

inductive writer_step :: "'c seqlock \<Rightarrow> 'c seqlock \<Rightarrow> bool" where
  write_begin: "sq_writer s = W_Idle \<Longrightarrow> length v = length (sq_last s) \<Longrightarrow>
     writer_step s (bump (s\<lparr>sq_writer := W_Writing v 0\<rparr>))"
| write_cell: "sq_writer s = W_Writing v i \<Longrightarrow> i < length v \<Longrightarrow>
     writer_step s (s\<lparr>sq_writer := W_Writing v (Suc i),
       sq_slot := (sq_slot s)\<lparr>slot_value := (slot_value (sq_slot s))[i := v ! i]\<rparr>\<rparr>)"
| write_end: "sq_writer s = W_Writing v i \<Longrightarrow> \<not> i < length v \<Longrightarrow>
     writer_step s (bump (s\<lparr>sq_writer := W_Idle, sq_last := v\<rparr>))"

text \<open>
  The rule \<open>load_early\<close>, which needs that the order is not kept, is the reader's second load
  overtaking the copy of the remaining cells; \<open>early_cell\<close>, \<open>early_retry\<close> and \<open>early_return\<close> finish
  such a read.
\<close>

inductive reader_step :: "bool \<Rightarrow> 'c seqlock \<Rightarrow> 'c seqlock \<Rightarrow> bool" for ordered :: bool where
  read_odd: "sq_reader s = R_Start \<Longrightarrow> odd (unat (version (sq_slot s))) \<Longrightarrow> reader_step ordered s s"
| read_even: "sq_reader s = R_Start \<Longrightarrow> even (unat (version (sq_slot s))) \<Longrightarrow>
     reader_step ordered s (s\<lparr>sq_reader := R_Copying (version (sq_slot s)) [], sq_loaded := sq_bumps s\<rparr>)"
| read_cell: "sq_reader s = R_Copying before buf \<Longrightarrow> length buf < length (slot_value (sq_slot s)) \<Longrightarrow>
     reader_step ordered s (s\<lparr>sq_reader := R_Copying before (buf @ [slot_value (sq_slot s) ! length buf])\<rparr>)"
| read_retry: "sq_reader s = R_Copying before buf \<Longrightarrow> \<not> length buf < length (slot_value (sq_slot s)) \<Longrightarrow>
     before \<noteq> version (sq_slot s) \<Longrightarrow> reader_step ordered s (s\<lparr>sq_reader := R_Start\<rparr>)"
| read_return: "sq_reader s = R_Copying before buf \<Longrightarrow> \<not> length buf < length (slot_value (sq_slot s)) \<Longrightarrow>
     before = version (sq_slot s) \<Longrightarrow> reader_step ordered s (s\<lparr>sq_reader := R_Returned buf\<rparr>)"
| load_early: "\<not> ordered \<Longrightarrow> sq_reader s = R_Copying before buf \<Longrightarrow> length buf < length (slot_value (sq_slot s)) \<Longrightarrow>
     reader_step ordered s (s\<lparr>sq_reader := R_Early before buf (version (sq_slot s))\<rparr>)"
| early_cell: "sq_reader s = R_Early before buf after \<Longrightarrow> length buf < length (slot_value (sq_slot s)) \<Longrightarrow>
     reader_step ordered s (s\<lparr>sq_reader := R_Early before (buf @ [slot_value (sq_slot s) ! length buf]) after\<rparr>)"
| early_retry: "sq_reader s = R_Early before buf after \<Longrightarrow> \<not> length buf < length (slot_value (sq_slot s)) \<Longrightarrow>
     before \<noteq> after \<Longrightarrow> reader_step ordered s (s\<lparr>sq_reader := R_Start\<rparr>)"
| early_return: "sq_reader s = R_Early before buf after \<Longrightarrow> \<not> length buf < length (slot_value (sq_slot s)) \<Longrightarrow>
     before = after \<Longrightarrow> reader_step ordered s (s\<lparr>sq_reader := R_Returned buf\<rparr>)"

text \<open>Both sides interleave; after a read has returned, the reader may call it again.\<close>

inductive seqlock_step :: "bool \<Rightarrow> 'c seqlock \<Rightarrow> 'c seqlock \<Rightarrow> bool" for ordered :: bool where
  writes: "writer_step s t \<Longrightarrow> seqlock_step ordered s t"
| reads: "reader_step ordered s t \<Longrightarrow> seqlock_step ordered s t"
| read_again: "sq_reader s = R_Returned buf \<Longrightarrow> seqlock_step ordered s (s\<lparr>sq_reader := R_Start\<rparr>)"

inductive_cases writer_stepE: "writer_step s t"
inductive_cases reader_stepE: "reader_step ordered s t"
inductive_cases seqlock_stepE: "seqlock_step ordered s t"

text \<open>The layout of \<^verbatim>\<open>SnapshotSlot\<close> and the offsets that the code asserts.\<close>

definition SnapshotSlot_members :: "(nat \<times> nat) list" where
  "SnapshotSlot_members = [(4, 4), (struct_size BookSnapshot_members, 8)]"

definition versionOffset :: nat where "versionOffset = struct_offsets SnapshotSlot_members ! 0"

definition valueOffset :: nat where "valueOffset = struct_offsets SnapshotSlot_members ! 1"

section \<open>Lemmas\<close>

lemma BookSnapshot_layout:
  "struct_offsets BookSnapshot_members = [0, 16, 24, 32, 34, 40, 40 + 16 * BOOK_DEPTH]"
  "struct_size BookSnapshot_members = 40 + 16 * BOOK_DEPTH * 2" "struct_size PriceLevel_members = 16"
  by (simp_all add: struct_offsets_def struct_size_def struct_align_def BookSnapshot_members_def PriceLevel_members_def
      align_up_def BOOK_DEPTH_def)

lemma SnapshotSlot_layout:
  "struct_offsets SnapshotSlot_members = [0, 8]" "struct_size SnapshotSlot_members = 3248" "versionOffset = 0" "valueOffset = 8"
  by (simp_all add: versionOffset_def valueOffset_def SnapshotSlot_members_def BookSnapshot_layout(2) BOOK_DEPTH_def)
    (simp_all add: struct_offsets_def struct_size_def struct_align_def align_up_def)

definition writer_ok :: "'c seqlock \<Rightarrow> bool" where
  "writer_ok s \<longleftrightarrow> (case sq_writer s of
      W_Idle \<Rightarrow> even (sq_bumps s) \<and> slot_value (sq_slot s) = sq_last s
    | W_Writing v i \<Rightarrow> odd (sq_bumps s) \<and> length v = length (sq_last s) \<and> i \<le> length v
        \<and> slot_value (sq_slot s) = take i v @ drop i (sq_last s))"

definition reader_ok :: "'c seqlock \<Rightarrow> bool" where
  "reader_ok s \<longleftrightarrow> (case sq_reader s of
      R_Copying before buf \<Rightarrow> before = of_nat (sq_loaded s) \<and> even (sq_loaded s) \<and> sq_loaded s \<le> sq_bumps s
        \<and> length buf \<le> length (sq_last s)
        \<and> (sq_bumps s = sq_loaded s \<longrightarrow> buf = take (length buf) (sq_last s))
    | _ \<Rightarrow> True)"

definition seqlock_inv :: "'c seqlock \<Rightarrow> bool" where
  "seqlock_inv s \<longleftrightarrow> version (sq_slot s) = of_nat (sq_bumps s) \<and> writer_ok s \<and> reader_ok s
     \<and> length (slot_value (sq_slot s)) = length (sq_last s)"

lemma even_unat_of_nat: "even (unat (of_nat n :: u32)) \<longleftrightarrow> even n"
  by (simp add: unat_of_nat dvd_mod_iff)

lemma seqlock_inv_start: "seqlock_inv (seqlock_start v)"
  by (simp add: seqlock_inv_def seqlock_start_def writer_ok_def reader_ok_def)

lemma seqlock_inv_writer:
  assumes "writer_step s t" and "seqlock_inv s"
  shows "seqlock_inv t"
  using assms
proof (induction rule: writer_step.induct)
  case (write_begin s v)
  then show ?case
    by (auto simp: seqlock_inv_def writer_ok_def reader_ok_def bump_def split: Reader.splits)
next
  case (write_cell s v i)
  have "(take i v @ drop i (sq_last s))[i := v ! i] = take (Suc i) v @ drop (Suc i) (sq_last s)"
    if "length v = length (sq_last s)"
    using write_cell(2) that by (intro nth_equalityI) (auto simp: nth_append nth_list_update less_Suc_eq min_def)
  with write_cell show ?case
    by (auto simp: seqlock_inv_def writer_ok_def reader_ok_def split: Reader.splits)
next
  case (write_end s v i)
  then show ?case
    by (auto simp: seqlock_inv_def writer_ok_def reader_ok_def bump_def split: Reader.splits)
qed

lemma seqlock_inv_reader:
  assumes "reader_step ordered s t" and "seqlock_inv s"
  shows "seqlock_inv t"
  using assms
proof (induction rule: reader_step.induct)
  case (read_even s)
  then show ?case by (auto simp: seqlock_inv_def writer_ok_def reader_ok_def even_unat_of_nat split: Writer.splits)
next
  case (read_cell s before buf)
  have "sq_bumps s = sq_loaded s \<Longrightarrow> slot_value (sq_slot s) = sq_last s"
    using read_cell by (auto simp: seqlock_inv_def writer_ok_def reader_ok_def split: Writer.splits)
  with read_cell show ?case
    by (auto simp: seqlock_inv_def writer_ok_def reader_ok_def take_Suc_conv_app_nth split: Writer.splits)
qed (auto simp: seqlock_inv_def writer_ok_def reader_ok_def split: Writer.splits)

lemma seqlock_inv_step: "seqlock_step ordered s t \<Longrightarrow> seqlock_inv s \<Longrightarrow> seqlock_inv t"
proof (induction rule: seqlock_step.induct)
  case (read_again s buf)
  then show ?case by (auto simp: seqlock_inv_def writer_ok_def reader_ok_def split: Writer.splits)
qed (blast intro: seqlock_inv_writer seqlock_inv_reader)+

lemma seqlock_reachable_inv: "rtranclp (seqlock_step ordered) (seqlock_start v) s \<Longrightarrow> seqlock_inv s"
  by (induction rule: rtranclp_induct) (auto intro: seqlock_inv_start seqlock_inv_step)

text \<open>The early load is possible only where the order is not kept.\<close>

definition loads_late :: "'c seqlock \<Rightarrow> bool" where
  "loads_late s \<longleftrightarrow> (case sq_reader s of R_Early before buf after \<Rightarrow> False | _ \<Rightarrow> True)"

lemma ordered_loads_late: "rtranclp (seqlock_step True) (seqlock_start v) s \<Longrightarrow> loads_late s"
proof (induction rule: rtranclp_induct)
  case base
  then show ?case by (simp add: loads_late_def seqlock_start_def)
next
  case (step s t)
  from step(2,3) show ?case
    by (auto elim!: seqlock_stepE writer_stepE reader_stepE simp: loads_late_def bump_def split: Reader.splits)
qed

text \<open>Equal 32-bit versions fewer than \<open>2\<^sup>3\<^sup>2\<close> increments apart are the same version.\<close>

lemma version_eq:
  assumes "(of_nat a :: u32) = of_nat b" and "a \<le> b" and "b - a < 2 ^ 32"
  shows "a = b"
proof -
  have "(of_nat (b - a) :: u32) = 0" using assms(1,2) by (simp add: of_nat_diff)
  then have "2 ^ 32 dvd (b - a)" by (simp add: word_of_nat_eq_0_iff)
  then have "b - a = 0" using assms(3) by (metis nat_dvd_not_less neq0_conv)
  then show ?thesis using assms(2) by simp
qed

text \<open>
  A \<^verbatim>\<open>read\<close> while no write is in progress: how many steps it can still take, and what it has
  copied since it last loaded \<^verbatim>\<open>before\<close>.
\<close>

definition read_measure :: "'c seqlock \<Rightarrow> nat" where
  "read_measure s =
     (let n = length (slot_value (sq_slot s)) in
      case sq_reader s of
        R_Start \<Rightarrow> n + 3
      | R_Copying before buf \<Rightarrow> (n - length buf) + 2 + (if before = version (sq_slot s) then 0 else n + 3)
      | R_Early before buf after \<Rightarrow> (n - length buf) + 1 + (if before = after then 0 else n + 3)
      | R_Returned buf \<Rightarrow> 0)"

lemma reader_step_frame:
  "reader_step ordered s t \<Longrightarrow> sq_slot t = sq_slot s \<and> sq_writer t = sq_writer s \<and> sq_last t = sq_last s \<and> sq_bumps t = sq_bumps s"
  by (induction rule: reader_step.induct) simp_all

lemma idle_even: "seqlock_inv s \<Longrightarrow> sq_writer s = W_Idle \<Longrightarrow> even (unat (version (sq_slot s))) \<and> slot_value (sq_slot s) = sq_last s"
  by (simp add: seqlock_inv_def writer_ok_def even_unat_of_nat)

lemma reader_step_measure:
  assumes "reader_step ordered s t" and "seqlock_inv s" and "sq_writer s = W_Idle"
  shows "read_measure t < read_measure s"
  using assms idle_even [OF assms(2,3)] by (induction rule: reader_step.induct) (auto simp: read_measure_def Let_def)

lemma reader_steps_idle:
  assumes "(reader_step ordered ^^ n) s t" and "seqlock_inv s" and "sq_writer s = W_Idle"
  shows "n + read_measure t \<le> read_measure s \<and> seqlock_inv t \<and> sq_writer t = W_Idle \<and> sq_slot t = sq_slot s \<and> sq_last t = sq_last s"
  using assms(1)
proof (induction n arbitrary: t)
  case (Suc n)
  then obtain u where u: "(reader_step ordered ^^ n) s u" and st: "reader_step ordered u t" by auto
  note ih = Suc.IH [OF u]
  show ?case
    using ih reader_step_frame [OF st] seqlock_inv_reader [OF st] reader_step_measure [OF st] by simp
qed (use assms in simp)

lemma read_measure_bound: "read_measure s \<le> 2 * length (slot_value (sq_slot s)) + 5"
  by (auto simp: read_measure_def Let_def split: Reader.splits)

lemma reader_progress:
  "(\<exists>t. reader_step ordered s t) \<or> (\<exists>result. sq_reader s = R_Returned result)"
proof (cases "sq_reader s")
  case R_Start
  then show ?thesis by (meson reader_step.read_odd reader_step.read_even)
next
  case (R_Copying before buf)
  then show ?thesis using reader_step.read_cell reader_step.read_retry reader_step.read_return by (metis (no_types))
next
  case (R_Early before buf after)
  then show ?thesis using reader_step.early_cell reader_step.early_retry reader_step.early_return by (metis (no_types))
qed blast

definition reads_last :: "'c seqlock \<Rightarrow> bool" where
  "reads_last s \<longleftrightarrow> (case sq_reader s of
      R_Start \<Rightarrow> True
    | R_Copying before buf \<Rightarrow> before = version (sq_slot s) \<and> buf = take (length buf) (sq_last s)
    | R_Early before buf after \<Rightarrow> before = version (sq_slot s) \<and> after = before \<and> buf = take (length buf) (sq_last s)
    | R_Returned result \<Rightarrow> result = sq_last s)"

lemma reads_last_step:
  assumes "reader_step ordered s t" and "seqlock_inv s" and "sq_writer s = W_Idle" and "reads_last s"
  shows "reads_last t"
  using assms idle_even [OF assms(2,3)]
  by (induction rule: reader_step.induct) (auto simp: reads_last_def take_Suc_conv_app_nth)

lemma reads_last_steps:
  assumes "(reader_step ordered ^^ n) s t" and "seqlock_inv s" and "sq_writer s = W_Idle" and "reads_last s"
  shows "reads_last t"
  using assms(1)
proof (induction n arbitrary: t)
  case (Suc n)
  then obtain u where u: "(reader_step ordered ^^ n) s u" and st: "reader_step ordered u t" by auto
  show ?case
    using reads_last_step [OF st] reader_steps_idle [OF u assms(2,3)] Suc.IH [OF u] by simp
qed (use assms in simp)

lemma write_cells:
  assumes "sq_writer s = W_Writing v n" and "n \<le> length v" and "length v = length old"
    and "slot_value (sq_slot s) = take n v @ drop n old"
  shows "rtranclp writer_step s (s\<lparr>sq_writer := W_Writing v (length v), sq_slot := (sq_slot s)\<lparr>slot_value := v\<rparr>\<rparr>)"
  using assms
proof (induction "length v - n" arbitrary: n s)
  case 0
  then have "s\<lparr>sq_writer := W_Writing v (length v), sq_slot := (sq_slot s)\<lparr>slot_value := v\<rparr>\<rparr> = s" by (cases s) simp
  then show ?case by simp
next
  case (Suc k)
  let ?s1 = "s\<lparr>sq_writer := W_Writing v (Suc n), sq_slot := (sq_slot s)\<lparr>slot_value := (slot_value (sq_slot s))[n := v ! n]\<rparr>\<rparr>"
  have n: "n < length v" using Suc.hyps(2) by simp
  have "writer_step s ?s1" using Suc.prems(1) n by (rule writer_step.write_cell)
  moreover have "(take n v @ drop n old)[n := v ! n] = take (Suc n) v @ drop (Suc n) old"
    using n Suc.prems(3) by (intro nth_equalityI) (auto simp: nth_append nth_list_update less_Suc_eq min_def)
  then have "rtranclp writer_step ?s1 (?s1\<lparr>sq_writer := W_Writing v (length v), sq_slot := (sq_slot ?s1)\<lparr>slot_value := v\<rparr>\<rparr>)"
    using Suc.hyps(2) Suc.prems by (intro Suc.hyps(1) [of "Suc n"]) simp_all
  ultimately show ?case by (simp add: converse_rtranclp_into_rtranclp)
qed

text \<open>A \<^verbatim>\<open>write\<close> that is not interrupted is the sequential operation.\<close>

lemma write_alone:
  assumes "seqlock_inv s" and "sq_writer s = W_Idle" and "length v = length (sq_last s)"
  shows "\<exists>t. rtranclp writer_step s t \<and> sq_slot t = write_slot v (sq_slot s) \<and> sq_last t = v
    \<and> sq_writer t = W_Idle \<and> sq_reader t = sq_reader s \<and> sq_bumps t = sq_bumps s + 2 \<and> sq_loaded t = sq_loaded s"
proof -
  let ?s1 = "bump (s\<lparr>sq_writer := W_Writing v 0\<rparr>)"
  let ?s2 = "?s1\<lparr>sq_writer := W_Writing v (length v), sq_slot := (sq_slot ?s1)\<lparr>slot_value := v\<rparr>\<rparr>"
  let ?s3 = "bump (?s2\<lparr>sq_writer := W_Idle, sq_last := v\<rparr>)"
  have "writer_step s ?s1" using assms(2,3) by (rule writer_step.write_begin)
  moreover have "rtranclp writer_step ?s1 ?s2"
    using assms by (intro write_cells [where n = 0 and old = "sq_last s"]) (simp_all add: bump_def seqlock_inv_def writer_ok_def)
  moreover have "writer_step ?s2 ?s3" using writer_step.write_end [of ?s2 v "length v"] by simp
  ultimately have "rtranclp writer_step s ?s3"
    by (meson converse_rtranclp_into_rtranclp rtranclp.rtrancl_into_rtrancl)
  then show ?thesis by (intro exI [of _ ?s3]) (simp add: bump_def write_slot_def)
qed

section \<open>Properties\<close>

text \<open>
  C25 (safety): no torn reads, where loads keep their order. Suppose the reader's copy of the
  payload takes effect before its second load of \<^verbatim>\<open>version_\<close>, as on machines that do not
  reorder loads; the acquire load of the code does not ask for this. Then when \<^verbatim>\<open>read\<close> returns,
  having met fewer than \<open>2\<^sup>3\<^sup>2\<close> version increments since it loaded \<^verbatim>\<open>before\<close>, the value it
  returns is the one the last completed \<^verbatim>\<open>write\<close> stored (or the initial one), never a mixture,
  and no write is in progress.
\<close>

theorem seqlock_read_consistent:
  assumes "ordered" and "rtranclp (seqlock_step ordered) (seqlock_start v) s" and "seqlock_step ordered s t"
    and "sq_reader s \<noteq> R_Returned result" and "sq_reader t = R_Returned result"
    and "sq_bumps s - sq_loaded s < 2 ^ 32"
  shows "result = sq_last s \<and> sq_writer s = W_Idle"
proof -
  have inv: "seqlock_inv s" using assms(2) by (rule seqlock_reachable_inv)
  have late: "loads_late s" using assms(1,2) ordered_loads_late by simp
  obtain before where ret: "sq_reader s = R_Copying before result"
      "\<not> length result < length (slot_value (sq_slot s))" "before = version (sq_slot s)"
    using assms(3-5) late by (auto elim!: seqlock_stepE writer_stepE reader_stepE simp: bump_def loads_late_def)
  have "sq_loaded s = sq_bumps s"
    using inv assms(6) ret(1,3) by (intro version_eq) (auto simp: seqlock_inv_def reader_ok_def)
  then show ?thesis
    using inv ret(1,2) by (auto simp: seqlock_inv_def reader_ok_def writer_ok_def split: Writer.splits)
qed

text \<open>Two cells and one write between the steps of a read.\<close>

definition demo_slot :: "u32 \<Rightarrow> nat list \<Rightarrow> nat Reader \<Rightarrow> nat \<Rightarrow> nat list \<Rightarrow> nat seqlock" where
  "demo_slot ver val r bumps stored = \<lparr>sq_slot = \<lparr>version = ver, slot_value = val\<rparr>, sq_writer = W_Idle, sq_reader = r,
     sq_bumps = bumps, sq_loaded = 0, sq_last = stored\<rparr>"

lemma demo_start: "seqlock_start [1, 2] = demo_slot 0 [1, 2] R_Start 0 [1, 2]"
  by (simp add: seqlock_start_def demo_slot_def)

lemma demo_half_read: "rtranclp (seqlock_step ordered) (seqlock_start [1, 2]) (demo_slot 0 [1, 2] (R_Copying 0 [1]) 0 [1, 2])"
proof -
  have "reader_step ordered (demo_slot 0 [1, 2] R_Start 0 [1, 2]) (demo_slot 0 [1, 2] (R_Copying 0 []) 0 [1, 2])"
    using reader_step.read_even [of "demo_slot 0 [1, 2] R_Start 0 [1, 2]"] by (simp add: demo_slot_def)
  moreover have "reader_step ordered (demo_slot 0 [1, 2] (R_Copying 0 []) 0 [1, 2]) (demo_slot 0 [1, 2] (R_Copying 0 [1]) 0 [1, 2])"
    using reader_step.read_cell [of "demo_slot 0 [1, 2] (R_Copying 0 []) 0 [1, 2]"] by (simp add: demo_slot_def)
  ultimately show ?thesis unfolding demo_start by (meson seqlock_step.reads converse_rtranclp_into_rtranclp rtranclp.rtrancl_refl)
qed

lemma demo_full_read: "rtranclp (seqlock_step ordered) (seqlock_start [1, 2]) (demo_slot 0 [1, 2] (R_Copying 0 [1, 2]) 0 [1, 2])"
proof -
  have "reader_step ordered (demo_slot 0 [1, 2] (R_Copying 0 [1]) 0 [1, 2]) (demo_slot 0 [1, 2] (R_Copying 0 [1, 2]) 0 [1, 2])"
    using reader_step.read_cell [of "demo_slot 0 [1, 2] (R_Copying 0 [1]) 0 [1, 2]"] by (simp add: demo_slot_def)
  then show ?thesis using demo_half_read by (meson seqlock_step.reads rtranclp.rtrancl_into_rtrancl)
qed

theorem seqlock_read_consistent_witness:
  "\<exists>s t. rtranclp (seqlock_step True) (seqlock_start [1, 2 :: nat]) s \<and> seqlock_step True s t
     \<and> sq_reader t = R_Returned [1, 2] \<and> [1, 2] = sq_last s"
proof -
  let ?s = "demo_slot 0 [1, 2] (R_Copying 0 [1, 2]) 0 [1, 2]" and ?t = "demo_slot 0 [1, 2] (R_Returned [1, 2]) 0 [1, 2]"
  have st: "seqlock_step True ?s ?t"
    using reader_step.read_return [of ?s 0 "[1, 2]"] by (intro seqlock_step.reads) (simp add: demo_slot_def)
  have "[1, 2] = sq_last ?s \<and> sq_writer ?s = W_Idle"
    using seqlock_read_consistent [OF TrueI demo_full_read st, of "[1, 2]"] by (simp add: demo_slot_def)
  then show ?thesis using demo_full_read st by (intro exI [of _ ?s] exI [of _ ?t]) (simp add: demo_slot_def)
qed


text \<open>
  C27 (liveness): a read returns when the writer pauses. From every reachable state in which no
  write is in progress, whether or not loads keep their order, and wherever the reader is:
  without steps of the writer, the reader takes at most \<open>2n + 5\<close> steps for a payload of \<open>n\<close>
  cells, whichever steps it takes; it is never stuck before it has returned; and a read that
  starts in that state returns exactly the last value written.
\<close>

theorem seqlock_read_returns:
  assumes "rtranclp (seqlock_step ordered) (seqlock_start v) s" and "sq_writer s = W_Idle"
    and "(reader_step ordered ^^ n) s t"
  shows "n \<le> 2 * length (sq_last s) + 5
    \<and> ((\<exists>u. reader_step ordered t u) \<or> (\<exists>result. sq_reader t = R_Returned result))
    \<and> (\<forall>result. sq_reader s = R_Start \<and> sq_reader t = R_Returned result \<longrightarrow> result = sq_last s)"
proof -
  note inv = seqlock_reachable_inv [OF assms(1)]
  have idle: "n + read_measure t \<le> read_measure s" "sq_last t = sq_last s"
    using reader_steps_idle [OF assms(3) inv assms(2)] by auto
  have "sq_reader s = R_Start \<Longrightarrow> reads_last t"
    using reads_last_steps [OF assms(3) inv assms(2)] by (simp add: reads_last_def)
  then show ?thesis
    using idle read_measure_bound [of s] idle_even [OF inv assms(2)] reader_progress [of ordered t]
    by (auto simp: reads_last_def)
qed

theorem seqlock_read_returns_witness:
  "\<exists>t. rtranclp (reader_step True) (seqlock_start [1, 2 :: nat]) t \<and> sq_reader t = R_Returned [1, 2]"
proof -
  let ?s = "seqlock_start [1, 2 :: nat]"
  have rule: "n \<le> 9 \<and> ((\<exists>u. reader_step True t u) \<or> (\<exists>r. sq_reader t = R_Returned r))
      \<and> (\<forall>r. sq_reader t = R_Returned r \<longrightarrow> r = [1, 2])" if "(reader_step True ^^ n) ?s t" for n t
    using seqlock_read_returns [of True "[1, 2]" ?s n t] that by (simp add: seqlock_start_def)
  have "\<exists>t. (reader_step True ^^ n) ?s t" if "\<forall>t. rtranclp (reader_step True) ?s t \<longrightarrow> (\<forall>r. sq_reader t \<noteq> R_Returned r)" for n
  proof (induction n)
    case (Suc n)
    then obtain t where t: "(reader_step True ^^ n) ?s t" by blast
    have "\<forall>r. sq_reader t \<noteq> R_Returned r" using that relpowp_imp_rtranclp [OF t] by blast
    then obtain u where "reader_step True t u" using rule [OF t] by blast
    with t show ?case by (blast intro: relpowp_Suc_I)
  qed simp
  moreover have "\<nexists>t. (reader_step True ^^ 10) ?s t" using rule [of 10] by auto
  ultimately obtain t r where t: "rtranclp (reader_step True) ?s t" "sq_reader t = R_Returned r" by blast
  then obtain n where "(reader_step True ^^ n) ?s t" by (blast dest: rtranclp_imp_relpowp)
  then show ?thesis using rule t by blast
qed

end
