(* ===== verification/Shared_Memory.thy ===== *)
theory Shared_Memory
  imports Ring_Buffer Snapshot_Slot
begin

text \<open>
  The shared-memory segment and its pool of symbol slots,
  \<^verbatim>\<open>engine/include/engine/ipc/shared_memory_manager.hpp\<close> and
  \<^verbatim>\<open>engine/src/ipc/shared_memory_manager.cpp\<close>.

  A slot pointer is its index in the slot array. What the operating system holds under the
  segment's name is an argument of the constructor: nothing that can be opened, or a mapping
  of some size with some contents.
\<close>

section \<open>Definitions\<close>

definition SYMBOL_SLOT_POOL_SIZE :: nat where "SYMBOL_SLOT_POOL_SIZE = 32"
definition SHARED_MEMORY_SEGMENT_VERSION :: u32 where "SHARED_MEMORY_SEGMENT_VERSION = 1"
definition SHARED_MEMORY_MAGIC :: u32 where "SHARED_MEMORY_MAGIC = 0x50545253"

record SharedMemoryHeader =
  hdr_magic :: u32
  hdr_version :: u32

record SymbolSlot =
  claimed :: u32
  ss_symbol :: string
  deltaQueue :: RingBuffer
  snapshotSlot :: "BookSnapshot SeqlockSlot"

record SharedMemorySegment =
  seg_header :: SharedMemoryHeader
  seg_slots :: "SymbolSlot list"

definition new_slot :: SymbolSlot where
  "new_slot = \<lparr>claimed = 0, ss_symbol = replicate SYMBOL_BYTES NUL, deltaQueue = new_ring,
     snapshotSlot = \<lparr>version = 0, slot_value = zero_snapshot\<rparr>\<rparr>"

text \<open>\<^verbatim>\<open>sizeof(SharedMemorySegment)\<close>, from the layout of its members.\<close>

definition SymbolSlot_members :: "(nat \<times> nat) list" where
  "SymbolSlot_members = [(4, 4), (16, 1), (struct_size RingBuffer_members, 8), (struct_size SnapshotSlot_members, 8)]"

definition SEGMENT_BYTES :: nat where
  "SEGMENT_BYTES = struct_size [(8, 4), (struct_size SymbolSlot_members * SYMBOL_SLOT_POOL_SIZE, 8)]"

definition setSlotSymbol :: "SymbolSlot \<Rightarrow> string \<Rightarrow> SymbolSlot result" where
  "setSlotSymbol slot symbol =
     (if SYMBOL_BYTES \<le> length symbol
      then Inl (Invalid_argument ''SharedMemoryManager: symbol too long for fixed-width field'')
      else Inr (slot\<lparr>ss_symbol := memcpy_to (memset_zero (ss_symbol slot)) symbol\<rparr>))"

definition hasValidHeader :: "SharedMemorySegment \<Rightarrow> nat \<Rightarrow> bool" where
  "hasValidHeader layout mappedBytes \<longleftrightarrow> mappedBytes \<ge> SEGMENT_BYTES
     \<and> hdr_magic (seg_header layout) = SHARED_MEMORY_MAGIC \<and> hdr_version (seg_header layout) = SHARED_MEMORY_SEGMENT_VERSION"

definition release_slot :: "SymbolSlot \<Rightarrow> SymbolSlot" where
  "release_slot slot = slot\<lparr>ss_symbol := memset_zero (ss_symbol slot), claimed := 0\<rparr>"

definition releaseSlot :: "nat \<Rightarrow> SharedMemorySegment \<Rightarrow> SharedMemorySegment" where
  "releaseSlot i seg = seg\<lparr>seg_slots := (seg_slots seg)[i := release_slot (seg_slots seg ! i)]\<rparr>"

definition new_segment :: SharedMemorySegment where
  "new_segment = \<lparr>seg_header = \<lparr>hdr_magic = SHARED_MEMORY_MAGIC, hdr_version = SHARED_MEMORY_SEGMENT_VERSION\<rparr>,
     seg_slots = replicate SYMBOL_SLOT_POOL_SIZE new_slot\<rparr>"

definition open_segment :: "(SharedMemorySegment \<times> nat) option \<Rightarrow> SharedMemorySegment" where
  "open_segment existing =
     (case existing of
        Some (layout, bytes) \<Rightarrow>
          if hasValidHeader layout bytes then layout\<lparr>seg_slots := map release_slot (seg_slots layout)\<rparr> else new_segment
      | None \<Rightarrow> new_segment)"

text \<open>The loop of \<^verbatim>\<open>claimSlot\<close>: the slots after it, and the index claimed, \<^verbatim>\<open>nullptr\<close>, or the exception.\<close>

fun claim_from :: "string \<Rightarrow> nat \<Rightarrow> SymbolSlot list \<Rightarrow> SymbolSlot list \<times> nat option result" where
  "claim_from symbol i [] = ([], Inr None)"
| "claim_from symbol i (slot # slots) =
     (if claimed slot = 0
      then let s1 = slot\<lparr>deltaQueue := reset (deltaQueue slot)\<rparr>;
               s2 = s1\<lparr>snapshotSlot := reset_slot zero_snapshot (snapshotSlot s1)\<rparr>
           in case setSlotSymbol s2 symbol of
                Inl e \<Rightarrow> (s2 # slots, Inl e)
              | Inr s3 \<Rightarrow> (s3\<lparr>claimed := 1\<rparr> # slots, Inr (Some i))
      else let (slots', r) = claim_from symbol (Suc i) slots in (slot # slots', r))"

definition claimSlot :: "SharedMemorySegment \<Rightarrow> string \<Rightarrow> SharedMemorySegment \<times> nat option result" where
  "claimSlot seg symbol = (let (slots, r) = claim_from symbol 0 (seg_slots seg) in (seg\<lparr>seg_slots := slots\<rparr>, r))"

section \<open>Specification: a pool of slots\<close>

locale slot_pool =
  fixes claim :: "'p \<Rightarrow> string \<Rightarrow> 'p \<times> nat option result" and release :: "nat \<Rightarrow> 'p \<Rightarrow> 'p"
    and taken :: "'p \<Rightarrow> nat set" and inv :: "'p \<Rightarrow> bool" and capacity :: nat
  assumes taken_bound: "inv p \<Longrightarrow> taken p \<subseteq> {..<capacity}"
    and claim_some: "inv p \<Longrightarrow> claim p symbol = (p', Inr (Some i)) \<Longrightarrow>
      inv p' \<and> i < capacity \<and> i \<notin> taken p \<and> taken p' = insert i (taken p)"
    and claim_none: "inv p \<Longrightarrow> claim p symbol = (p', Inr None) \<Longrightarrow> p' = p \<and> taken p = {..<capacity}"
    and claim_throws: "inv p \<Longrightarrow> claim p symbol = (p', Inl e) \<Longrightarrow> inv p' \<and> taken p' = taken p"
    and release_frees: "inv p \<Longrightarrow> i < capacity \<Longrightarrow> inv (release i p) \<and> taken (release i p) = taken p - {i}"
begin

lemma claim_inv:
  assumes "inv p" and "claim p symbol = (p', r)"
  shows "inv p'"
proof (cases r)
  case (Inl e)
  then show ?thesis using claim_throws [OF assms(1)] assms(2) by simp
next
  case (Inr x)
  show ?thesis
  proof (cases x)
    case None
    then show ?thesis using claim_none [OF assms(1)] assms Inr by blast
  next
    case (Some i)
    then show ?thesis using claim_some [OF assms(1)] assms(2) Inr by simp
  qed
qed

lemma taken_finite: "inv p \<Longrightarrow> finite (taken p)" and taken_card: "inv p \<Longrightarrow> card (taken p) \<le> capacity"
  using taken_bound [of p] card_mono [of "{..<capacity}" "taken p"] by (auto intro: finite_subset)

text \<open>The pool is exhausted exactly when all slots are taken.\<close>

lemma exhausted_card: "inv p \<Longrightarrow> claim p symbol = (p', Inr None) \<Longrightarrow> card (taken p) = capacity"
  using claim_none [of p symbol p'] by simp

text \<open>Claiming and releasing again leaves the same slots taken.\<close>

lemma claim_release: "inv p \<Longrightarrow> claim p symbol = (p', Inr (Some i)) \<Longrightarrow> taken (release i p') = taken p"
  using claim_some [of p symbol p' i] release_frees [of p' i] by auto

end

section \<open>Lemmas\<close>

text \<open>The layout of a slot and the size of the segment.\<close>

lemma SymbolSlot_layout:
  "struct_offsets SymbolSlot_members = [0, 4, 24, 229424]" "struct_size SymbolSlot_members = 232672"
  by (simp_all add: SymbolSlot_members_def RingBuffer_layout(2) SnapshotSlot_layout(2))
    (simp_all add: struct_offsets_def struct_size_def struct_align_def align_up_def)

lemma SEGMENT_BYTES_value: "SEGMENT_BYTES = 7445512"
  by (simp add: SEGMENT_BYTES_def SymbolSlot_layout(2) SYMBOL_SLOT_POOL_SIZE_def)
    (simp add: struct_size_def struct_align_def align_up_def)

interpretation slot_symbol: symbol_field ss_symbol setSlotSymbol
  "''SharedMemoryManager: symbol too long for fixed-width field''"
  by unfold_locales (auto simp: setSlotSymbol_def memcpy_memset)

definition slot_ok :: "SymbolSlot \<Rightarrow> bool" where
  "slot_ok slot \<longleftrightarrow> length (ss_symbol slot) = SYMBOL_BYTES \<and> ring_inv (deltaQueue slot)"

definition segment_inv :: "SharedMemorySegment \<Rightarrow> bool" where
  "segment_inv seg \<longleftrightarrow> length (seg_slots seg) = SYMBOL_SLOT_POOL_SIZE \<and> (\<forall>slot \<in> set (seg_slots seg). slot_ok slot)"

definition taken_slots :: "SharedMemorySegment \<Rightarrow> nat set" where
  "taken_slots seg = {i. i < length (seg_slots seg) \<and> claimed (seg_slots seg ! i) \<noteq> 0}"

definition cleaned :: "SymbolSlot \<Rightarrow> SymbolSlot" where
  "cleaned slot = slot\<lparr>deltaQueue := reset (deltaQueue slot), snapshotSlot := reset_slot zero_snapshot (snapshotSlot slot)\<rparr>"

definition claimed_for :: "string \<Rightarrow> SymbolSlot \<Rightarrow> SymbolSlot" where
  "claimed_for symbol slot = (cleaned slot)\<lparr>ss_symbol := memcpy_to (memset_zero (ss_symbol slot)) symbol, claimed := 1\<rparr>"

text \<open>The first free slot decides.\<close>

definition first_free :: "SymbolSlot list \<Rightarrow> nat \<Rightarrow> bool" where
  "first_free slots i \<longleftrightarrow> i < length slots \<and> claimed (slots ! i) = 0 \<and> (\<forall>j < i. claimed (slots ! j) \<noteq> 0)"

lemma first_free_0 [simp]: "first_free (slot # slots) 0 \<longleftrightarrow> claimed slot = 0"
  by (simp add: first_free_def)

lemma first_free_Suc [simp]: "first_free (slot # slots) (Suc i) \<longleftrightarrow> claimed slot \<noteq> 0 \<and> first_free slots i"
  by (auto simp: first_free_def nth_Cons less_Suc_eq_0_disj split: nat.splits)

lemma claim_from_cases:
  assumes "claim_from symbol k slots = (slots', r)"
  obtains (full) "r = Inr None" and "slots' = slots" and "\<forall>slot \<in> set slots. claimed slot \<noteq> 0"
    | (claims) i where "r = Inr (Some (k + i))" and "first_free slots i" and "length symbol < SYMBOL_BYTES"
        and "slots' = slots[i := claimed_for symbol (slots ! i)]"
    | (throws) i where "r = Inl (Invalid_argument ''SharedMemoryManager: symbol too long for fixed-width field'')"
        and "first_free slots i" and "SYMBOL_BYTES \<le> length symbol" and "slots' = slots[i := cleaned (slots ! i)]"
  using assms
proof (induction symbol k slots arbitrary: slots' thesis rule: claim_from.induct)
  case (1 symbol k)
  then show ?case by simp
next
  case (2 symbol k slot slots)
  show ?case
  proof (cases "claimed slot = 0")
    case True
    show ?thesis
      using 2(5) True 2(3) [of 0] 2(4) [of 0]
      by (cases "SYMBOL_BYTES \<le> length symbol") (auto simp: setSlotSymbol_def cleaned_def claimed_for_def Let_def)
  next
    case False
    obtain slots1 where c: "claim_from symbol (Suc k) slots = (slots1, r)" and s': "slots' = slot # slots1"
      using 2(5) False by (auto split: prod.splits)
    show ?thesis
    proof (rule 2(1) [OF False _ _ _ c])
      assume "r = Inr None" "slots1 = slots" "\<forall>slot \<in> set slots. claimed slot \<noteq> 0"
      then show thesis using False s' by (intro 2(2)) simp_all
    next
      fix i assume "r = Inr (Some (Suc k + i))" "first_free slots i" "length symbol < SYMBOL_BYTES"
        "slots1 = slots[i := claimed_for symbol (slots ! i)]"
      then show thesis using False s' by (intro 2(3) [of "Suc i"]) simp_all
    next
      fix i assume "r = Inl (Invalid_argument ''SharedMemoryManager: symbol too long for fixed-width field'')"
        "first_free slots i" "SYMBOL_BYTES \<le> length symbol" "slots1 = slots[i := cleaned (slots ! i)]"
      then show thesis using False s' by (intro 2(4) [of "Suc i"]) simp_all
    qed
  qed
qed

lemma slot_ok_cleaned: "slot_ok slot \<Longrightarrow> slot_ok (cleaned slot)"
  by (simp add: slot_ok_def cleaned_def)

lemma slot_ok_claimed: "slot_ok slot \<Longrightarrow> length symbol < SYMBOL_BYTES \<Longrightarrow> slot_ok (claimed_for symbol slot)"
  by (simp add: slot_ok_def claimed_for_def cleaned_def memcpy_memset)

lemma slot_ok_release: "slot_ok slot \<Longrightarrow> slot_ok (release_slot slot)"
  by (simp add: slot_ok_def release_slot_def memset_zero_def)

lemma slot_ok_nth: "segment_inv seg \<Longrightarrow> i < SYMBOL_SLOT_POOL_SIZE \<Longrightarrow> slot_ok (seg_slots seg ! i)"
  by (auto simp: segment_inv_def)

lemma segment_inv_update:
  "segment_inv seg \<Longrightarrow> slot_ok slot \<Longrightarrow> segment_inv (seg\<lparr>seg_slots := (seg_slots seg)[i := slot]\<rparr>)"
  by (auto simp: segment_inv_def dest: set_update_subset_insert [THEN subsetD])

lemma taken_update:
  "i < length (seg_slots seg) \<Longrightarrow> taken_slots (seg\<lparr>seg_slots := (seg_slots seg)[i := slot]\<rparr>) =
     (if claimed slot = 0 then taken_slots seg - {i} else insert i (taken_slots seg))"
  by (auto simp: taken_slots_def nth_list_update)

lemma claimSlot_cases:
  assumes "segment_inv seg" and "claimSlot seg symbol = (seg', r)"
  obtains (full) "r = Inr None" and "seg' = seg" and "taken_slots seg = {..<SYMBOL_SLOT_POOL_SIZE}"
    | (claims) i where "r = Inr (Some i)" and "first_free (seg_slots seg) i" and "length symbol < SYMBOL_BYTES"
        and "seg' = seg\<lparr>seg_slots := (seg_slots seg)[i := claimed_for symbol (seg_slots seg ! i)]\<rparr>"
    | (throws) i where "r = Inl (Invalid_argument ''SharedMemoryManager: symbol too long for fixed-width field'')"
        and "first_free (seg_slots seg) i" and "SYMBOL_BYTES \<le> length symbol"
        and "seg' = seg\<lparr>seg_slots := (seg_slots seg)[i := cleaned (seg_slots seg ! i)]\<rparr>"
proof -
  obtain slots' where c: "claim_from symbol 0 (seg_slots seg) = (slots', r)" and s: "seg' = seg\<lparr>seg_slots := slots'\<rparr>"
    using assms(2) by (auto simp: claimSlot_def split: prod.splits)
  from c show ?thesis
  proof (cases rule: claim_from_cases)
    case full
    then show ?thesis using assms(1) s by (intro that(1)) (auto simp: taken_slots_def segment_inv_def)
  next
    case (claims i)
    then show ?thesis using s by (intro that(2)) simp_all
  next
    case (throws i)
    then show ?thesis using s by (intro that(3)) simp_all
  qed
qed

interpretation slots: slot_pool claimSlot releaseSlot taken_slots segment_inv SYMBOL_SLOT_POOL_SIZE
proof unfold_locales
  show "taken_slots seg \<subseteq> {..<SYMBOL_SLOT_POOL_SIZE}" if "segment_inv seg" for seg
    using that by (auto simp: taken_slots_def segment_inv_def)
next
  fix seg seg' symbol i
  assume inv: "segment_inv seg" and c: "claimSlot seg symbol = (seg', Inr (Some i))"
  from inv c show "segment_inv seg' \<and> i < SYMBOL_SLOT_POOL_SIZE \<and> i \<notin> taken_slots seg
      \<and> taken_slots seg' = insert i (taken_slots seg)"
  proof (cases rule: claimSlot_cases)
    case (claims j)
    have j: "j = i" "j < length (seg_slots seg)" "j < SYMBOL_SLOT_POOL_SIZE" "claimed (seg_slots seg ! j) = 0"
      using claims inv by (auto simp: first_free_def segment_inv_def)
    have "claimed (claimed_for symbol (seg_slots seg ! j)) \<noteq> 0" by (simp add: claimed_for_def)
    then show ?thesis
      using claims j segment_inv_update [OF inv slot_ok_claimed [OF slot_ok_nth [OF inv j(3)] claims(3)]]
      by (auto simp: taken_update) (auto simp: taken_slots_def)
  qed simp_all
next
  show "seg' = seg \<and> taken_slots seg = {..<SYMBOL_SLOT_POOL_SIZE}"
    if "segment_inv seg" "claimSlot seg symbol = (seg', Inr None)" for seg seg' symbol
    using that by (cases rule: claimSlot_cases) simp_all
next
  fix seg seg' symbol e
  assume inv: "segment_inv seg" and c: "claimSlot seg symbol = (seg', Inl e)"
  from inv c show "segment_inv seg' \<and> taken_slots seg' = taken_slots seg"
  proof (cases rule: claimSlot_cases)
    case (throws j)
    have j: "j < length (seg_slots seg)" "j < SYMBOL_SLOT_POOL_SIZE" "claimed (seg_slots seg ! j) = 0"
      using throws inv by (auto simp: first_free_def segment_inv_def)
    then show ?thesis
      using throws segment_inv_update [OF inv slot_ok_cleaned [OF slot_ok_nth [OF inv j(2)]]]
      by (auto simp: taken_update) (auto simp: taken_slots_def cleaned_def)
  qed simp_all
next
  fix seg i assume inv: "segment_inv seg" and i: "i < SYMBOL_SLOT_POOL_SIZE"
  then have "i < length (seg_slots seg)" by (simp add: segment_inv_def)
  then show "segment_inv (releaseSlot i seg) \<and> taken_slots (releaseSlot i seg) = taken_slots seg - {i}"
    using segment_inv_update [OF inv slot_ok_release [OF slot_ok_nth [OF inv i]]]
    by (simp add: releaseSlot_def taken_update release_slot_def)
qed

lemma segment_inv_new: "segment_inv new_segment" and taken_new: "taken_slots new_segment = {}"
  by (auto simp: segment_inv_def new_segment_def slot_ok_def new_slot_def taken_slots_def)

lemma open_segment_inv:
  assumes "\<forall>layout bytes. existing = Some (layout, bytes) \<and> hasValidHeader layout bytes \<longrightarrow> segment_inv layout"
  shows "segment_inv (open_segment existing)" and "taken_slots (open_segment existing) = {}"
proof -
  have "segment_inv (open_segment existing) \<and> taken_slots (open_segment existing) = {}"
  proof (cases existing)
    case None
    then show ?thesis using segment_inv_new taken_new by (simp add: open_segment_def)
  next
    case (Some x)
    obtain layout bytes where x: "x = (layout, bytes)" by (rule prod.exhaust)
    show ?thesis
      using assms segment_inv_new taken_new slot_ok_release
      by (auto simp: Some x open_segment_def segment_inv_def taken_slots_def release_slot_def)
  qed
  then show "segment_inv (open_segment existing)" "taken_slots (open_segment existing) = {}" by simp_all
qed

section \<open>Properties\<close>

text \<open>
  C28 (functional): \<^verbatim>\<open>claimSlot\<close> takes the first free slot and hands it out clean: its delta
  queue empty, its snapshot version zero, its name field reading back as the symbol, every
  other slot untouched. It returns \<^verbatim>\<open>nullptr\<close> exactly when all 32 slots are taken, and throws,
  claiming nothing, exactly when a slot is free and the symbol has 16 characters or more.
\<close>

theorem claimSlot_behaviour:
  assumes "segment_inv seg" and "NUL \<notin> set symbol"
  shows "case claimSlot seg symbol of
      (seg', Inr (Some i)) \<Rightarrow> first_free (seg_slots seg) i \<and> length symbol < 16
        \<and> claimed (seg_slots seg' ! i) = 1 \<and> c_string (ss_symbol (seg_slots seg' ! i)) = symbol
        \<and> ring_items (deltaQueue (seg_slots seg' ! i)) = [] \<and> version (snapshotSlot (seg_slots seg' ! i)) = 0
        \<and> (\<forall>j. j \<noteq> i \<longrightarrow> seg_slots seg' ! j = seg_slots seg ! j)
    | (seg', Inr None) \<Rightarrow> seg' = seg \<and> taken_slots seg = {..<32}
    | (seg', Inl e) \<Rightarrow> e = Invalid_argument ''SharedMemoryManager: symbol too long for fixed-width field''
        \<and> 16 \<le> length symbol \<and> taken_slots seg \<noteq> {..<32} \<and> taken_slots seg' = taken_slots seg"
proof -
  obtain seg' r where c: "claimSlot seg symbol = (seg', r)" by (rule prod.exhaust)
  from assms(1) c show ?thesis
  proof (cases rule: claimSlot_cases)
    case full
    then show ?thesis by (simp add: c SYMBOL_SLOT_POOL_SIZE_def)
  next
    case (claims i)
    have i: "i < length (seg_slots seg)" using claims(2) by (simp add: first_free_def)
    then have len: "length (ss_symbol (seg_slots seg ! i)) = SYMBOL_BYTES"
      using assms(1) by (auto simp: segment_inv_def slot_ok_def)
    then have "setSlotSymbol (cleaned (seg_slots seg ! i)) symbol =
        Inr ((cleaned (seg_slots seg ! i))\<lparr>ss_symbol := memcpy_to (memset_zero (ss_symbol (seg_slots seg ! i))) symbol\<rparr>)"
      using claims(3) by (simp add: setSlotSymbol_def cleaned_def)
    from slot_symbol.put_reads_back [OF _ this assms(2)] len
    have "c_string (memcpy_to (memset_zero (ss_symbol (seg_slots seg ! i))) symbol) = symbol" by (simp add: cleaned_def)
    then show ?thesis
      using claims i by (simp add: c claimed_for_def cleaned_def reset_slot_def SYMBOL_BYTES_def nth_list_update)
  next
    case (throws i)
    have "taken_slots seg' = taken_slots seg" using slots.claim_throws [OF assms(1)] c throws(1) by blast
    moreover have "i < 32" "i \<notin> taken_slots seg"
      using throws(2) assms(1) by (auto simp: first_free_def segment_inv_def SYMBOL_SLOT_POOL_SIZE_def taken_slots_def)
    ultimately show ?thesis using throws by (auto simp: c SYMBOL_BYTES_def)
  qed
qed

theorem claimSlot_behaviour_witness:
  "\<exists>seg' i. claimSlot new_segment ''BTC/USD'' = (seg', Inr (Some i)) \<and> c_string (ss_symbol (seg_slots seg' ! i)) = ''BTC/USD''"
proof -
  have n: "NUL \<notin> set ''BTC/USD''" by (simp add: NUL_def char_of_def)
  obtain seg' r where c: "claimSlot new_segment ''BTC/USD'' = (seg', r)" by (rule prod.exhaust)
  from segment_inv_new c show ?thesis
  proof (cases rule: claimSlot_cases)
    case full
    then have "{..<SYMBOL_SLOT_POOL_SIZE} = {}" using taken_new by simp
    then show ?thesis by (simp add: SYMBOL_SLOT_POOL_SIZE_def lessThan_empty_iff)
  next
    case (claims i)
    then show ?thesis using claimSlot_behaviour [OF segment_inv_new n] by (simp add: c)
  next
    case (throws i)
    then show ?thesis by (simp add: SYMBOL_BYTES_def)
  qed
qed

end
