(* ===== verification/Kraken_Parser.thy ===== *)
theory Kraken_Parser
  imports Order_Book
begin

text \<open>
  The parser of Kraken book messages, \<^verbatim>\<open>engine/include/engine/market_data/kraken_parser.hpp\<close>
  and \<^verbatim>\<open>engine/src/market_data/kraken_parser.cpp\<close>.

  The JSON library simdjson is a parameter: a record of the access functions the parser
  calls, on an abstract type \<open>'v\<close> of JSON values. Each access returns a value or throws.
  Elements of an array are results themselves, as an on-demand array can fail at every
  element. Nothing is assumed of the library in the definitions; \<open>presents\<close> states what
  its accesses return on the text of a well-formed message.
\<close>

section \<open>Definitions\<close>

datatype BookMessageType = Snapshot | Update

record BookLevelUpdate =
  upd_price :: Price
  upd_quantity :: Quantity

record BookMessage =
  msg_symbol :: string
  msg_type :: BookMessageType
  msg_bids :: "BookLevelUpdate list"
  msg_asks :: "BookLevelUpdate list"
  msg_checksum :: u32

record 'v simdjson =
  js_iterate :: "string \<Rightarrow> 'v result"
  js_field :: "'v \<Rightarrow> string \<Rightarrow> 'v result"
  js_get_string :: "'v \<Rightarrow> string result"
  js_get_array :: "'v \<Rightarrow> 'v result list result"
  js_at :: "'v result list \<Rightarrow> nat \<Rightarrow> 'v result"
  js_get_uint64 :: "'v \<Rightarrow> u64 result"
  js_raw_token :: "'v \<Rightarrow> string result"

definition bind_result :: "'a result \<Rightarrow> ('a \<Rightarrow> 'b result) \<Rightarrow> 'b result" where
  "bind_result m f = (case m of Inl e \<Rightarrow> Inl e | Inr x \<Rightarrow> f x)"

definition field_string :: "'v simdjson \<Rightarrow> 'v \<Rightarrow> string \<Rightarrow> string result" where
  "field_string js v key = bind_result (js_field js v key) (js_get_string js)"

definition field_array :: "'v simdjson \<Rightarrow> 'v \<Rightarrow> string \<Rightarrow> 'v result list result" where
  "field_array js v key = bind_result (js_field js v key) (js_get_array js)"

definition parseLevel :: "'v simdjson \<Rightarrow> 'v \<Rightarrow> BookLevelUpdate result" where
  "parseLevel js level =
     bind_result (bind_result (js_field js level ''price'') (js_raw_token js)) (\<lambda>priceToken.
     bind_result (bind_result (js_field js level ''qty'') (js_raw_token js)) (\<lambda>qtyToken.
     bind_result (price_fromDecimalString priceToken) (\<lambda>p.
     bind_result (qty_fromDecimalString qtyToken) (\<lambda>q.
     Inr \<lparr>upd_price = p, upd_quantity = q\<rparr>))))"

fun parseLevels :: "'v simdjson \<Rightarrow> 'v result list \<Rightarrow> BookLevelUpdate list result" where
  "parseLevels js [] = Inr []"
| "parseLevels js (level # levels) =
     bind_result level (\<lambda>v. bind_result (parseLevel js v) (\<lambda>l. bind_result (parseLevels js levels) (\<lambda>ls. Inr (l # ls))))"

definition parseType :: "string \<Rightarrow> BookMessageType result" where
  "parseType typeStr =
     (if typeStr = ''snapshot'' then Inr Snapshot
      else if typeStr = ''update'' then Inr Update
      else Inl (Simdjson_error ''INCORRECT_TYPE''))"

definition parseEntry :: "'v simdjson \<Rightarrow> BookMessageType \<Rightarrow> 'v \<Rightarrow> BookMessage result" where
  "parseEntry js type entry =
     bind_result (field_string js entry ''symbol'') (\<lambda>symbol.
     bind_result (bind_result (field_array js entry ''bids'') (parseLevels js)) (\<lambda>bs.
     bind_result (bind_result (field_array js entry ''asks'') (parseLevels js)) (\<lambda>as.
     bind_result (bind_result (js_field js entry ''checksum'') (js_get_uint64 js)) (\<lambda>checksum.
     Inr \<lparr>msg_symbol = symbol, msg_type = type, msg_bids = bs, msg_asks = as, msg_checksum = ucast checksum\<rparr>))))"

text \<open>
  An error of the \<^verbatim>\<open>channel\<close> access is caught when it is a \<^verbatim>\<open>simdjson_error\<close>; no other
  error is.
\<close>

definition parseBookMessage :: "'v simdjson \<Rightarrow> string \<Rightarrow> BookMessage option result" where
  "parseBookMessage js raw =
     bind_result (js_iterate js raw) (\<lambda>doc.
     case field_string js doc ''channel'' of
       Inl (Simdjson_error m) \<Rightarrow> Inr None
     | Inl e \<Rightarrow> Inl e
     | Inr channel \<Rightarrow>
         if channel \<noteq> ''book'' then Inr None
         else bind_result (field_string js doc ''type'') (\<lambda>typeStr.
              bind_result (parseType typeStr) (\<lambda>type.
              bind_result (bind_result (field_array js doc ''data'') (\<lambda>data. js_at js data 0)) (\<lambda>entry.
              bind_result (parseEntry js type entry) (\<lambda>message. Inr (Some message))))))"

section \<open>Specification vocabulary\<close>

text \<open>A JSON level whose two tokens are decimal texts of the update's price and quantity.\<close>

definition presents_level :: "'v simdjson \<Rightarrow> 'v result \<Rightarrow> BookLevelUpdate \<Rightarrow> bool" where
  "presents_level js lv upd \<longleftrightarrow> (\<exists>v vp vq tp tq. lv = Inr v
     \<and> js_field js v ''price'' = Inr vp \<and> js_raw_token js vp = Inr tp
     \<and> js_field js v ''qty'' = Inr vq \<and> js_raw_token js vq = Inr tq
     \<and> decimal_value PRICE_SCALE_DIGITS tp = Some (price_ticks (upd_price upd)) \<and> in_s64 (price_ticks (upd_price upd))
     \<and> decimal_value QUANTITY_SCALE_DIGITS tq = Some (qty_ticks (upd_quantity upd)) \<and> in_s64 (qty_ticks (upd_quantity upd)))"

definition type_name :: "BookMessageType \<Rightarrow> string" where
  "type_name type = (case type of Snapshot \<Rightarrow> ''snapshot'' | Update \<Rightarrow> ''update'')"

definition presents :: "'v simdjson \<Rightarrow> string \<Rightarrow> BookMessage \<Rightarrow> bool" where
  "presents js raw msg \<longleftrightarrow> (\<exists>doc vdata entry bs as vc c. js_iterate js raw = Inr doc
     \<and> field_string js doc ''channel'' = Inr ''book'' \<and> field_string js doc ''type'' = Inr (type_name (msg_type msg))
     \<and> field_array js doc ''data'' = Inr vdata \<and> js_at js vdata 0 = Inr entry
     \<and> field_string js entry ''symbol'' = Inr (msg_symbol msg)
     \<and> field_array js entry ''bids'' = Inr bs \<and> list_all2 (presents_level js) bs (msg_bids msg)
     \<and> field_array js entry ''asks'' = Inr as \<and> list_all2 (presents_level js) as (msg_asks msg)
     \<and> js_field js entry ''checksum'' = Inr vc \<and> js_get_uint64 js vc = Inr c \<and> ucast c = msg_checksum msg)"

section \<open>Lemmas\<close>

lemma bind_result_simps [simp]: "bind_result (Inr x) f = f x" "bind_result (Inl e) f = Inl e"
  by (simp_all add: bind_result_def)

lemma bind_result_Inr_iff: "bind_result m f = Inr y \<longleftrightarrow> (\<exists>x. m = Inr x \<and> f x = Inr y)"
  by (cases m) auto

lemma price_from_value:
  "decimal_value PRICE_SCALE_DIGITS s = Some v \<Longrightarrow> in_s64 v \<Longrightarrow> price_fromDecimalString s = Inr (Price v)"
  using parseFixedPoint_Some [of PRICE_SCALE_DIGITS s v] by (simp add: price_fromDecimalString_def scale_is_power(1))

lemma qty_from_value:
  "decimal_value QUANTITY_SCALE_DIGITS s = Some v \<Longrightarrow> in_s64 v \<Longrightarrow> qty_fromDecimalString s = Inr (Quantity v)"
  using parseFixedPoint_Some [of QUANTITY_SCALE_DIGITS s v] by (simp add: qty_fromDecimalString_def scale_is_power(2))

lemma parseLevel_presents: "presents_level js lv upd \<Longrightarrow> bind_result lv (parseLevel js) = Inr upd"
  by (auto simp: presents_level_def parseLevel_def price_from_value qty_from_value)

lemma parseLevels_presents: "list_all2 (presents_level js) lvs upds \<Longrightarrow> parseLevels js lvs = Inr upds"
proof (induction rule: list_all2_induct)
  case (Cons lv lvs upd upds)
  from parseLevel_presents [OF Cons.hyps(1)] obtain v where "lv = Inr v" "parseLevel js v = Inr upd"
    by (auto simp: bind_result_Inr_iff)
  then show ?case using Cons.IH by simp
qed simp

lemma parseType_name: "parseType (type_name type) = Inr type"
  by (cases type) (simp_all add: parseType_def type_name_def)

lemma presents_parsed: "presents js raw msg \<Longrightarrow> parseBookMessage js raw = Inr (Some msg)"
  by (auto simp: presents_def parseBookMessage_def parseEntry_def parseType_name dest!: parseLevels_presents)

text \<open>Every value that comes out of the parser is in the range of 64-bit ticks.\<close>

lemma parseLevel_in_range:
  assumes "parseLevel js v = Inr upd"
  shows "price_ok (upd_price upd)" and "qty_ok (upd_quantity upd)"
proof -
  obtain tp tq p q where "price_fromDecimalString tp = Inr p" "qty_fromDecimalString tq = Inr q"
    "upd = \<lparr>upd_price = p, upd_quantity = q\<rparr>"
    using assms by (auto simp: bind_result_Inr_iff parseLevel_def)
  then show "price_ok (upd_price upd)" "qty_ok (upd_quantity upd)"
    using price_text.parse_representable qty_text.parse_representable by simp_all
qed

lemma parseLevels_in_range:
  "parseLevels js lvs = Inr upds \<Longrightarrow> upd \<in> set upds \<Longrightarrow> price_ok (upd_price upd) \<and> qty_ok (upd_quantity upd)"
proof (induction lvs arbitrary: upds)
  case (Cons lv lvs)
  then obtain v l ls where "parseLevel js v = Inr l" "parseLevels js lvs = Inr ls" "upds = l # ls"
    by (auto simp: bind_result_Inr_iff)
  then show ?case using Cons.IH Cons.prems(2) parseLevel_in_range [of js v l] by auto
qed simp

definition message_in_range :: "BookMessage \<Rightarrow> bool" where
  "message_in_range msg \<longleftrightarrow> (\<forall>upd \<in> set (msg_bids msg @ msg_asks msg). price_ok (upd_price upd) \<and> qty_ok (upd_quantity upd))"

definition parsed_in_range :: "BookMessage option result \<Rightarrow> bool" where
  "parsed_in_range parsed \<longleftrightarrow> (case parsed of Inr (Some msg) \<Rightarrow> message_in_range msg | _ \<Rightarrow> True)"

lemma parseBookMessage_Some:
  assumes "parseBookMessage js raw = Inr (Some msg)"
  obtains doc entry bs as where "js_iterate js raw = Inr doc" and "field_string js doc ''channel'' = Inr ''book''"
    and "field_string js doc ''type'' = Inr (type_name (msg_type msg))"
    and "parseLevels js bs = Inr (msg_bids msg)" and "parseLevels js as = Inr (msg_asks msg)"
    and "field_string js entry ''symbol'' = Inr (msg_symbol msg)"
proof -
  obtain doc where doc: "js_iterate js raw = Inr doc" using assms by (auto simp: parseBookMessage_def bind_result_Inr_iff)
  have ch: "field_string js doc ''channel'' = Inr ''book''"
    using assms doc by (auto simp: parseBookMessage_def split: sum.splits cpp_exception.splits if_splits)
  obtain ts type entry where ts: "field_string js doc ''type'' = Inr ts" "parseType ts = Inr type"
    and en: "parseEntry js type entry = Inr msg"
    using assms doc ch by (auto simp: parseBookMessage_def bind_result_Inr_iff)
  obtain bs as where "parseLevels js bs = Inr (msg_bids msg)" "parseLevels js as = Inr (msg_asks msg)"
    "field_string js entry ''symbol'' = Inr (msg_symbol msg)" "msg_type msg = type"
    using en by (auto simp: parseEntry_def bind_result_Inr_iff)
  moreover have "ts = type_name type"
    using ts(2) by (auto simp: parseType_def type_name_def split: if_splits)
  ultimately show ?thesis using doc ch ts(1) by (intro that [of doc bs as entry]) auto
qed

lemma parse_in_range: "parsed_in_range (parseBookMessage js raw)"
proof -
  have "message_in_range msg" if p: "parseBookMessage js raw = Inr (Some msg)" for msg
  proof -
    from p obtain bs as where l: "parseLevels js bs = Inr (msg_bids msg)" "parseLevels js as = Inr (msg_asks msg)"
      by (rule parseBookMessage_Some)
    show ?thesis using parseLevels_in_range [OF l(1)] parseLevels_in_range [OF l(2)] by (auto simp: message_in_range_def)
  qed
  then show ?thesis by (auto simp: parsed_in_range_def split: sum.splits option.splits)
qed

section \<open>Properties\<close>

text \<open>A concrete JSON library for the witnesses: values are trees with raw scalar tokens.\<close>

datatype tree = Tok string | Num u64 | Obj "(string \<times> tree) list" | Arr "tree list"

definition tree_js :: "tree \<Rightarrow> tree simdjson" where
  "tree_js t = \<lparr>js_iterate = (\<lambda>raw. Inr t),
     js_field = (\<lambda>v k. case v of Obj fs \<Rightarrow> (case map_of fs k of None \<Rightarrow> Inl (Simdjson_error ''NO_SUCH_FIELD'') | Some w \<Rightarrow> Inr w)
        | _ \<Rightarrow> Inl (Simdjson_error ''INCORRECT_TYPE'')),
     js_get_string = (\<lambda>v. case v of Tok s \<Rightarrow> Inr s | _ \<Rightarrow> Inl (Simdjson_error ''INCORRECT_TYPE'')),
     js_get_array = (\<lambda>v. case v of Arr ts \<Rightarrow> Inr (map Inr ts) | _ \<Rightarrow> Inl (Simdjson_error ''INCORRECT_TYPE'')),
     js_at = (\<lambda>ts n. if n < length ts then ts ! n else Inl (Simdjson_error ''INDEX_OUT_OF_BOUNDS'')),
     js_get_uint64 = (\<lambda>v. case v of Num n \<Rightarrow> Inr n | _ \<Rightarrow> Inl (Simdjson_error ''INCORRECT_TYPE'')),
     js_raw_token = (\<lambda>v. case v of Tok s \<Rightarrow> Inr s | _ \<Rightarrow> Inl (Simdjson_error ''INCORRECT_TYPE''))\<rparr>"

definition demo_tree :: tree where
  "demo_tree = Obj [(''channel'', Tok ''book''), (''type'', Tok ''update''),
     (''data'', Arr [Obj [(''symbol'', Tok ''BTC/USD''), (''checksum'', Num 7), (''asks'', Arr []),
        (''bids'', Arr [Obj [(''price'', Tok ''2.5''), (''qty'', Tok ''1'')]])]])]"

definition demo_msg :: BookMessage where
  "demo_msg = \<lparr>msg_symbol = ''BTC/USD'', msg_type = Update,
     msg_bids = [\<lparr>upd_price = Price 25000000000, upd_quantity = Quantity 10000000000\<rparr>], msg_asks = [], msg_checksum = 7\<rparr>"

lemma demo_presents: "presents (tree_js demo_tree) raw demo_msg"
  by (simp add: presents_def field_string_def field_array_def tree_js_def demo_tree_def demo_msg_def type_name_def
      presents_level_def in_s64_def unsigned_value_def PRICE_SCALE_DIGITS_def QUANTITY_SCALE_DIGITS_def
      is_digit_def char_digit_def digits_val_def)

text \<open>
  C18 (functional): a text in which the JSON library finds a book message, its level tokens
  being decimal texts with at most ten fractional digits and 64-bit values, is parsed to
  exactly that message, levels in order.
\<close>

theorem parseBookMessage_presented:
  assumes "presents js raw msg"
  shows "parseBookMessage js raw = Inr (Some msg)"
  using assms by (rule presents_parsed)

theorem parseBookMessage_presented_witness:
  "parseBookMessage (tree_js demo_tree) ''raw'' = Inr (Some demo_msg)"
  using parseBookMessage_presented [OF demo_presents] .

text \<open>
  A text yields a message only if its channel is \<^verbatim>\<open>book\<close> and its type one of the
  two known ones; every price and quantity in it is then a 64-bit tick count. Without a
  channel, or with another one, the text is skipped; an unknown type is an error.
\<close>

lemma parseBookMessage_outcomes:
  assumes "js_iterate js raw = Inr doc"
  shows "(\<forall>msg. parseBookMessage js raw = Inr (Some msg) \<longrightarrow>
       field_string js doc ''channel'' = Inr ''book'' \<and> field_string js doc ''type'' = Inr (type_name (msg_type msg))
       \<and> message_in_range msg)
    \<and> (\<forall>m. field_string js doc ''channel'' = Inl (Simdjson_error m) \<longrightarrow> parseBookMessage js raw = Inr None)
    \<and> (\<forall>c. field_string js doc ''channel'' = Inr c \<and> c \<noteq> ''book'' \<longrightarrow> parseBookMessage js raw = Inr None)
    \<and> (\<forall>ts. field_string js doc ''channel'' = Inr ''book'' \<and> field_string js doc ''type'' = Inr ts
         \<and> ts \<notin> {''snapshot'', ''update''} \<longrightarrow> parseBookMessage js raw = Inl (Simdjson_error ''INCORRECT_TYPE''))"
proof (intro conjI allI impI)
  fix msg assume p: "parseBookMessage js raw = Inr (Some msg)"
  from p obtain doc' entry bs as where d: "js_iterate js raw = Inr doc'" "field_string js doc' ''channel'' = Inr ''book''"
    "field_string js doc' ''type'' = Inr (type_name (msg_type msg))"
    by (rule parseBookMessage_Some)
  have "doc' = doc" using assms d(1) by simp
  with d show "field_string js doc ''channel'' = Inr ''book''" "field_string js doc ''type'' = Inr (type_name (msg_type msg))"
    by simp_all
  show "message_in_range msg" using p parse_in_range [of js raw] by (simp add: parsed_in_range_def)
qed (use assms in \<open>auto simp: parseBookMessage_def parseType_def\<close>)

end
