(* ===== verification/Asset_Pairs.thy ===== *)
theory Asset_Pairs
  imports Kraken_Parser
begin

text \<open>
  The precision of a symbol, \<^verbatim>\<open>engine/include/engine/market_data/kraken_asset_pairs.hpp\<close> and
  \<^verbatim>\<open>engine/src/market_data/kraken_asset_pairs.cpp\<close>: the request to Kraken's REST interface,
  with the symbol percent-encoded, and what is read from the answer.

  The HTTPS exchange (name resolution, TLS, the timeout guard, the HTTP library) is a
  parameter that gives its outcome for a request target. The JSON library is the parameter
  of the parser theory, extended by the accessors used here; an element of a list is a
  result because advancing an iterator of the library may fail.
\<close>

section \<open>Definitions\<close>

record SymbolPrecision =
  pairDecimals :: int
  lotDecimals :: int

record 'v simdjson_objects = "'v simdjson" +
  js_get_object :: "'v \<Rightarrow> 'v result list result"
  js_count_elements :: "'v result list \<Rightarrow> nat result"
  js_get_int64 :: "'v \<Rightarrow> int result"

datatype http_outcome = Sni_failed | Http_threw cpp_exception | Http_response int string

type_synonym https = "string \<Rightarrow> http_outcome"

definition s32 :: "int \<Rightarrow> int" where
  "s32 x = (x + 2 ^ 31) mod 2 ^ 32 - 2 ^ 31"

text \<open>\<^verbatim>\<open>std::isalnum\<close> in the C locale, and the characters that are not encoded.\<close>

definition is_alnum :: "char \<Rightarrow> bool" where
  "is_alnum c \<longleftrightarrow> (let n = (of_char c :: nat) in 48 \<le> n \<and> n \<le> 57 \<or> 65 \<le> n \<and> n \<le> 90 \<or> 97 \<le> n \<and> n \<le> 122)"

definition unreserved :: "char \<Rightarrow> bool" where
  "unreserved c \<longleftrightarrow> is_alnum c \<or> c = CHR ''-'' \<or> c = CHR ''_'' \<or> c = CHR ''.'' \<or> c = CHR ''~''"

definition hex_char :: "nat \<Rightarrow> char" where
  "hex_char d = char_of (if d < 10 then 48 + d else 55 + d)"

text \<open>An integer below 256 printed with \<^verbatim>\<open>std::hex\<close>, \<^verbatim>\<open>std::uppercase\<close>, width 2 and fill character 0.\<close>

definition hex2 :: "nat \<Rightarrow> string" where
  "hex2 n = [hex_char (n div 16), hex_char (n mod 16)]"

fun urlEncode :: "string \<Rightarrow> string" where
  "urlEncode [] = []"
| "urlEncode (c # cs) = (if unreserved c then [c] else CHR ''%'' # hex2 (of_char c)) @ urlEncode cs"

definition read_pair :: "'v simdjson_objects \<Rightarrow> 'v \<Rightarrow> SymbolPrecision result" where
  "read_pair js pairInfo =
     bind_result (bind_result (js_field js pairInfo ''pair_decimals'') (js_get_int64 js)) (\<lambda>pair.
     bind_result (bind_result (js_field js pairInfo ''lot_decimals'') (js_get_int64 js)) (\<lambda>lot.
       Inr \<lparr>pairDecimals = s32 pair, lotDecimals = s32 lot\<rparr>))"

text \<open>What is read from the body of an answer: the first pair of the result, unless errors are listed.\<close>

definition read_precision :: "'v simdjson_objects \<Rightarrow> string \<Rightarrow> SymbolPrecision option result" where
  "read_precision js body =
     bind_result (js_iterate js body) (\<lambda>doc.
     bind_result (bind_result (js_field js doc ''error'') (js_get_array js)) (\<lambda>errors.
     bind_result (js_count_elements js errors) (\<lambda>n.
       if n > 0 then Inr None
       else bind_result (bind_result (js_field js doc ''result'') (js_get_object js)) (\<lambda>result.
         case result of
           [] \<Rightarrow> Inr None
         | field # _ \<Rightarrow>
             bind_result field (\<lambda>pairInfo.
             bind_result (js_get_object js pairInfo) (\<lambda>_.
             bind_result (read_pair js pairInfo) (\<lambda>precision. Inr (Some precision))))))))"

definition fetchKrakenAssetPairPrecision :: "'v simdjson_objects \<Rightarrow> https \<Rightarrow> string \<Rightarrow> SymbolPrecision option" where
  "fetchKrakenAssetPairPrecision js http symbol =
     (case http (''/0/public/AssetPairs?pair='' @ urlEncode symbol) of
        Sni_failed \<Rightarrow> None
      | Http_threw e \<Rightarrow> None
      | Http_response status body \<Rightarrow>
          if status \<noteq> 200 then None
          else (case read_precision js body of Inl e \<Rightarrow> None | Inr precision \<Rightarrow> precision))"

section \<open>Lemmas\<close>

text \<open>The reverse of the encoding, as a server performs it.\<close>

definition hex_value :: "char \<Rightarrow> nat" where
  "hex_value c = (let n = of_char c in if n < 58 then n - 48 else n - 55)"

fun url_decode :: "string \<Rightarrow> string" where
  "url_decode (c # a # b # cs) =
     (if c = CHR ''%'' then char_of (16 * hex_value a + hex_value b) # url_decode cs else c # url_decode (a # b # cs))"
| "url_decode cs = cs"

lemma of_hex_char [simp]: "d < 16 \<Longrightarrow> of_char (hex_char d) = (if d < 10 then 48 + d else 55 + d)"
  by (simp add: hex_char_def)

lemma hex_value_char [simp]: "d < 16 \<Longrightarrow> hex_value (hex_char d) = d"
  by (simp add: hex_value_def Let_def)

lemma unreserved_percent [simp]: "\<not> unreserved (CHR ''%'')"
  by (simp add: unreserved_def is_alnum_def)

lemma url_decode_plain: "c \<noteq> CHR ''%'' \<Longrightarrow> url_decode (c # cs) = c # url_decode cs"
  by (cases cs rule: url_decode.cases) simp_all

lemma url_decode_encode: "url_decode (urlEncode cs) = cs"
proof (induction cs)
  case (Cons c cs)
  have d: "of_char c div 16 < (16 :: nat)" by (simp add: div_less_iff_less_mult)
  show ?case
  proof (cases "unreserved c")
    case True
    then have "c \<noteq> CHR ''%''" by auto
    then show ?thesis using True Cons by (simp add: url_decode_plain)
  next
    case False
    have "url_decode (CHR ''%'' # hex2 (of_char c) @ urlEncode cs)
        = char_of (16 * (of_char c div 16) + of_char c mod (16 :: nat)) # url_decode (urlEncode cs)"
      using d by (simp add: hex2_def)
    then show ?thesis using False Cons by simp
  qed
qed simp

lemma hex_char_unreserved: "d < 16 \<Longrightarrow> unreserved (hex_char d)"
  by (auto simp: unreserved_def is_alnum_def Let_def)

lemma urlEncode_safe: "c \<in> set (urlEncode cs) \<Longrightarrow> unreserved c \<or> c = CHR ''%''"
proof (induction cs)
  case (Cons x cs)
  have "of_char x div 16 < (16 :: nat)" by (simp add: div_less_iff_less_mult)
  then show ?case using Cons hex_char_unreserved by (auto simp: hex2_def split: if_splits)
qed simp

section \<open>Properties\<close>

text \<open>
  The encoded symbol in the request target decodes to the symbol, whatever
  bytes it has, and consists of unreserved characters and percent signs only.
\<close>

lemma urlEncode_roundtrip:
  "url_decode (urlEncode symbol) = symbol \<and> list_all (\<lambda>c. unreserved c \<or> c = CHR ''%'') (urlEncode symbol)"
  using url_decode_encode urlEncode_safe by (simp add: list_all_iff)

end
