(* ===== verification/Checksum.thy ===== *)
theory Checksum
  imports Order_Book
begin

text \<open>
  The book checksum, \<^verbatim>\<open>engine/include/engine/book/checksum.hpp\<close> and
  \<^verbatim>\<open>engine/src/book/checksum.cpp\<close>. The CRC itself is zlib's \<^verbatim>\<open>::crc32\<close>, which is a parameter
  \<open>zlib_crc32\<close> of the definitions (\<open>None\<close> stands for the \<^verbatim>\<open>Z_NULL\<close> buffer). What the code
  computes is the text the CRC is taken over; the lemmas show that this text is the
  concatenation of plain decimal integers the exchange prescribes.
\<close>

section \<open>Definitions\<close>

definition CHECKSUM_DEPTH :: nat where "CHECKSUM_DEPTH = 10"

type_synonym zlib_crc32 = "u64 \<Rightarrow> string option \<Rightarrow> u64"

definition crc32 :: "zlib_crc32 \<Rightarrow> string \<Rightarrow> u32" where
  "crc32 zlib data = (let crc = zlib 0 None in ucast (zlib crc (Some data)))"

definition stripForChecksum :: "string \<Rightarrow> string" where
  "stripForChecksum decimalDigits =
     (let result = filter (\<lambda>c. c \<noteq> CHR ''.'') decimalDigits;
          rest = dropWhile (\<lambda>c. c = CHR ''0'') result
      in if rest = [] then ''0'' else rest)"

definition formatAtNativePrecision :: "int \<Rightarrow> int \<Rightarrow> nat \<Rightarrow> int \<Rightarrow> string" where
  "formatAtNativePrecision ticks scale scaleDigits nativeDecimals =
     (let full = formatFixedPoint ticks scale scaleDigits;
          dot = (case find_char (CHR ''.'') full 0 of None \<Rightarrow> - 1 | Some d \<Rightarrow> (of_nat d :: u64))
      in if nativeDecimals = 0 then take (unat dot) full
         else take (unat (dot + 1 + word_of_int nativeDecimals)) full)"

definition level_text :: "int \<Rightarrow> int \<Rightarrow> PriceLevel \<Rightarrow> string" where
  "level_text priceDecimals quantityDecimals l =
     stripForChecksum (formatAtNativePrecision (price_ticks (level_price l)) PRICE_SCALE PRICE_SCALE_DIGITS priceDecimals) @
     stripForChecksum (formatAtNativePrecision (qty_ticks (level_quantity l)) QUANTITY_SCALE QUANTITY_SCALE_DIGITS quantityDecimals)"

fun appendLevels :: "string \<Rightarrow> PriceLevel list \<Rightarrow> nat \<Rightarrow> int \<Rightarrow> int \<Rightarrow> string" where
  "appendLevels buffer levels 0 priceDecimals quantityDecimals = buffer"
| "appendLevels buffer [] (Suc n) priceDecimals quantityDecimals = buffer"
| "appendLevels buffer (l # ls) (Suc n) priceDecimals quantityDecimals =
     appendLevels (buffer @ level_text priceDecimals quantityDecimals l) ls n priceDecimals quantityDecimals"

definition computeBookChecksum :: "zlib_crc32 \<Rightarrow> PriceLevel list \<Rightarrow> PriceLevel list \<Rightarrow> int \<Rightarrow> int \<Rightarrow> u32" where
  "computeBookChecksum zlib askLevels bidLevels priceDecimals quantityDecimals =
     (let buffer = appendLevels [] askLevels CHECKSUM_DEPTH priceDecimals quantityDecimals;
          buffer = appendLevels buffer bidLevels CHECKSUM_DEPTH priceDecimals quantityDecimals
      in crc32 zlib buffer)"

text \<open>What the exchange prescribes: price and quantity as integers in their native unit.\<close>

definition native_units :: "int \<Rightarrow> nat \<Rightarrow> nat" where
  "native_units ticks decimals = nat ticks div 10 ^ (10 - decimals)"

definition level_units :: "nat \<Rightarrow> nat \<Rightarrow> PriceLevel \<Rightarrow> string" where
  "level_units pd qd l = to_string (native_units (price_ticks (level_price l)) pd)
     @ to_string (native_units (qty_ticks (level_quantity l)) qd)"

definition level_in_range :: "PriceLevel \<Rightarrow> bool" where
  "level_in_range l \<longleftrightarrow> 0 \<le> price_ticks (level_price l) \<and> in_s64 (price_ticks (level_price l))
     \<and> 0 \<le> qty_ticks (level_quantity l) \<and> in_s64 (qty_ticks (level_quantity l))"

section \<open>Lemmas\<close>

lemma appendLevels_eq: "appendLevels b ls n pd qd = b @ concat (map (level_text pd qd) (take n ls))"
  by (induction b ls n pd qd rule: appendLevels.induct) simp_all

lemma computeBookChecksum_eq:
  "computeBookChecksum zlib as bs pd qd =
     crc32 zlib (concat (map (level_text pd qd) (take CHECKSUM_DEPTH as @ take CHECKSUM_DEPTH bs)))"
  by (simp add: computeBookChecksum_def appendLevels_eq)

subsection \<open>Digit strings are determined by their value\<close>

lemma digit_char_char_digit: "is_digit c \<Longrightarrow> digit_char (nat (char_digit c)) = c"
  by (simp add: is_digit_def digit_char_def char_digit_def nat_diff_distrib)

lemma char_digit_zero: "is_digit c \<Longrightarrow> char_digit c = 0 \<longleftrightarrow> c = CHR ''0''"
proof
  assume "is_digit c" and "char_digit c = 0"
  have "char_of (of_char (CHR ''0'') :: nat) = CHR ''0''" by (rule char_of_char)
  then have "char_of (48 :: nat) = CHR ''0''" by simp
  with \<open>is_digit c\<close> \<open>char_digit c = 0\<close> digit_char_char_digit [of c] show "c = CHR ''0''"
    by (simp add: digit_char_def)
qed (simp add: char_digit_def)

lemma digits_val_pos:
  assumes "list_all is_digit (c # cs)" and "c \<noteq> CHR ''0''"
  shows "0 < digits_val (c # cs)"
proof -
  have "0 < char_digit c" using assms char_digit_range [of c] char_digit_zero [of c] by auto
  moreover have "0 \<le> digits_val cs" using assms(1) by (simp add: digits_val_nonneg)
  ultimately show ?thesis by (simp add: add_pos_nonneg)
qed

lemma to_string_digits_val:
  assumes "list_all is_digit ds" and "ds \<noteq> []" and "hd ds \<noteq> CHR ''0''"
  shows "to_string (nat (digits_val ds)) = ds"
  using assms
proof (induction ds rule: rev_induct)
  case Nil
  then show ?case by simp
next
  case (snoc c ds)
  have c: "is_digit c" using snoc.prems(1) by simp
  then have d: "0 \<le> char_digit c" "char_digit c \<le> 9" using char_digit_range by auto
  show ?case
  proof (cases "ds = []")
    case True
    with c d show ?thesis by (simp add: to_string.simps digit_char_char_digit)
  next
    case False
    with snoc.prems have hd: "hd ds \<noteq> CHR ''0''" and ds: "list_all is_digit ds" by auto
    have pos: "0 < digits_val ds" using digits_val_pos ds hd False by (cases ds) auto
    define v where "v = nat (digits_val ds)"
    have val: "nat (digits_val (ds @ [c])) = v * 10 + nat (char_digit c)"
      using pos d by (simp add: v_def nat_add_distrib nat_mult_distrib)
    have "nat (char_digit c) < 10" using d by simp
    then have "(v * 10 + nat (char_digit c)) div 10 = v" "(v * 10 + nat (char_digit c)) mod 10 = nat (char_digit c)"
      by simp_all
    moreover have "0 < v" using pos by (simp add: v_def)
    ultimately have "to_string (nat (digits_val (ds @ [c]))) = to_string v @ [digit_char (nat (char_digit c))]"
      unfolding val by (subst to_string.simps) simp
    with snoc.IH [OF ds False hd] show ?thesis
      by (simp add: v_def digit_char_char_digit [OF c])
  qed
qed

lemma digits_val_dropWhile: "digits_val (dropWhile (\<lambda>c. c = CHR ''0'') ds) = digits_val ds"
  by (induction ds) (auto simp: char_digit_def)

lemma strip_digits:
  assumes "list_all is_digit ds"
  shows "(let rest = dropWhile (\<lambda>c. c = CHR ''0'') ds in if rest = [] then ''0'' else rest) = to_string (nat (digits_val ds))"
proof (cases "dropWhile (\<lambda>c. c = CHR ''0'') ds = []")
  case True
  have "digits_val ds = digits_val (dropWhile (\<lambda>c. c = CHR ''0'') ds)"
    by (rule digits_val_dropWhile [symmetric])
  also have "\<dots> = 0" unfolding True by simp
  finally have "digits_val ds = 0" .
  moreover have "char_of (of_char (CHR ''0'') :: nat) = CHR ''0''" by (rule char_of_char)
  ultimately show ?thesis using True by (simp add: to_string.simps digit_char_def)
next
  case False
  have "list_all is_digit (dropWhile (\<lambda>c. c = CHR ''0'') ds)"
    using assms by (auto simp: list_all_iff dest: set_dropWhileD)
  moreover have "hd (dropWhile (\<lambda>c. c = CHR ''0'') ds) \<noteq> CHR ''0''"
    using hd_dropWhile [OF False] by simp
  ultimately have "to_string (nat (digits_val ds)) = dropWhile (\<lambda>c. c = CHR ''0'') ds"
    using to_string_digits_val [OF _ False] digits_val_dropWhile [of ds] by simp
  then show ?thesis unfolding Let_def if_not_P [OF False] ..
qed

lemma filter_dot_digits: "list_all is_digit ds \<Longrightarrow> filter (\<lambda>c. c \<noteq> CHR ''.'') ds = ds"
  by (induction ds) (auto dest: is_digit_neq)

subsection \<open>Truncation to the native precision\<close>

lemma digits_val_take:
  assumes "list_all is_digit fs" and "d \<le> length fs"
  shows "digits_val (take d fs) = digits_val fs div 10 ^ (length fs - d)"
proof -
  have "digits_val fs = digits_val (take d fs @ drop d fs)" by simp
  also have "\<dots> = digits_val (take d fs) * 10 ^ (length fs - d) + digits_val (drop d fs)"
    by (simp only: digits_val_simps length_drop)
  finally have "digits_val fs = digits_val (take d fs) * 10 ^ (length fs - d) + digits_val (drop d fs)" .
  moreover have "list_all is_digit (drop d fs)" using assms(1) by (metis append_take_drop_id list_all_append)
  then have "0 \<le> digits_val (drop d fs)" "digits_val (drop d fs) < 10 ^ (length fs - d)"
    using digits_val_nonneg digits_val_less [of "drop d fs"] by auto
  ultimately show ?thesis by simp
qed

lemma formatAtNativePrecision_eq:
  assumes "in_s64 t" and "0 \<le> t" and "d \<le> 10"
  shows "formatAtNativePrecision t (10 ^ 10) 10 (int d) =
     to_string (nat t div 10 ^ 10) @ (if d = 0 then [] else CHR ''.'' # take d (fraction_digits 10 (nat t mod 10 ^ 10)))"
proof -
  define a where "a = to_string (nat t div 10 ^ 10)"
  define f where "f = fraction_digits 10 (nat t mod 10 ^ 10)"
  have full: "formatFixedPoint t (10 ^ 10) 10 = a @ CHR ''.'' # f"
    using formatFixedPoint_eq [OF assms(1), of 10] assms(2) by (simp add: a_def f_def)
  have dot: "find_char (CHR ''.'') (a @ CHR ''.'' # f) 0 = Some (length a)"
    by (simp add: find_char_def a_def takeWhile_digits_dot)
  have "nat t < 2 ^ 63" using assms(1,2) by (simp add: in_s64_def nat_less_iff)
  then have "nat t div 10 ^ 10 < 10 ^ 10" by (simp add: div_less_iff_less_mult)
  then have la: "length a \<le> 10" unfolding a_def by (rule length_to_string [rotated]) simp
  have u1: "unat (of_nat (length a) :: u64) = length a"
    using la by (simp add: unat_of_nat)
  have "(of_nat (length a) + 1 + word_of_int (int d) :: u64) = of_nat (length a + 1 + d)" by simp
  then have u2: "unat (of_nat (length a) + 1 + word_of_int (int d) :: u64) = length a + 1 + d"
    using la assms(3) by (simp only: unat_of_nat) simp
  show ?thesis
    unfolding formatAtNativePrecision_def full Let_def dot option.case u1 u2 a_def [symmetric] f_def [symmetric]
    by simp
qed

lemma strip_native:
  assumes "in_s64 t" and "0 \<le> t" and "d \<le> 10"
  shows "stripForChecksum (formatAtNativePrecision t (10 ^ 10) 10 (int d)) = to_string (native_units t d)"
proof -
  define a where "a = to_string (nat t div 10 ^ 10)"
  define f where "f = fraction_digits 10 (nat t mod 10 ^ 10)"
  have f: "list_all is_digit f" "digits_val f = int (nat t mod 10 ^ 10)" "length f = 10"
    using fraction_digits_props [of 10 "nat t mod 10 ^ 10"] by (simp_all add: f_def)
  have tk: "list_all is_digit (take d f)" using f(1) by (metis append_take_drop_id list_all_append)
  have flt: "filter (\<lambda>c. c \<noteq> CHR ''.'') (formatAtNativePrecision t (10 ^ 10) 10 (int d)) = a @ take d f"
    unfolding formatAtNativePrecision_eq [OF assms] a_def [symmetric] f_def [symmetric]
    using tk by (simp add: a_def filter_dot_digits)
  have split: "nat t div 10 ^ 10 * 10 ^ d + nat t mod 10 ^ 10 div 10 ^ (10 - d) = native_units t d"
  proof -
    have p: "10 ^ 10 = 10 ^ d * (10 ^ (10 - d) :: nat)" using assms(3) by (simp flip: power_add)
    have "nat t = (nat t div 10 ^ 10 * 10 ^ d) * 10 ^ (10 - d) + nat t mod 10 ^ 10"
      using p div_mult_mod_eq [of "nat t" "10 ^ 10"] by (simp only: mult.assoc)
    then show ?thesis unfolding native_units_def by (metis div_mult_self3 power_not_zero zero_neq_numeral add.commute)
  qed
  have "digits_val (a @ take d f) = int (nat t div 10 ^ 10 * 10 ^ d + nat t mod 10 ^ 10 div 10 ^ (10 - d))"
    using f assms(3) by (simp add: a_def digits_val_take zdiv_int min_absorb2)
  then have "nat (digits_val (a @ take d f)) = native_units t d" unfolding split by simp
  moreover have "list_all is_digit (a @ take d f)" using tk by (simp add: a_def)
  ultimately show ?thesis
    unfolding stripForChecksum_def Let_def flt
    using strip_digits [of "a @ take d f"] by (simp only: Let_def)
qed

lemma level_text_units:
  assumes "level_in_range l" and "pd \<le> 10" and "qd \<le> 10"
  shows "level_text (int pd) (int qd) l = level_units pd qd l"
  using assms strip_native [of _ pd] strip_native [of _ qd]
  by (simp add: level_text_def level_units_def level_in_range_def PRICE_SCALE_def PRICE_SCALE_DIGITS_def
      QUANTITY_SCALE_def QUANTITY_SCALE_DIGITS_def)

section \<open>Properties\<close>

text \<open>
  C20 (functional): for levels in range and at most ten native decimals, the checksum is the
  CRC of the top ten asks followed by the top ten bids, each level written as its price
  and then its quantity, both as plain integers in native units (no point, no leading
  zeros). Digits beyond the native precision and levels beyond the tenth do not enter.
\<close>

theorem computeBookChecksum_text:
  assumes "list_all level_in_range as" and "list_all level_in_range bs" and "pd \<le> 10" and "qd \<le> 10"
  shows "computeBookChecksum zlib as bs (int pd) (int qd) =
    crc32 zlib (concat (map (level_units pd qd) (take CHECKSUM_DEPTH as @ take CHECKSUM_DEPTH bs)))"
proof -
  have "map (level_text (int pd) (int qd)) (take CHECKSUM_DEPTH ls) = map (level_units pd qd) (take CHECKSUM_DEPTH ls)"
    if "list_all level_in_range ls" for ls
    using that assms(3,4) level_text_units by (auto simp: list_all_iff dest: in_set_takeD)
  from this [OF assms(1)] this [OF assms(2)] show ?thesis
    unfolding computeBookChecksum_eq map_append by (simp only:)
qed

theorem computeBookChecksum_text_witness:
  "\<forall>zlib. computeBookChecksum zlib
      [\<lparr>level_price = Price 452852000000000, level_quantity = Quantity 10000000\<rparr>] [] 1 8
    = crc32 zlib ''452852100000''"
proof
  fix zlib
  let ?l = "\<lparr>level_price = Price 452852000000000, level_quantity = Quantity 10000000\<rparr>"
  have r: "list_all level_in_range [?l]" by (simp add: level_in_range_def in_s64_def)
  have t: "level_units 1 8 ?l = ''452852100000''"
    by (simp add: level_units_def native_units_def to_string.simps digit_char_def char_of_def bit_Suc_0_iff)
  show "computeBookChecksum zlib [?l] [] 1 8 = crc32 zlib ''452852100000''"
    using computeBookChecksum_text [OF r, of "[]" 1 8 zlib] t by (simp add: CHECKSUM_DEPTH_def)
qed

end
