(* ===== verification/Kraken_Book_Client.thy ===== *)
theory Kraken_Book_Client
  imports Kraken_Parser Checksum
begin

text \<open>
  The market-data client, \<^verbatim>\<open>engine/include/engine/market_data/kraken_book_client.hpp\<close> and
  \<^verbatim>\<open>engine/src/market_data/kraken_book_client.cpp\<close>.

  The client owns the book of one symbol. Its callbacks and its websocket writes are
  entries of an event log, in the order the code performs them. The websocket is a
  parameter \<open>net\<close> that says whether a write succeeds (a failing write throws), zlib and
  simdjson are the parameters of the checksum and the parser, and the readings of the
  steady clock are arguments. An operation returns the exception it leaves with, if any,
  and the new state.
\<close>

section \<open>Definitions\<close>

definition kInitialBackoff :: int where "kInitialBackoff = 500"
definition kMaxBackoff :: int where "kMaxBackoff = 32000"
definition kSnapshotDeltaThreshold :: u64 where "kSnapshotDeltaThreshold = 500"
definition kSnapshotInterval :: int where "kSnapshotInterval = 5000000000"

datatype client_event =
    OnDelta BookSide Price Quantity u64
  | OnSnapshot "PriceLevel list" "PriceLevel list" u64
  | OnTick
  | WsWrite string
  | WsClose

record Client =
  cl_symbol :: string
  cl_book :: OrderBook
  cl_onDelta :: bool
  cl_onSnapshot :: bool
  cl_onTick :: bool
  priceDecimals :: int
  quantityDecimals :: int
  deltasSinceSnapshot :: u64
  lastSnapshotTime :: int
  cl_ws :: bool
  stopRequested :: bool
  cl_log :: "client_event list"

type_synonym action = "Client \<Rightarrow> cpp_exception option \<times> Client"
type_synonym network = "string \<Rightarrow> bool"

text \<open>The two readings of the steady clock a message can need, in nanoseconds.\<close>

type_synonym readings = "int \<times> int"

definition new_client :: "string \<Rightarrow> OrderBook \<Rightarrow> bool \<Rightarrow> bool \<Rightarrow> int \<Rightarrow> int \<Rightarrow> bool \<Rightarrow> int \<Rightarrow> Client" where
  "new_client symbol book onDelta onSnapshot pd qd onTick t =
     \<lparr>cl_symbol = symbol, cl_book = book, cl_onDelta = onDelta, cl_onSnapshot = onSnapshot, cl_onTick = onTick,
      priceDecimals = pd, quantityDecimals = qd, deltasSinceSnapshot = 0, lastSnapshotTime = t,
      cl_ws = False, stopRequested = False, cl_log = []\<rparr>"

definition emit :: "client_event \<Rightarrow> Client \<Rightarrow> Client" where
  "emit ev c = c\<lparr>cl_log := cl_log c @ [ev]\<rparr>"

definition and_then :: "action \<Rightarrow> action \<Rightarrow> action" where
  "and_then a b c = (case a c of (None, c') \<Rightarrow> b c' | (Some e, c') \<Rightarrow> (Some e, c'))"

definition ws_write :: "network \<Rightarrow> string \<Rightarrow> action" where
  "ws_write net text c =
     (if net text then (None, emit (WsWrite text) c) else (Some (Runtime_error ''websocket write failed''), c))"

definition subscribe_text :: "string \<Rightarrow> string" where
  "subscribe_text symbol = ''{\"method\":\"subscribe\",\"params\":{\"channel\":\"book\",\"symbol\":[\"''
     @ symbol @ ''\"],\"depth\":'' @ to_string BOOK_DEPTH @ ''}}''"

definition unsubscribe_text :: "string \<Rightarrow> string" where
  "unsubscribe_text symbol = ''{\"method\":\"unsubscribe\",\"params\":{\"channel\":\"book\",\"symbol\":[\"''
     @ symbol @ ''\"]}}''"

definition subscribe :: "network \<Rightarrow> action" where
  "subscribe net c = (if \<not> cl_ws c then (None, c) else ws_write net (subscribe_text (cl_symbol c)) c)"

definition clear_book :: "OrderBook \<Rightarrow> OrderBook" where
  "clear_book book = book\<lparr>bids := clear (bids book), asks := clear (asks book)\<rparr>"

definition resubscribeAndRebuild :: "network \<Rightarrow> action" where
  "resubscribeAndRebuild net =
     and_then (\<lambda>c. if cl_ws c then ws_write net (unsubscribe_text (cl_symbol c)) c else (None, c))
       (\<lambda>c. subscribe net (c\<lparr>cl_book := clear_book (cl_book c)\<rparr>))"

definition get_side :: "BookSide \<Rightarrow> OrderBook \<Rightarrow> OrderBookSide" where
  "get_side side book = (if side = Bid then bids book else asks book)"

definition set_side :: "BookSide \<Rightarrow> OrderBookSide \<Rightarrow> OrderBook \<Rightarrow> OrderBook" where
  "set_side side s book = (if side = Bid then book\<lparr>bids := s\<rparr> else book\<lparr>asks := s\<rparr>)"

text \<open>One numbered delta: both counters advance and the callback, if set, is called.\<close>

definition announce :: "BookSide \<Rightarrow> Price \<Rightarrow> Quantity \<Rightarrow> Client \<Rightarrow> Client" where
  "announce side price quantity c =
     (let book = (cl_book c)\<lparr>lastSeq := lastSeq (cl_book c) + 1\<rparr>;
          c1 = c\<lparr>cl_book := book, deltasSinceSnapshot := deltasSinceSnapshot c + 1\<rparr>
      in if cl_onDelta c1 then emit (OnDelta side price quantity (lastSeq book)) c1 else c1)"

definition apply_level :: "BookSide \<Rightarrow> BookLevelUpdate \<Rightarrow> Client \<Rightarrow> Client" where
  "apply_level side level c =
     (let (s, evicted) = applyDelta (get_side side (cl_book c)) (upd_price level) (upd_quantity level);
          c1 = announce side (upd_price level) (upd_quantity level) (c\<lparr>cl_book := set_side side s (cl_book c)\<rparr>)
      in case evicted of None \<Rightarrow> c1 | Some p \<Rightarrow> announce side p (Quantity 0) c1)"

fun apply_levels :: "BookSide \<Rightarrow> BookLevelUpdate list \<Rightarrow> Client \<Rightarrow> Client" where
  "apply_levels side [] c = c"
| "apply_levels side (level # levels) c = apply_levels side levels (apply_level side level c)"

definition publishSnapshot :: "int \<Rightarrow> Client \<Rightarrow> Client" where
  "publishSnapshot now c =
     (let kAll = 2 ^ 64 - 1;
          c1 = (if cl_onSnapshot c
                then emit (OnSnapshot (depth (bids (cl_book c)) kAll) (depth (asks (cl_book c)) kAll) (lastSeq (cl_book c))) c
                else c)
      in c1\<lparr>deltasSinceSnapshot := 0, lastSnapshotTime := now\<rparr>)"

definition maybePublishSnapshot :: "readings \<Rightarrow> Client \<Rightarrow> Client" where
  "maybePublishSnapshot t c =
     (let dueByCount = deltasSinceSnapshot c \<ge> kSnapshotDeltaThreshold;
          dueByTime = fst t - lastSnapshotTime c \<ge> kSnapshotInterval
      in if dueByCount \<or> dueByTime then publishSnapshot (snd t) c else c)"

definition applyMessage :: "zlib_crc32 \<Rightarrow> network \<Rightarrow> readings \<Rightarrow> BookMessage \<Rightarrow> action" where
  "applyMessage zlib net t message c =
     (if msg_symbol message \<noteq> cl_symbol c then (None, c)
      else
        let c0 = (if msg_type message = Snapshot then c\<lparr>cl_book := clear_book (cl_book c)\<rparr> else c);
            c1 = apply_levels Bid (msg_bids message) c0;
            c2 = apply_levels Ask (msg_asks message) c1;
            computed = computeBookChecksum zlib (depth (asks (cl_book c2)) CHECKSUM_DEPTH)
                         (depth (bids (cl_book c2)) CHECKSUM_DEPTH) (priceDecimals c2) (quantityDecimals c2);
            c3 = c2\<lparr>cl_book := (cl_book c2)\<lparr>lastCheckSum := computed\<rparr>\<rparr>
        in if computed \<noteq> msg_checksum message then resubscribeAndRebuild net c3
           else if msg_type message = Snapshot then (None, publishSnapshot (snd t) c3)
           else (None, maybePublishSnapshot t c3))"

text \<open>\<^verbatim>\<open>handleMessage\<close>, from the outcome of the parser on.\<close>

definition handle_parsed :: "zlib_crc32 \<Rightarrow> network \<Rightarrow> readings \<Rightarrow> BookMessage option result \<Rightarrow> action" where
  "handle_parsed zlib net t parsed =
     and_then (\<lambda>c. case parsed of
                 Inl e \<Rightarrow> (Some e, c)
               | Inr None \<Rightarrow> (None, c)
               | Inr (Some message) \<Rightarrow> applyMessage zlib net t message c)
       (\<lambda>c. (None, if cl_onTick c then emit OnTick c else c))"

definition handleMessage :: "'v simdjson \<Rightarrow> zlib_crc32 \<Rightarrow> network \<Rightarrow> readings \<Rightarrow> string \<Rightarrow> action" where
  "handleMessage js zlib net t raw = handle_parsed zlib net t (parseBookMessage js raw)"

text \<open>
  One round of the connection loop meets one attempt: how far \<^verbatim>\<open>connect\<close> gets, the frames
  that are read, and whether a stop request is seen once they are used up or the round has
  thrown. A list of rounds ends when the stop request is seen at the top of the loop.
\<close>

datatype connect_result = Connected | Resolve_failed | Handshake_failed

record attempt =
  at_connect :: connect_result
  at_frames :: "(string \<times> readings) list"
  at_stop :: bool

definition connect :: "connect_result \<Rightarrow> action" where
  "connect r c =
     (case r of Connected \<Rightarrow> (None, c\<lparr>cl_ws := True\<rparr>)
      | Resolve_failed \<Rightarrow> (Some (Runtime_error ''resolve''), c)
      | Handshake_failed \<Rightarrow> (Some (Runtime_error ''connect''), c\<lparr>cl_ws := True\<rparr>))"

fun read_loop :: "'v simdjson \<Rightarrow> zlib_crc32 \<Rightarrow> network \<Rightarrow> (string \<times> readings) list \<Rightarrow> Client \<Rightarrow> Client" where
  "read_loop js zlib net [] c = c"
| "read_loop js zlib net ((raw, t) # frames) c =
     (case handleMessage js zlib net t raw c of
        (None, c') \<Rightarrow> read_loop js zlib net frames c'
      | (Some e, c') \<Rightarrow> c')"

definition start_session :: "network \<Rightarrow> attempt \<Rightarrow> action" where
  "start_session net a = and_then (connect (at_connect a)) (subscribe net)"

text \<open>\<^verbatim>\<open>run\<close>: the final state and the backoff delays waited, in milliseconds.\<close>

fun run_loop :: "'v simdjson \<Rightarrow> zlib_crc32 \<Rightarrow> network \<Rightarrow> int \<Rightarrow> attempt list \<Rightarrow> Client \<Rightarrow> Client \<times> int list" where
  "run_loop js zlib net backoff [] c = (c, [])"
| "run_loop js zlib net backoff (a # as) c =
     (let (backoff1, c1) =
            (case start_session net a c of
               (None, c') \<Rightarrow> (kInitialBackoff, read_loop js zlib net (at_frames a) c')
             | (Some e, c') \<Rightarrow> (backoff, c'))
      in if at_stop a then (c1, [])
         else let (c2, waits) = run_loop js zlib net (min (backoff1 * 2) kMaxBackoff) as c1
              in (c2, backoff1 # waits))"

definition run :: "'v simdjson \<Rightarrow> zlib_crc32 \<Rightarrow> network \<Rightarrow> attempt list \<Rightarrow> Client \<Rightarrow> Client \<times> int list" where
  "run js zlib net = run_loop js zlib net kInitialBackoff"

definition stop :: "Client \<Rightarrow> Client" where
  "stop c = (let c1 = c\<lparr>stopRequested := True\<rparr> in if cl_ws c1 then emit WsClose c1 else c1)"

section \<open>Specification vocabulary\<close>

definition pairs :: "BookLevelUpdate list \<Rightarrow> (Price \<times> Quantity) list" where
  "pairs = map (\<lambda>u. (upd_price u, upd_quantity u))"

fun delta_events :: "BookSide \<Rightarrow> u64 \<Rightarrow> (Price \<times> Quantity) list \<Rightarrow> client_event list" where
  "delta_events side seq [] = []"
| "delta_events side seq ((p, q) # ds) = OnDelta side p q (seq + 1) # delta_events side (seq + 1) ds"

text \<open>
  A consumer of the feed: two price maps and the last sequence number, updated by delta
  events and replaced by snapshot events. It agrees with a book when it has the same levels
  and the same sequence number.
\<close>

record Mirror =
  mir_bids :: "Price \<rightharpoonup> Quantity"
  mir_asks :: "Price \<rightharpoonup> Quantity"
  mir_seq :: u64

fun mirror_event :: "Mirror \<Rightarrow> client_event \<Rightarrow> Mirror" where
  "mirror_event m (OnDelta Bid p q seq) = m\<lparr>mir_bids := mirror_delta (mir_bids m) (p, q), mir_seq := seq\<rparr>"
| "mirror_event m (OnDelta Ask p q seq) = m\<lparr>mir_asks := mirror_delta (mir_asks m) (p, q), mir_seq := seq\<rparr>"
| "mirror_event m (OnSnapshot bs as seq) =
     \<lparr>mir_bids = map_of (map level_pair bs), mir_asks = map_of (map level_pair as), mir_seq = seq\<rparr>"
| "mirror_event m ev = m"

definition mirrors :: "OrderBook \<Rightarrow> Mirror \<Rightarrow> bool" where
  "mirrors book m \<longleftrightarrow> mir_bids m = side_map (bids book) \<and> mir_asks m = side_map (asks book) \<and> mir_seq m = lastSeq book"

definition new_events :: "Client \<Rightarrow> Client \<Rightarrow> client_event list" where
  "new_events c c' = drop (length (cl_log c)) (cl_log c')"

section \<open>Lemmas\<close>

lemma delta_events_append:
  "delta_events side seq (ds @ es) = delta_events side seq ds @ delta_events side (seq + of_nat (length ds)) es"
  by (induction side seq ds rule: delta_events.induct) (simp_all add: ac_simps)

lemma announce_simps [simp]:
  "cl_symbol (announce side p q c) = cl_symbol c" "cl_onDelta (announce side p q c) = cl_onDelta c"
  "get_side side' (cl_book (announce side p q c)) = get_side side' (cl_book c)"
  by (simp_all add: announce_def emit_def Let_def get_side_def)

lemma get_set_side [simp]:
  "get_side side (set_side side s b) = s" "set_side side t (set_side side s b) = set_side side t b"
  "set_side side (get_side side b) b = b"
  "lastSeq (set_side side s b) = lastSeq b" "(set_side side s b)\<lparr>lastSeq := n\<rparr> = set_side side s (b\<lparr>lastSeq := n\<rparr>)"
  by (cases side; simp add: get_side_def set_side_def)+

lemma get_side_lastSeq [simp]: "get_side side (b\<lparr>lastSeq := n\<rparr>) = get_side side b"
  by (simp add: get_side_def)

definition with_deltas :: "BookSide \<Rightarrow> OrderBookSide \<Rightarrow> (Price \<times> Quantity) list \<Rightarrow> Client \<Rightarrow> Client" where
  "with_deltas side s ds c =
    c\<lparr>cl_book := set_side side s ((cl_book c)\<lparr>lastSeq := lastSeq (cl_book c) + of_nat (length ds)\<rparr>),
      deltasSinceSnapshot := deltasSinceSnapshot c + of_nat (length ds),
      cl_log := cl_log c @ (if cl_onDelta c then delta_events side (lastSeq (cl_book c)) ds else [])\<rparr>"

lemma with_deltas_append: "with_deltas side t es (with_deltas side s ds c) = with_deltas side t (ds @ es) c"
  by (simp add: with_deltas_def delta_events_append add.assoc)

lemma apply_level_eq:
  assumes "applyDelta (get_side side (cl_book c)) (upd_price u) (upd_quantity u) = (s, ev)"
  shows "apply_level side u c =
    with_deltas side s ((upd_price u, upd_quantity u) # (case ev of None \<Rightarrow> [] | Some e \<Rightarrow> [(e, Quantity 0)])) c"
  by (cases ev) (simp_all add: apply_level_def assms announce_def emit_def Let_def with_deltas_def add.commute)

text \<open>The loop over one side of a message, in closed form.\<close>

lemma apply_levels_eq:
  assumes "feed_levels applyDelta (get_side side (cl_book c)) (pairs us) = (s, ds)"
  shows "apply_levels side us c = with_deltas side s ds c"
  using assms
proof (induction us arbitrary: c ds)
  case Nil
  then show ?case by (auto simp: pairs_def with_deltas_def)
next
  case (Cons u us)
  obtain s1 ev where d: "applyDelta (get_side side (cl_book c)) (upd_price u) (upd_quantity u) = (s1, ev)" by (rule prod.exhaust)
  let ?ann = "(upd_price u, upd_quantity u) # (case ev of None \<Rightarrow> [] | Some e \<Rightarrow> [(e, Quantity 0)])"
  obtain ds' where f: "feed_levels applyDelta s1 (pairs us) = (s, ds')" and ds: "ds = ?ann @ ds'"
    using Cons.prems by (auto simp: pairs_def d split: prod.splits)
  have "get_side side (cl_book (with_deltas side s1 ?ann c)) = s1" by (simp add: with_deltas_def)
  then have "apply_levels side us (with_deltas side s1 ?ann c) = with_deltas side s ds' (with_deltas side s1 ?ann c)"
    using Cons.IH [of "with_deltas side s1 ?ann c" ds'] f by simp
  then show ?case unfolding apply_levels.simps apply_level_eq [OF d] ds with_deltas_append .
qed

lemma mirror_side_events:
  "mir_bids (foldl mirror_event m (delta_events side seq ds)) = (if side = Bid then foldl mirror_delta (mir_bids m) ds else mir_bids m)"
  "mir_asks (foldl mirror_event m (delta_events side seq ds)) = (if side = Ask then foldl mirror_delta (mir_asks m) ds else mir_asks m)"
  "mir_seq (foldl mirror_event m (delta_events side seq ds)) = (if ds = [] then mir_seq m else seq + of_nat (length ds))"
  by (induction side seq ds arbitrary: m rule: delta_events.induct; case_tac side; simp add: ac_simps)+

text \<open>What a message does to the book, and the deltas it announces.\<close>

definition base_book :: "BookMessage \<Rightarrow> OrderBook \<Rightarrow> OrderBook" where
  "base_book msg book = (if msg_type msg = Snapshot then clear_book book else book)"

definition bid_feed :: "BookMessage \<Rightarrow> OrderBook \<Rightarrow> OrderBookSide \<times> (Price \<times> Quantity) list" where
  "bid_feed msg book = feed_levels applyDelta (bids (base_book msg book)) (pairs (msg_bids msg))"

definition ask_feed :: "BookMessage \<Rightarrow> OrderBook \<Rightarrow> OrderBookSide \<times> (Price \<times> Quantity) list" where
  "ask_feed msg book = feed_levels applyDelta (asks (base_book msg book)) (pairs (msg_asks msg))"

definition delta_count :: "BookMessage \<Rightarrow> OrderBook \<Rightarrow> nat" where
  "delta_count msg book = length (snd (bid_feed msg book)) + length (snd (ask_feed msg book))"

definition applied_book :: "BookMessage \<Rightarrow> OrderBook \<Rightarrow> OrderBook" where
  "applied_book msg book = (base_book msg book)\<lparr>bids := fst (bid_feed msg book), asks := fst (ask_feed msg book),
     lastSeq := lastSeq book + of_nat (delta_count msg book)\<rparr>"

definition applied_events :: "BookMessage \<Rightarrow> OrderBook \<Rightarrow> client_event list" where
  "applied_events msg book = delta_events Bid (lastSeq book) (snd (bid_feed msg book))
     @ delta_events Ask (lastSeq book + of_nat (length (snd (bid_feed msg book)))) (snd (ask_feed msg book))"

definition book_checksum :: "zlib_crc32 \<Rightarrow> Client \<Rightarrow> OrderBook \<Rightarrow> u32" where
  "book_checksum zlib c book = computeBookChecksum zlib (depth (asks book) CHECKSUM_DEPTH) (depth (bids book) CHECKSUM_DEPTH)
     (priceDecimals c) (quantityDecimals c)"

text \<open>The state after the two loops and the assignment of \<^verbatim>\<open>lastCheckSum\<close>.\<close>

definition applied :: "zlib_crc32 \<Rightarrow> BookMessage \<Rightarrow> Client \<Rightarrow> Client" where
  "applied zlib msg c =
     c\<lparr>cl_book := (applied_book msg (cl_book c))\<lparr>lastCheckSum := book_checksum zlib c (applied_book msg (cl_book c))\<rparr>,
       deltasSinceSnapshot := deltasSinceSnapshot c + of_nat (delta_count msg (cl_book c)),
       cl_log := cl_log c @ (if cl_onDelta c then applied_events msg (cl_book c) else [])\<rparr>"

lemma applyMessage_eq:
  assumes "msg_symbol msg = cl_symbol c"
  shows "applyMessage zlib net t msg c =
    (if book_checksum zlib c (applied_book msg (cl_book c)) \<noteq> msg_checksum msg
     then resubscribeAndRebuild net (applied zlib msg c)
     else if msg_type msg = Snapshot then (None, publishSnapshot (snd t) (applied zlib msg c))
     else (None, maybePublishSnapshot t (applied zlib msg c)))"
proof -
  let ?c0 = "c\<lparr>cl_book := base_book msg (cl_book c)\<rparr>"
  obtain sb db where b: "bid_feed msg (cl_book c) = (sb, db)" by (rule prod.exhaust)
  obtain sa da where a: "ask_feed msg (cl_book c) = (sa, da)" by (rule prod.exhaust)
  have seq: "lastSeq (base_book msg (cl_book c)) = lastSeq (cl_book c)" by (simp add: base_book_def clear_book_def)
  define c1 where "c1 = apply_levels Bid (msg_bids msg) ?c0"
  have c1: "c1 = ?c0\<lparr>cl_book := (base_book msg (cl_book c))\<lparr>bids := sb, lastSeq := lastSeq (cl_book c) + of_nat (length db)\<rparr>,
      deltasSinceSnapshot := deltasSinceSnapshot c + of_nat (length db),
      cl_log := cl_log c @ (if cl_onDelta c then delta_events Bid (lastSeq (cl_book c)) db else [])\<rparr>"
    unfolding c1_def using b by (subst apply_levels_eq [of _ _ _ sb db]) (simp_all add: bid_feed_def get_side_def set_side_def with_deltas_def seq)
  define c2 where "c2 = apply_levels Ask (msg_asks msg) c1"
  have c2: "c2 = c1\<lparr>cl_book := (cl_book c1)\<lparr>asks := sa, lastSeq := lastSeq (cl_book c1) + of_nat (length da)\<rparr>,
      deltasSinceSnapshot := deltasSinceSnapshot c1 + of_nat (length da),
      cl_log := cl_log c1 @ (if cl_onDelta c1 then delta_events Ask (lastSeq (cl_book c1)) da else [])\<rparr>"
    unfolding c2_def using a by (subst apply_levels_eq [of _ _ _ sa da]) (simp_all add: ask_feed_def get_side_def set_side_def with_deltas_def c1)
  have bk: "cl_book c2 = applied_book msg (cl_book c)"
    by (simp add: c2 c1 applied_book_def delta_count_def a b ac_simps)
  have full: "c2\<lparr>cl_book := (cl_book c2)\<lparr>lastCheckSum := book_checksum zlib c (cl_book c2)\<rparr>\<rparr> = applied zlib msg c"
    unfolding applied_def bk by (simp add: c2 c1 applied_events_def delta_count_def a b ac_simps)
  have c0: "(if msg_type msg = Snapshot then c\<lparr>cl_book := clear_book (cl_book c)\<rparr> else c) = ?c0"
    by (simp add: base_book_def)
  have dec: "priceDecimals c2 = priceDecimals c" "quantityDecimals c2 = quantityDecimals c" by (simp_all add: c2 c1)
  have cs: "book_checksum zlib c2 = book_checksum zlib c" by (simp add: fun_eq_iff book_checksum_def dec)
  show ?thesis
    unfolding applyMessage_def Let_def c0 c1_def [symmetric] c2_def [symmetric]
      book_checksum_def [symmetric] cs full unfolding bk using assms by simp
qed

lemma applied_book_inv:
  assumes "book_inv book"
  shows "book_inv (applied_book msg book)"
    and "foldl mirror_delta (side_map (bids (base_book msg book))) (snd (bid_feed msg book)) = side_map (bids (applied_book msg book))"
    and "foldl mirror_delta (side_map (asks (base_book msg book))) (snd (ask_feed msg book)) = side_map (asks (applied_book msg book))"
proof -
  have base: "side_inv (bids (base_book msg book))" "side_inv (asks (base_book msg book))"
    "side_of (bids (base_book msg book)) = Bid" "side_of (asks (base_book msg book)) = Ask"
    using assms book_side.wipe_invar by (auto simp: base_book_def clear_book_def book_inv_def clear_def)
  obtain sb db where b: "bid_feed msg book = (sb, db)" by (rule prod.exhaust)
  obtain sa da where a: "ask_feed msg book = (sa, da)" by (rule prod.exhaust)
  note fb = book_side.feed_mirror [OF base(1) b [unfolded bid_feed_def]] feed_levels_side_of [OF b [unfolded bid_feed_def] base(1)]
  note fa = book_side.feed_mirror [OF base(2) a [unfolded ask_feed_def]] feed_levels_side_of [OF a [unfolded ask_feed_def] base(2)]
  show "book_inv (applied_book msg book)"
    using fb fa base by (simp add: book_inv_def applied_book_def a b)
  show "foldl mirror_delta (side_map (bids (base_book msg book))) (snd (bid_feed msg book)) = side_map (bids (applied_book msg book))"
    using fb by (simp add: applied_book_def b)
  show "foldl mirror_delta (side_map (asks (base_book msg book))) (snd (ask_feed msg book)) = side_map (asks (applied_book msg book))"
    using fa by (simp add: applied_book_def a)
qed

subsection \<open>The events of a message\<close>

definition is_snapshot_event :: "client_event \<Rightarrow> bool" where
  "is_snapshot_event ev = (case ev of OnSnapshot bs as s \<Rightarrow> True | _ \<Rightarrow> False)"

fun delta_seqs :: "client_event list \<Rightarrow> u64 list" where
  "delta_seqs [] = []"
| "delta_seqs (OnDelta side p q s # evs) = s # delta_seqs evs"
| "delta_seqs (ev # evs) = delta_seqs evs"

fun written :: "client_event list \<Rightarrow> string list" where
  "written [] = []"
| "written (WsWrite text # evs) = text # written evs"
| "written (ev # evs) = written evs"

lemma delta_seqs_append [simp]: "delta_seqs (xs @ ys) = delta_seqs xs @ delta_seqs ys"
  by (induction xs rule: delta_seqs.induct) auto

lemma written_append [simp]: "written (xs @ ys) = written xs @ written ys"
  by (induction xs rule: written.induct) auto

lemma delta_events_seqs [simp]: "delta_seqs (delta_events side seq ds) = map (\<lambda>i. seq + 1 + of_nat i) [0..<length ds]"
  by (induction side seq ds rule: delta_events.induct) (simp_all add: map_upt_Suc ac_simps del: upt_Suc)

lemma delta_events_written [simp]: "written (delta_events side seq ds) = []"
  by (induction side seq ds rule: delta_events.induct) simp_all

lemma delta_events_no_snapshot [simp]: "\<not> list_ex is_snapshot_event (delta_events side seq ds)"
  by (induction side seq ds rule: delta_events.induct) (simp_all add: is_snapshot_event_def)

lemma map_numbers_append:
  "map (\<lambda>i. s + of_nat i :: u64) [0..<m + n] = map (\<lambda>i. s + of_nat i) [0..<m] @ map (\<lambda>i. s + of_nat m + of_nat i) [0..<n]"
proof -
  have "[m..<m + n] = map (\<lambda>i. i + m) [0..<n]" by (simp only: map_add_upt add.commute)
  then show ?thesis unfolding upt_add_eq_append [OF le0] by (simp add: ac_simps)
qed

lemma applied_events_simps [simp]:
  "delta_seqs (applied_events msg book) = map (\<lambda>i. lastSeq book + 1 + of_nat i) [0..<delta_count msg book]"
  "written (applied_events msg book) = []"
  "\<not> list_ex is_snapshot_event (applied_events msg book)"
  using map_numbers_append [of "lastSeq book + 1" "length (snd (bid_feed msg book))" "length (snd (ask_feed msg book))"]
  by (simp_all add: applied_events_def delta_count_def ac_simps)

lemma applied_simps [simp]:
  "cl_symbol (applied zlib msg c) = cl_symbol c" "cl_onDelta (applied zlib msg c) = cl_onDelta c"
  "cl_onSnapshot (applied zlib msg c) = cl_onSnapshot c" "cl_onTick (applied zlib msg c) = cl_onTick c"
  "cl_ws (applied zlib msg c) = cl_ws c" "lastSnapshotTime (applied zlib msg c) = lastSnapshotTime c"
  "priceDecimals (applied zlib msg c) = priceDecimals c" "quantityDecimals (applied zlib msg c) = quantityDecimals c"
  "lastCheckSum (cl_book (applied zlib msg c)) = book_checksum zlib c (applied_book msg (cl_book c))"
  "bids (cl_book (applied zlib msg c)) = bids (applied_book msg (cl_book c))"
  "asks (cl_book (applied zlib msg c)) = asks (applied_book msg (cl_book c))"
  "lastSeq (cl_book (applied zlib msg c)) = lastSeq (cl_book c) + of_nat (delta_count msg (cl_book c))"
  "cl_log (applied zlib msg c) = cl_log c @ (if cl_onDelta c then applied_events msg (cl_book c) else [])"
  by (simp_all add: applied_def applied_book_def)

lemma book_inv_cong: "bids b = bids b' \<Longrightarrow> asks b = asks b' \<Longrightarrow> book_inv b = book_inv b'"
  by (simp add: book_inv_def)

lemma book_inv_clear: "book_inv b \<Longrightarrow> book_inv (clear_book b)"
  using book_side.wipe_invar by (simp add: book_inv_def clear_book_def clear_def)

lemma applied_inv: "book_inv (cl_book c) \<Longrightarrow> book_inv (cl_book (applied zlib msg c))"
  using applied_book_inv(1) [of "cl_book c" msg] book_inv_cong [of "cl_book (applied zlib msg c)"] by simp

lemma depth_all: "side_inv s \<Longrightarrow> depth s (2 ^ 64 - 1) = levels_of s"
  by (simp add: depth_def side_inv_def BOOK_DEPTH_def)

lemma publish_simps [simp]:
  "cl_book (publishSnapshot now c) = cl_book c" "deltasSinceSnapshot (publishSnapshot now c) = 0"
  "lastSnapshotTime (publishSnapshot now c) = now" "cl_symbol (publishSnapshot now c) = cl_symbol c"
  "cl_onTick (publishSnapshot now c) = cl_onTick c"
  "cl_log (publishSnapshot now c) = cl_log c @ (if cl_onSnapshot c
     then [OnSnapshot (depth (bids (cl_book c)) (2 ^ 64 - 1)) (depth (asks (cl_book c)) (2 ^ 64 - 1)) (lastSeq (cl_book c))] else [])"
  by (simp_all add: publishSnapshot_def emit_def Let_def)

lemma maybe_publish_cases:
  obtains "maybePublishSnapshot t c = c" and "deltasSinceSnapshot c < kSnapshotDeltaThreshold"
      and "fst t - lastSnapshotTime c < kSnapshotInterval"
    | "maybePublishSnapshot t c = publishSnapshot (snd t) c"
proof (cases "kSnapshotDeltaThreshold \<le> deltasSinceSnapshot c \<or> kSnapshotInterval \<le> fst t - lastSnapshotTime c")
  case True
  then show ?thesis by (intro that(2)) (auto simp: maybePublishSnapshot_def Let_def)
next
  case False
  then show ?thesis by (intro that(1)) (auto simp: maybePublishSnapshot_def Let_def)
qed

text \<open>An accepted message either keeps the applied state or publishes it.\<close>

lemma applyMessage_accepted:
  assumes "msg_symbol msg = cl_symbol c" and "book_checksum zlib c (applied_book msg (cl_book c)) = msg_checksum msg"
    and "applyMessage zlib net t msg c = (exc, c')"
  obtains "exc = None" and "c' = applied zlib msg c" and "msg_type msg = Update"
      and "deltasSinceSnapshot c' < kSnapshotDeltaThreshold" and "fst t - lastSnapshotTime c' < kSnapshotInterval"
    | "exc = None" and "c' = publishSnapshot (snd t) (applied zlib msg c)"
proof (cases "msg_type msg")
  case Snapshot
  then show ?thesis using assms that(2) by (simp add: applyMessage_eq)
next
  case Update
  then have "exc = None" "c' = maybePublishSnapshot t (applied zlib msg c)"
    using assms by (simp_all add: applyMessage_eq)
  then show ?thesis
    using Update that by (cases rule: maybe_publish_cases [of t "applied zlib msg c"]) simp_all
qed

text \<open>A rejected message.\<close>

lemma resubscribe_eq:
  "resubscribeAndRebuild net c =
    (let un = unsubscribe_text (cl_symbol c); sub = subscribe_text (cl_symbol c);
         cleared = c\<lparr>cl_book := clear_book (cl_book c)\<rparr>;
         failed = Some (Runtime_error ''websocket write failed'')
     in if \<not> cl_ws c then (None, cleared)
        else if \<not> net un then (failed, c)
        else if \<not> net sub then (failed, emit (WsWrite un) cleared)
        else (None, emit (WsWrite sub) (emit (WsWrite un) cleared)))"
  by (simp add: resubscribeAndRebuild_def and_then_def ws_write_def subscribe_def emit_def Let_def)

lemma resubscribe_inv:
  assumes "book_inv (cl_book c)" and "resubscribeAndRebuild net c = (exc, c')"
  shows "book_inv (cl_book c')"
  using assms book_inv_clear [OF assms(1)] by (auto simp: resubscribe_eq emit_def Let_def split: if_splits)

lemma applyMessage_inv:
  assumes "book_inv (cl_book c)" and "applyMessage zlib net t msg c = (exc, c')"
  shows "book_inv (cl_book c')"
proof (cases "msg_symbol msg = cl_symbol c")
  case False
  with assms show ?thesis by (simp add: applyMessage_def)
next
  case True
  have inv: "book_inv (cl_book (applied zlib msg c))" using assms(1) by (rule applied_inv)
  show ?thesis
  proof (cases "book_checksum zlib c (applied_book msg (cl_book c)) = msg_checksum msg")
    case ok: True
    with inv show ?thesis by (cases rule: applyMessage_accepted [OF True ok assms(2)]) simp_all
  next
    case False
    with assms(2) True have "resubscribeAndRebuild net (applied zlib msg c) = (exc, c')" by (simp add: applyMessage_eq)
    with inv show ?thesis by (rule resubscribe_inv)
  qed
qed

subsection \<open>Handling and the connection loop\<close>

definition tick :: "Client \<Rightarrow> Client" where
  "tick c = (if cl_onTick c then emit OnTick c else c)"

lemma tick_simps [simp]: "cl_book (tick c) = cl_book c" "cl_symbol (tick c) = cl_symbol c"
  by (simp_all add: tick_def emit_def)

lemma handle_parsed_cases:
  assumes "handle_parsed zlib net t parsed c = (exc, c')"
  obtains (malformed) e where "parsed = Inl e" and "exc = Some e" and "c' = c"
    | (skipped) "parsed = Inr None" and "exc = None" and "c' = tick c"
    | (handled) msg c1 where "parsed = Inr (Some msg)" and "applyMessage zlib net t msg c = (None, c1)"
        and "exc = None" and "c' = tick c1"
    | (thrown) msg e where "parsed = Inr (Some msg)" and "applyMessage zlib net t msg c = (Some e, c')"
        and "exc = Some e"
proof (cases "parsed")
  case (Inl e)
  then show ?thesis using assms malformed by (simp add: handle_parsed_def and_then_def)
next
  case (Inr m)
  show ?thesis
  proof (cases m)
    case None
    then show ?thesis using assms skipped Inr by (simp add: handle_parsed_def and_then_def tick_def)
  next
    case (Some msg)
    obtain x c1 where a: "applyMessage zlib net t msg c = (x, c1)" by (rule prod.exhaust)
    have h: "handle_parsed zlib net t parsed c = (case x of None \<Rightarrow> (None, tick c1) | Some e \<Rightarrow> (Some e, c1))"
      by (simp add: handle_parsed_def and_then_def Inr Some a tick_def split: option.splits)
    show ?thesis
    proof (cases x)
      case None
      then show ?thesis using assms [unfolded h] a Inr Some by (intro handled [of msg c1]) simp_all
    next
      case (Some e)
      then show ?thesis using assms [unfolded h] a Inr \<open>m = Some msg\<close> by (intro thrown [of msg e]) simp_all
    qed
  qed
qed

lemma handle_parsed_inv:
  assumes "book_inv (cl_book c)" and "handle_parsed zlib net t parsed c = (exc, c')"
  shows "book_inv (cl_book c')"
  using assms(2)
proof (cases rule: handle_parsed_cases)
  case (handled msg c1)
  then show ?thesis using applyMessage_inv [OF assms(1) handled(2)] by simp
next
  case (thrown msg e)
  then show ?thesis using applyMessage_inv [OF assms(1) thrown(2)] by simp
qed (simp_all add: assms(1))

lemmas handleMessage_inv = handle_parsed_inv [where parsed = "parseBookMessage js raw" for js raw, folded handleMessage_def]

lemma read_loop_inv: "book_inv (cl_book c) \<Longrightarrow> book_inv (cl_book (read_loop js zlib net frames c))"
proof (induction js zlib net frames c rule: read_loop.induct)
  case (2 js zlib net raw t frames c)
  obtain exc c1 where h: "handleMessage js zlib net t raw c = (exc, c1)" by (rule prod.exhaust)
  have "book_inv (cl_book c1)" using 2(2) h by (rule handleMessage_inv)
  then show ?case using 2(1) [OF h [symmetric]] by (simp add: h split: option.splits)
qed simp

lemma resubscribe_symbol: "resubscribeAndRebuild net c = (exc, c') \<Longrightarrow> cl_symbol c' = cl_symbol c"
  by (auto simp: resubscribe_eq emit_def Let_def split: if_splits)

lemma applyMessage_symbol:
  assumes "applyMessage zlib net t msg c = (exc, c')"
  shows "cl_symbol c' = cl_symbol c"
proof (cases "msg_symbol msg = cl_symbol c \<and> book_checksum zlib c (applied_book msg (cl_book c)) = msg_checksum msg")
  case True
  then show ?thesis by (cases rule: applyMessage_accepted [OF conjunct1 conjunct2 assms]) simp_all
next
  case False
  show ?thesis
  proof (cases "msg_symbol msg = cl_symbol c")
    case True
    with False assms have "resubscribeAndRebuild net (applied zlib msg c) = (exc, c')" by (simp add: applyMessage_eq)
    then show ?thesis by (rule resubscribe_symbol [THEN trans]) simp
  qed (use assms in \<open>simp add: applyMessage_def\<close>)
qed

lemma handle_parsed_symbol: "handle_parsed zlib net t parsed c = (exc, c') \<Longrightarrow> cl_symbol c' = cl_symbol c"
  by (erule handle_parsed_cases) (simp_all add: applyMessage_symbol)

lemma read_loop_symbol: "cl_symbol (read_loop js zlib net frames c) = cl_symbol c"
proof (induction js zlib net frames c rule: read_loop.induct)
  case (2 js zlib net raw t frames c)
  obtain exc c1 where h: "handleMessage js zlib net t raw c = (exc, c1)" by (rule prod.exhaust)
  then have "cl_symbol c1 = cl_symbol c" unfolding handleMessage_def by (rule handle_parsed_symbol)
  then show ?case using 2(1) [OF h [symmetric]] by (simp add: h split: option.splits)
qed simp

lemma start_session_book: "start_session net a c = (exc, c') \<Longrightarrow> cl_book c' = cl_book c \<and> cl_symbol c' = cl_symbol c"
  by (auto simp: start_session_def and_then_def connect_def subscribe_def ws_write_def emit_def
      split: connect_result.splits if_splits)

lemma start_session_ok:
  "start_session net a c = (exc, c') \<Longrightarrow> exc = None \<longleftrightarrow> at_connect a = Connected \<and> net (subscribe_text (cl_symbol c))"
  by (auto simp: start_session_def and_then_def connect_def subscribe_def ws_write_def
      split: connect_result.splits if_splits)

lemma run_loop_inv: "book_inv (cl_book c) \<Longrightarrow> book_inv (cl_book (fst (run_loop js zlib net backoff as c)))"
proof (induction as arbitrary: backoff c)
  case (Cons a as)
  obtain exc c' where s: "start_session net a c = (exc, c')" by (rule prod.exhaust)
  have inv: "book_inv (cl_book c')" using Cons.prems start_session_book [OF s] by simp
  show ?case
    by (cases exc) (simp_all add: s inv read_loop_inv Cons.IH case_prod_unfold Let_def)
qed simp

text \<open>The waits of the loop: they double up to the maximum and start over after a session.\<close>

fun backoffs :: "int \<Rightarrow> bool list \<Rightarrow> int list" where
  "backoffs b [] = []"
| "backoffs b (ok # oks) = (let w = (if ok then kInitialBackoff else b) in w # backoffs (min (w * 2) kMaxBackoff) oks)"

lemma run_loop_waits:
  assumes "\<forall>a \<in> set as. \<not> at_stop a"
  shows "snd (run_loop js zlib net backoff as c) =
    backoffs backoff (map (\<lambda>a. at_connect a = Connected \<and> net (subscribe_text (cl_symbol c))) as)"
  using assms
proof (induction as arbitrary: backoff c)
  case (Cons a as)
  obtain exc c' where s: "start_session net a c = (exc, c')" by (rule prod.exhaust)
  have sym: "cl_symbol c' = cl_symbol c" using start_session_book [OF s] by simp
  show ?case
    using Cons sym start_session_ok [OF s] by (cases exc) (auto simp: s read_loop_symbol case_prod_unfold)
qed simp

lemma double_capped:
  assumes "0 \<le> b"
  shows "min (min (b * 2) kMaxBackoff * 2 ^ k) kMaxBackoff = min (b * 2 ^ Suc k) kMaxBackoff"
proof (cases "b * 2 \<le> kMaxBackoff")
  case True
  then show ?thesis by (simp add: mult.assoc)
next
  case False
  have one: "1 \<le> (2::int) ^ k" by simp
  have "kMaxBackoff * 1 \<le> kMaxBackoff * 2 ^ k" by (rule mult_left_mono [OF one]) (simp add: kMaxBackoff_def)
  moreover have "(b * 2) * 1 \<le> (b * 2) * 2 ^ k" using assms by (intro mult_left_mono [OF one]) simp
  ultimately show ?thesis using False by (simp add: min_def mult.assoc)
qed

lemma backoffs_failing:
  assumes "0 \<le> b" and "b \<le> kMaxBackoff"
  shows "backoffs b (replicate n False) = map (\<lambda>k. min (b * 2 ^ k) kMaxBackoff) [0..<n]"
  using assms
proof (induction n arbitrary: b)
  case (Suc n)
  have "0 \<le> min (b * 2) kMaxBackoff" using Suc.prems by (simp add: kMaxBackoff_def)
  with Suc show ?case by (simp add: map_upt_Suc double_capped del: upt_Suc power_Suc)
qed simp

end
