(* ===== verification/Client_Publication.thy ===== *)
theory Client_Publication
  imports Kraken_Book_Client
begin

text \<open>
  What the consumers of a client's callbacks can rely on, message by message: they can mirror
  the book, a published snapshot is a verified one, a checksum mismatch rebuilds (after its
  deltas were announced), and sequence numbers, the cadence of snapshots and the delays between connections are as
  documented.
\<close>

section \<open>Mirrors\<close>


lemma mirror_applied:
  assumes "book_inv (cl_book c)" and "cl_onDelta c" and "mirrors (cl_book c) m" and "msg_type msg = Update"
  shows "mirrors (cl_book (applied zlib msg c)) (foldl mirror_event m (applied_events msg (cl_book c)))"
proof -
  note fold = applied_book_inv(2,3) [OF assms(1), of msg]
  have base: "base_book msg (cl_book c) = cl_book c" using assms(4) by (simp add: base_book_def)
  show ?thesis
    using assms(3) fold unfolding mirrors_def applied_events_def foldl_append mirror_side_events base
    by (simp add: delta_count_def ac_simps)
qed

lemma mirror_published:
  assumes "book_inv (cl_book c)" and "cl_onSnapshot c" and "n \<le> length (cl_log c)"
  shows "mirrors (cl_book (publishSnapshot now c)) (foldl mirror_event m (drop n (cl_log (publishSnapshot now c))))"
  using assms depth_all by (simp add: mirrors_def side_map_def book_inv_def)

definition demo_zlib :: zlib_crc32 where "demo_zlib crc data = 7"

definition demo_client :: Client where
  "demo_client = new_client ''BTC/USD'' new_book True True 1 8 True 0"

lemma demo_checksum [simp]: "book_checksum demo_zlib c b = 7"
  by (simp add: book_checksum_def computeBookChecksum_def crc32_def demo_zlib_def)

lemma demo_client_simps [simp]:
  "cl_symbol demo_client = ''BTC/USD''" "cl_book demo_client = new_book" "cl_onDelta demo_client" "cl_onSnapshot demo_client"
  "cl_log demo_client = []" "\<not> cl_ws demo_client" "deltasSinceSnapshot demo_client = 0" "lastSnapshotTime demo_client = 0"
  by (simp_all add: demo_client_def new_client_def)

lemma demo_msg_simps [simp]: "msg_symbol demo_msg = ''BTC/USD''" "msg_type demo_msg = Update" "msg_checksum demo_msg = 7"
  by (simp_all add: demo_msg_def)

lemma demo_feed: "bid_feed demo_msg new_book = (\<lparr>side_of = Bid, levels_of = [\<lparr>level_price = Price 25000000000,
    level_quantity = Quantity 10000000000\<rparr>]\<rparr>, [(Price 25000000000, Quantity 10000000000)])"
  "ask_feed demo_msg new_book = (\<lparr>side_of = Ask, levels_of = []\<rparr>, [])"
  by (simp_all add: bid_feed_def ask_feed_def demo_msg_def pairs_def base_book_def new_book_def new_side_def
      applyDelta_def level_position_def lower_bound_def lower_bound_from.simps [of _ _ _ 0] BOOK_DEPTH_def)

lemma demo_delta_count: "delta_count demo_msg new_book = 1"
  by (simp add: delta_count_def demo_feed)

lemma new_book_inv [simp]: "book_inv new_book"
  by (simp add: book_inv_def new_book_def new_side_def side_inv_def)

text \<open>The checksum kept in the book tells whether a message was accepted.\<close>

lemma accepted_checksum:
  assumes "msg_symbol msg = cl_symbol c" and "applyMessage zlib net t msg c = (exc, c')"
    and "lastCheckSum (cl_book c') = msg_checksum msg"
  shows "book_checksum zlib c (applied_book msg (cl_book c)) = msg_checksum msg"
proof (rule ccontr)
  assume ne: "\<not> ?thesis"
  with assms(1,2) have "resubscribeAndRebuild net (applied zlib msg c) = (exc, c')" by (simp add: applyMessage_eq)
  then have "lastCheckSum (cl_book c') = book_checksum zlib c (applied_book msg (cl_book c))"
    by (auto simp: resubscribe_eq Let_def emit_def clear_book_def split: if_splits)
  with ne assms(3) show False by simp
qed

text \<open>
  A consumer that replays the callbacks has the client's book. After every
  message whose checksum is accepted, applying the delta and snapshot events of that message
  to a consumer that agreed with the book before (for an update; for a snapshot message any
  consumer will do) gives exactly the levels of both sides and the sequence number of the
  new book, evictions beyond the depth limit included.
\<close>

lemma accepted_message_mirrored:
  assumes "book_inv (cl_book c)" and "cl_onDelta c" and "cl_onSnapshot c" and "msg_symbol msg = cl_symbol c"
    and "msg_type msg = Update \<longrightarrow> mirrors (cl_book c) m"
    and "applyMessage zlib net t msg c = (exc, c')" and "lastCheckSum (cl_book c') = msg_checksum msg"
  shows "exc = None \<and> mirrors (cl_book c') (foldl mirror_event m (new_events c c'))"
proof -
  note ok = accepted_checksum [OF assms(4,6,7)]
  have inv: "book_inv (cl_book (applied zlib msg c))" using assms(1) by (rule applied_inv)
  show ?thesis
  proof (cases rule: applyMessage_accepted [OF assms(4) ok assms(6)])
    case 1
    with mirror_applied [OF assms(1,2), of m msg zlib] assms(2,5) show ?thesis by (simp add: new_events_def)
  next
    case 2
    with mirror_published [OF inv, where n = "length (cl_log c)" and now = "snd t" and m = m] assms(3) show ?thesis by (simp add: new_events_def)
  qed
qed

text \<open>
  The deltas a message announces carry consecutive sequence numbers, one for
  every level of the message and one more for every evicted level, continuing where the book
  stood; this holds whether the message is accepted, rejected, or interrupted by a failing
  websocket write.
\<close>

lemma delta_sequence_numbers:
  assumes "cl_onDelta c" and "msg_symbol msg = cl_symbol c" and "applyMessage zlib net t msg c = (exc, c')"
  shows "delta_seqs (new_events c c') = map (\<lambda>i. lastSeq (cl_book c) + 1 + of_nat i) [0..<delta_count msg (cl_book c)]
    \<and> lastSeq (cl_book c') = lastSeq (cl_book c) + of_nat (delta_count msg (cl_book c))"
proof (cases "book_checksum zlib c (applied_book msg (cl_book c)) = msg_checksum msg")
  case True
  then show ?thesis
    using assms(1) by (cases rule: applyMessage_accepted [OF assms(2) _ assms(3)]) (simp_all add: new_events_def)
next
  case False
  with assms(2,3) have "resubscribeAndRebuild net (applied zlib msg c) = (exc, c')" by (simp add: applyMessage_eq)
  then show ?thesis
    using assms(1) by (auto simp: resubscribe_eq Let_def emit_def clear_book_def new_events_def split: if_splits)
qed

section \<open>Properties\<close>



text \<open>
  C10 (safety): only verified books are published. Every snapshot event of a message carries
  the complete levels and the sequence number of the book after the message, and the
  checksum of its top levels is the one the message announced.
\<close>

theorem published_snapshot_verified:
  assumes "book_inv (cl_book c)" and "applyMessage zlib net t msg c = (exc, c')"
    and "OnSnapshot bs as seq \<in> set (new_events c c')"
  shows "bs = levels_of (bids (cl_book c')) \<and> as = levels_of (asks (cl_book c')) \<and> seq = lastSeq (cl_book c')
    \<and> computeBookChecksum zlib (take CHECKSUM_DEPTH as) (take CHECKSUM_DEPTH bs) (priceDecimals c) (quantityDecimals c)
      = msg_checksum msg"
proof -
  have sym: "msg_symbol msg = cl_symbol c" using assms(2,3) by (auto simp: applyMessage_def new_events_def split: if_splits)
  have no: "OnSnapshot bs as seq \<notin> set (applied_events msg (cl_book c))"
    using applied_events_simps(3) [of msg "cl_book c"] by (force simp: list_ex_iff is_snapshot_event_def)
  have ok: "book_checksum zlib c (applied_book msg (cl_book c)) = msg_checksum msg"
  proof (rule ccontr)
    assume "\<not> ?thesis"
    with sym assms(2) have "resubscribeAndRebuild net (applied zlib msg c) = (exc, c')" by (simp add: applyMessage_eq)
    with no assms(3) show False by (auto simp: resubscribe_eq Let_def emit_def new_events_def split: if_splits)
  qed
  have inv: "side_inv (bids (applied_book msg (cl_book c)))" "side_inv (asks (applied_book msg (cl_book c)))"
    using applied_book_inv(1) [OF assms(1), of msg] by (simp_all add: book_inv_def)
  show ?thesis
  proof (cases rule: applyMessage_accepted [OF sym ok assms(2)])
    case 1
    with no assms(3) show ?thesis by (auto simp: new_events_def split: if_splits)
  next
    case 2
    have "length (levels_of (bids (applied_book msg (cl_book c)))) \<le> 18446744073709551615"
      "length (levels_of (asks (applied_book msg (cl_book c)))) \<le> 18446744073709551615"
      using inv by (simp_all add: side_inv_def BOOK_DEPTH_def)
    with 2 no assms(3) ok show ?thesis
      by (auto simp: new_events_def book_checksum_def depth_def min_def CHECKSUM_DEPTH_def split: if_splits)
  qed
qed

theorem published_snapshot_verified_witness:
  "\<exists>c' bs as seq. applyMessage demo_zlib (\<lambda>_. True) (1, 1) (demo_msg\<lparr>msg_type := Snapshot\<rparr>) demo_client = (None, c')
     \<and> OnSnapshot bs as seq \<in> set (new_events demo_client c') \<and> bs = levels_of (bids (cl_book c')) \<and> seq = lastSeq (cl_book c')"
proof -
  let ?msg = "demo_msg\<lparr>msg_type := Snapshot\<rparr>"
  define c' where "c' = publishSnapshot 1 (applied demo_zlib ?msg demo_client)"
  have a: "applyMessage demo_zlib (\<lambda>_. True) (1, 1) ?msg demo_client = (None, c')"
    by (simp add: applyMessage_eq c'_def)
  obtain bs as seq where e: "OnSnapshot bs as seq \<in> set (new_events demo_client c')"
    by (simp add: c'_def new_events_def) blast
  show ?thesis using published_snapshot_verified [OF _ a e] a e by auto
qed

text \<open>
  What a subscriber has not seen in a snapshot: the deltas of the log after its last snapshot.
  A client is fed the outcomes of the parser one by one, each with the state of the websocket
  it meets; beside the client its observer notes when a snapshot was last published.
\<close>

definition is_delta_event :: "client_event \<Rightarrow> bool" where
  "is_delta_event ev = (case ev of OnDelta side p q s \<Rightarrow> True | _ \<Rightarrow> False)"

definition deltas_since :: "client_event list \<Rightarrow> nat" where
  "deltas_since log = length (filter is_delta_event (takeWhile (\<lambda>ev. \<not> is_snapshot_event ev) (rev log)))"

type_synonym client_input = "bool \<times> network \<times> readings \<times> BookMessage option result"

definition feed_client :: "zlib_crc32 \<Rightarrow> Client \<times> int \<Rightarrow> client_input \<Rightarrow> Client \<times> int" where
  "feed_client zlib = (\<lambda>(c, published) (ws, net, t, parsed).
     let (exc, c') = handle_parsed zlib net t parsed (c\<lparr>cl_ws := ws\<rparr>)
     in (c', if list_ex is_snapshot_event (new_events c c') then snd t else published))"

definition cadence_inv :: "Client \<Rightarrow> int \<Rightarrow> bool" where
  "cadence_inv c published \<longleftrightarrow> cl_onDelta c \<and> cl_onSnapshot c
     \<and> deltasSinceSnapshot c = of_nat (deltas_since (cl_log c)) \<and> lastSnapshotTime c = published"

lemma deltas_since_append:
  "deltas_since (log @ evs) = (if list_ex is_snapshot_event evs then deltas_since evs
     else deltas_since log + length (filter is_delta_event evs))"
proof (cases "list_ex is_snapshot_event evs")
  case True
  then obtain ev where "ev \<in> set (rev evs)" "\<not> \<not> is_snapshot_event ev" by (auto simp: list_ex_iff)
  then show ?thesis using True by (simp add: deltas_since_def takeWhile_append1)
next
  case False
  then have "\<forall>ev \<in> set (rev evs). \<not> is_snapshot_event ev" by (auto simp: list_ex_iff)
  then have "takeWhile (\<lambda>ev. \<not> is_snapshot_event ev) (rev evs @ rev log)
    = rev evs @ takeWhile (\<lambda>ev. \<not> is_snapshot_event ev) (rev log)"
    by (intro takeWhile_append2) simp
  then show ?thesis using False by (simp add: deltas_since_def rev_filter [symmetric])
qed

lemma deltas_since_le: "deltas_since log \<le> length log"
  using length_takeWhile_le [of "\<lambda>ev. \<not> is_snapshot_event ev" "rev log"]
    length_filter_le [of is_delta_event "takeWhile (\<lambda>ev. \<not> is_snapshot_event ev) (rev log)"]
  unfolding deltas_since_def length_rev by (rule order.trans [rotated])

lemma delta_events_count: "length (filter is_delta_event (delta_events side seq ds)) = length ds"
  by (induction side seq ds rule: delta_events.induct) (simp_all add: is_delta_event_def)

lemma applied_events_count: "length (filter is_delta_event (applied_events msg book)) = delta_count msg book"
  by (simp add: applied_events_def delta_count_def delta_events_count)

lemma other_events [simp]:
  "\<not> is_delta_event (WsWrite x)" "\<not> is_delta_event OnTick" "\<not> is_snapshot_event (WsWrite x)" "\<not> is_snapshot_event OnTick"
  "is_snapshot_event (OnSnapshot bs as s)" "\<not> is_delta_event (OnSnapshot bs as s)"
  by (simp_all add: is_delta_event_def is_snapshot_event_def)

lemma cadence_applied:
  assumes "cadence_inv c published"
  shows "cadence_inv (applied zlib msg c) published"
  using assms by (simp add: cadence_inv_def deltas_since_append applied_events_count) (simp add: applied_def)

lemma cadence_published:
  assumes "cadence_inv c published"
  shows "cadence_inv (publishSnapshot now c) now"
  using assms by (simp add: cadence_inv_def deltas_since_append) (simp add: deltas_since_def publishSnapshot_def emit_def Let_def)

lemma cadence_resubscribe:
  assumes "cadence_inv c published" and "resubscribeAndRebuild net c = (exc, c')"
  shows "cadence_inv c' published \<and> \<not> list_ex is_snapshot_event (new_events c c')"
  using assms by (auto simp: cadence_inv_def resubscribe_eq Let_def emit_def deltas_since_append new_events_def split: if_splits)

lemma cadence_message:
  assumes "cadence_inv c published" and "applyMessage zlib net t msg c = (exc, c')"
  shows "cadence_inv c' (if list_ex is_snapshot_event (new_events c c') then snd t else published)"
proof (cases "msg_symbol msg = cl_symbol c")
  case False
  with assms show ?thesis by (simp add: applyMessage_def new_events_def)
next
  case sym: True
  note app = cadence_applied [OF assms(1), of zlib msg]
  have on: "cl_onDelta c" "cl_onSnapshot c" using assms(1) by (simp_all add: cadence_inv_def)
  show ?thesis
  proof (cases "book_checksum zlib c (applied_book msg (cl_book c)) = msg_checksum msg")
    case True
    show ?thesis
    proof (cases rule: applyMessage_accepted [OF sym True assms(2)])
      case 1
      then show ?thesis using app on by (simp add: new_events_def)
    next
      case 2
      then show ?thesis using cadence_published [OF app, of "snd t"] on by (simp add: new_events_def)
    qed
  next
    case False
    then have r: "resubscribeAndRebuild net (applied zlib msg c) = (exc, c')" using sym assms(2) by (simp add: applyMessage_eq)
    have "\<not> list_ex is_snapshot_event (new_events c c')"
      using r by (auto simp: resubscribe_eq Let_def emit_def new_events_def split: if_splits)
    then show ?thesis using cadence_resubscribe [OF app r] by simp
  qed
qed

lemma applyMessage_extends: "applyMessage zlib net t msg c = (exc, c') \<Longrightarrow> \<exists>evs. cl_log c' = cl_log c @ evs"
proof (cases "msg_symbol msg = cl_symbol c")
  case True
  moreover assume "applyMessage zlib net t msg c = (exc, c')"
  ultimately show ?thesis
    by (auto simp: applyMessage_eq resubscribe_eq maybePublishSnapshot_def emit_def Let_def split: if_splits)
qed (simp add: applyMessage_def)

lemma cadence_tick:
  assumes "cadence_inv c published"
  shows "cadence_inv (tick c) published"
  using assms by (simp add: cadence_inv_def tick_def emit_def deltas_since_append)

lemma new_events_tick:
  assumes "cl_log c' = cl_log c @ evs"
  shows "list_ex is_snapshot_event (new_events c (tick c')) = list_ex is_snapshot_event (new_events c c')"
  using assms by (auto simp: new_events_def tick_def emit_def)

lemma cadence_fed:
  assumes "cadence_inv c published" and "feed_client zlib (c, published) input = (c', published')"
  shows "cadence_inv c' published'"
proof -
  obtain ws net t parsed where i: "input = (ws, net, t, parsed)" by (rule prod_cases4)
  let ?c = "c\<lparr>cl_ws := ws\<rparr>"
  obtain exc c1 where h: "handle_parsed zlib net t parsed ?c = (exc, c1)" by (rule prod.exhaust)
  have inv: "cadence_inv ?c published" using assms(1) by (simp add: cadence_inv_def)
  have ev: "new_events ?c = new_events c" by (simp add: new_events_def fun_eq_iff)
  have eq: "c' = c1" "published' = (if list_ex is_snapshot_event (new_events ?c c1) then snd t else published)"
    using assms(2) unfolding ev by (auto simp: feed_client_def i h)
  from h show ?thesis
  proof (cases rule: handle_parsed_cases)
    case (malformed e)
    then show ?thesis using inv by (simp add: eq) (simp add: new_events_def)
  next
    case skipped
    then show ?thesis using cadence_tick [OF inv] new_events_tick [of ?c ?c "[]"] by (simp add: eq) (simp add: new_events_def)
  next
    case (handled msg c2)
    then show ?thesis
      using cadence_tick [OF cadence_message [OF inv handled(2)]] applyMessage_extends [OF handled(2)] new_events_tick
      unfolding eq handled(4) by fastforce
  next
    case (thrown msg e)
    then show ?thesis using cadence_message [OF inv thrown(2)] by (simp add: eq)
  qed
qed

lemma cadence_history:
  assumes "cadence_inv c published" and "foldl (feed_client zlib) (c, published) inputs = (c', published')"
  shows "cadence_inv c' published'"
  using assms
proof (induction inputs arbitrary: c published)
  case (Cons i inputs)
  obtain c1 p1 where f: "feed_client zlib (c, published) i = (c1, p1)" by (rule prod.exhaust)
  then show ?case using Cons.IH [OF cadence_fed [OF Cons.prems(1) f]] Cons.prems(2) by simp
qed simp

lemma cadence_new: "cadence_inv (new_client symbol book True True pd qd onTick t0) t0"
  by (simp add: cadence_inv_def new_client_def deltas_since_def)

text \<open>
  C23 (bounds): the feed is never long without a snapshot. Take a client with both callbacks,
  fed with any outcomes of the parser on any connections (malformed frames, other symbols,
  rejected messages and failing writes included), whose last input is a message of its symbol
  that was accepted (the checksum kept in the book is the announced one), and suppose fewer
  than \<open>2^64\<close> events were logged. Then fewer than 500 delta callbacks follow the
  last snapshot callback (or the start, if there was none), and either a snapshot was published
  for that message or less than five seconds had passed since the last one was (or the client
  was made), by the clock readings the client took.
\<close>

theorem snapshot_cadence:
  assumes "foldl (feed_client zlib) (new_client symbol book True True pd qd onTick t0, t0) inputs = (c, published)"
    and "feed_client zlib (c, published) (ws, net, t, Inr (Some msg)) = (c', published')"
    and "msg_symbol msg = cl_symbol c" and "lastCheckSum (cl_book c') = msg_checksum msg"
    and "length (cl_log c') < 2 ^ 64"
  shows "deltas_since (cl_log c') < 500
    \<and> (list_ex is_snapshot_event (new_events c c') \<or> fst t - published' < 5000000000)"
proof -
  let ?c = "c\<lparr>cl_ws := ws\<rparr>"
  note inv = cadence_fed [OF cadence_history [OF cadence_new assms(1)] assms(2)]
  obtain exc c1 where a: "applyMessage zlib net t msg ?c = (exc, c1)" by (rule prod.exhaust)
  have book: "cl_book c' = cl_book c1" using assms(2) by (auto simp: feed_client_def handle_parsed_def and_then_def a emit_def split: option.splits)
  note ok = accepted_checksum [OF _ a, unfolded book [symmetric], OF _ assms(4)]
  have "exc = None \<and> (c1 = publishSnapshot (snd t) (applied zlib msg ?c)
      \<or> deltasSinceSnapshot c1 < kSnapshotDeltaThreshold \<and> fst t - lastSnapshotTime c1 < kSnapshotInterval)"
    using assms(3) by (cases rule: applyMessage_accepted [OF _ ok a]) simp_all
  then have exc: "exc = None" and due: "c1 = publishSnapshot (snd t) (applied zlib msg ?c)
      \<or> deltasSinceSnapshot c1 < kSnapshotDeltaThreshold \<and> fst t - lastSnapshotTime c1 < kSnapshotInterval" by auto
  have c': "c' = tick c1" using assms(2) by (simp add: feed_client_def handle_parsed_def and_then_def a exc tick_def)
  have counters: "deltasSinceSnapshot c' = deltasSinceSnapshot c1" "lastSnapshotTime c' = lastSnapshotTime c1"
    by (simp_all add: c' tick_def emit_def)
  have on: "cl_onSnapshot c" using cadence_history [OF cadence_new assms(1)] by (simp add: cadence_inv_def)
  have "unat (deltasSinceSnapshot c') = deltas_since (cl_log c')"
    using inv assms(5) deltas_since_le [of "cl_log c'"]
    by (simp add: cadence_inv_def unat_of_nat)
  moreover have "unat (deltasSinceSnapshot c') < 500"
    using due by (auto simp: counters kSnapshotDeltaThreshold_def word_less_nat_alt)
  moreover have "list_ex is_snapshot_event (new_events c c') \<or> fst t - published' < 5000000000"
    using due inv on by (auto simp: counters cadence_inv_def kSnapshotInterval_def c' new_events_def tick_def emit_def)
  ultimately show ?thesis by simp
qed

theorem snapshot_cadence_witness:
  "case feed_client demo_zlib (demo_client, 0) (True, \<lambda>_. True, (4000000000, 4000000001), Inr (Some demo_msg)) of
     (c', published') \<Rightarrow> deltas_since (cl_log c') < 500 \<and> 4000000000 - published' < 5000000000"
proof -
  let ?t = "(4000000000, 4000000001) :: readings"
  obtain c' p' where f: "feed_client demo_zlib (demo_client, 0) (True, \<lambda>_. True, ?t, Inr (Some demo_msg)) = (c', p')"
    by (rule prod.exhaust)
  let ?c = "demo_client\<lparr>cl_ws := True\<rparr>"
  have a: "applyMessage demo_zlib (\<lambda>_. True) ?t demo_msg ?c = (None, applied demo_zlib demo_msg ?c)"
    by (simp add: applyMessage_eq maybePublishSnapshot_def kSnapshotInterval_def kSnapshotDeltaThreshold_def)
      (simp add: applied_def demo_delta_count word_le_nat_alt)
  have d: "applied_events demo_msg new_book = [OnDelta Bid (Price 25000000000) (Quantity 10000000000) 1]"
    by (simp add: applied_events_def demo_feed) (simp add: new_book_def)
  have c': "c' = tick (applied demo_zlib demo_msg ?c)" "p' = 0"
    using f by (auto simp: feed_client_def handle_parsed_def and_then_def a tick_def new_events_def emit_def d is_snapshot_event_def
        split: if_splits)
  have "lastCheckSum (cl_book c') = 7" "length (cl_log c') < 2 ^ 64" by (simp_all add: c' tick_def emit_def d)
  then show ?thesis
    using snapshot_cadence [of demo_zlib "''BTC/USD''" new_book 1 8 True 0 "[]", folded demo_client_def, OF _ f]
    by (simp add: f c'(2))
qed

text \<open>
  Whatever frames arrive and however connections fail, both sides of the
  book stay strictly best-first sorted, without empty levels and within the depth limit, up
  to the end of \<^verbatim>\<open>run\<close>.
\<close>

lemma run_keeps_book_sorted:
  assumes "book_inv (cl_book c)"
  shows "book_inv (cl_book (fst (run js zlib net attempts c)))"
  using run_loop_inv [OF assms] by (simp add: run_def)

text \<open>
  C22 (liveness): reconnection delays. While every attempt fails, the delay before retry
  \<open>k\<close> is \<open>500 * 2\<^sup>k\<close> milliseconds, capped at 32 seconds, and the loop never gives up.
\<close>

theorem reconnect_backoff:
  assumes "\<forall>a \<in> set attempts. at_connect a \<noteq> Connected \<and> \<not> at_stop a"
  shows "snd (run js zlib net attempts c) = map (\<lambda>k. min (500 * 2 ^ k) 32000) [0..<length attempts]"
proof -
  have "map (\<lambda>a. at_connect a = Connected \<and> net (subscribe_text (cl_symbol c))) attempts = replicate (length attempts) False"
    using assms by (induction attempts) auto
  then show ?thesis
    using run_loop_waits [of attempts js zlib net kInitialBackoff c] assms backoffs_failing [of kInitialBackoff "length attempts"]
    by (simp add: run_def kInitialBackoff_def kMaxBackoff_def)
qed

theorem reconnect_backoff_witness:
  "snd (run (tree_js demo_tree) demo_zlib (\<lambda>_. True)
     (replicate 8 \<lparr>at_connect = Resolve_failed, at_frames = [], at_stop = False\<rparr>) demo_client)
   = [500, 1000, 2000, 4000, 8000, 16000, 32000, 32000]"
  using reconnect_backoff [of "replicate 8 \<lparr>at_connect = Resolve_failed, at_frames = [], at_stop = False\<rparr>"
      "tree_js demo_tree" demo_zlib "\<lambda>_. True" demo_client]
  by (simp add: upt_rec)

end
