(* ===== verification/Matching_Engine.thy ===== *)
theory Matching_Engine
  imports Order_Book
begin

text \<open>
  The paper matching engine, \<^verbatim>\<open>engine/include/engine/matching/paper_order.hpp\<close>,
  \<^verbatim>\<open>matching_engine.hpp\<close> and \<^verbatim>\<open>engine/src/matching/matching_engine.cpp\<close>.

  The hash map \<^verbatim>\<open>restingOrders_\<close> is the list of its entries in iteration order; the C++
  standard leaves that order open, and the lemmas hold for every list with distinct keys.
  \<^verbatim>\<open>lastObservedSize_\<close>, which the code never iterates, is a partial function. The book
  is read through a reference in the code and is an argument here. The fill callback
  appends to a list of fills; its timestamps come from the wall clock, which is a
  parameter \<open>now\<close>: \<open>now k\<close> is the reading at the \<open>k\<close>-th fill of a call.
\<close>

section \<open>Definitions\<close>

datatype OrderType = Market | Limit

record PaperOrder =
  po_orderId :: u64
  po_symbol :: string
  po_side :: BookSide
  po_type :: OrderType
  po_price :: Price
  remainingSize :: Quantity
  queueAheadSize :: Quantity
  insertedAtSeq :: u64

record Fill =
  fill_orderId :: u64
  fill_price :: Price
  fill_size :: Quantity
  fill_timestamp :: u64

record OrderResult =
  accepted :: bool
  result_orderId :: u64
  rejectReason :: string
  filledSize :: Quantity

type_synonym LevelKey = "BookSide \<times> Price"
type_synonym clock = "nat \<Rightarrow> u64"

record MatchingEngine =
  me_symbol :: string
  me_onFill :: bool
  restingOrders :: "(u64 \<times> PaperOrder) list"
  lastObservedSize :: "LevelKey \<rightharpoonup> Quantity"

definition new_engine :: "string \<Rightarrow> bool \<Rightarrow> MatchingEngine" where
  "new_engine symbol onFill = \<lparr>me_symbol = symbol, me_onFill = onFill, restingOrders = [], lastObservedSize = Map.empty\<rparr>"

definition emitFill :: "MatchingEngine \<Rightarrow> clock \<Rightarrow> Fill list \<Rightarrow> u64 \<Rightarrow> Price \<Rightarrow> Quantity \<Rightarrow> Fill list" where
  "emitFill e now fills orderId price sz =
     (if me_onFill e
      then fills @ [\<lparr>fill_orderId = orderId, fill_price = price, fill_size = sz, fill_timestamp = now (length fills)\<rparr>]
      else fills)"

definition order_at :: "LevelKey \<Rightarrow> PaperOrder \<Rightarrow> bool" where
  "order_at key order \<longleftrightarrow> po_side order = fst key \<and> po_price order = snd key"

definition anyRestingOrderAt :: "MatchingEngine \<Rightarrow> LevelKey \<Rightarrow> bool" where
  "anyRestingOrderAt e key \<longleftrightarrow> list_ex (\<lambda>(oid, order). order_at key order) (restingOrders e)"

definition rejected :: "string \<Rightarrow> OrderResult" where
  "rejected reason = \<lparr>accepted = False, result_orderId = 0, rejectReason = reason, filledSize = Quantity 0\<rparr>"

definition opposite_side :: "OrderBook \<Rightarrow> BookSide \<Rightarrow> OrderBookSide" where
  "opposite_side book side = (if side = Bid then asks book else bids book)"

definition own_side :: "OrderBook \<Rightarrow> BookSide \<Rightarrow> OrderBookSide" where
  "own_side book side = (if side = Bid then bids book else asks book)"

definition crossed :: "BookSide \<Rightarrow> OrderType \<Rightarrow> Price \<Rightarrow> PriceLevel \<Rightarrow> bool" where
  "crossed side type price level =
     (type = Limit \<longrightarrow> (if side = Bid then level_price level \<le> price else level_price level \<ge> price))"

text \<open>The walk over the opposite side: remaining size and the fills emitted so far.\<close>

fun match_levels :: "MatchingEngine \<Rightarrow> clock \<Rightarrow> u64 \<Rightarrow> BookSide \<Rightarrow> OrderType \<Rightarrow> Price \<Rightarrow> PriceLevel list
    \<Rightarrow> Quantity \<Rightarrow> Fill list \<Rightarrow> Quantity \<times> Fill list" where
  "match_levels e now orderId side type price [] remaining fills = (remaining, fills)"
| "match_levels e now orderId side type price (level # levels) remaining fills =
     (if qty_ticks remaining \<le> 0 then (remaining, fills)
      else if \<not> crossed side type price level then (remaining, fills)
      else let fillSize = min remaining (level_quantity level)
           in match_levels e now orderId side type price levels (remaining - fillSize)
                (emitFill e now fills orderId (level_price level) fillSize))"

definition emplace_order :: "(u64 \<times> PaperOrder) list \<Rightarrow> u64 \<Rightarrow> PaperOrder \<Rightarrow> (u64 \<times> PaperOrder) list" where
  "emplace_order os orderId order = (if map_of os orderId = None then os @ [(orderId, order)] else os)"

definition placeOrder :: "OrderBook \<Rightarrow> clock \<Rightarrow> MatchingEngine \<Rightarrow> u64 \<Rightarrow> BookSide \<Rightarrow> OrderType \<Rightarrow> Price \<Rightarrow> Quantity
    \<Rightarrow> MatchingEngine \<times> Fill list \<times> OrderResult" where
  "placeOrder book now e orderId side type price sz =
     (if qty_ticks sz \<le> 0 then (e, [], rejected ''size must be positive'')
      else if type = Limit \<and> price_ticks price \<le> 0 then (e, [], rejected ''limit price must be positive'')
      else
        let (remaining, fills) =
              match_levels e now orderId side type price (depth (opposite_side book side) BOOK_DEPTH) sz [];
            e' = (if qty_ticks remaining > 0 \<and> type = Limit
                  then let queueAhead = sizeAtPrice (own_side book side) price;
                           order = \<lparr>po_orderId = orderId, po_symbol = me_symbol e, po_side = side, po_type = type,
                                    po_price = price, remainingSize = remaining, queueAheadSize = queueAhead,
                                    insertedAtSeq = lastSeq book\<rparr>;
                           key = (side, price);
                           observed = (if lastObservedSize e key = None
                                       then (lastObservedSize e)(key \<mapsto> queueAhead) else lastObservedSize e)
                       in e\<lparr>lastObservedSize := observed, restingOrders := emplace_order (restingOrders e) orderId order\<rparr>
                  else e)
        in (e', fills, \<lparr>accepted = True, result_orderId = orderId, rejectReason = [], filledSize = sz - remaining\<rparr>))"

definition erase_order :: "u64 \<Rightarrow> (u64 \<times> PaperOrder) list \<Rightarrow> (u64 \<times> PaperOrder) list" where
  "erase_order orderId os = filter (\<lambda>(oid, order). oid \<noteq> orderId) os"

definition cancelOrder :: "MatchingEngine \<Rightarrow> u64 \<Rightarrow> MatchingEngine \<times> OrderResult" where
  "cancelOrder e orderId =
     (case map_of (restingOrders e) orderId of
        None \<Rightarrow> (e, rejected ''order not found'')
      | Some order \<Rightarrow>
          let key = (po_side order, po_price order);
              e' = e\<lparr>restingOrders := erase_order orderId (restingOrders e)\<rparr>;
              e'' = (if \<not> anyRestingOrderAt e' key
                     then e'\<lparr>lastObservedSize := (lastObservedSize e')(key := None)\<rparr> else e')
          in (e'', \<lparr>accepted = True, result_orderId = orderId, rejectReason = [], filledSize = Quantity 0\<rparr>))"

text \<open>The loop of \<^verbatim>\<open>onBookDelta\<close>: the updated entries, the fills, the fully filled ids.\<close>

fun reduce_orders :: "MatchingEngine \<Rightarrow> clock \<Rightarrow> LevelKey \<Rightarrow> Quantity \<Rightarrow> (u64 \<times> PaperOrder) list \<Rightarrow> Fill list
    \<Rightarrow> (u64 \<times> PaperOrder) list \<times> Fill list \<times> u64 list" where
  "reduce_orders e now key reduction [] fills = ([], fills, [])"
| "reduce_orders e now key reduction ((orderId, order) # os) fills =
     (if \<not> order_at key order
      then let (os', fills', full) = reduce_orders e now key reduction os fills
           in ((orderId, order) # os', fills', full)
      else
        let absorbed = min (queueAheadSize order) reduction;
            order1 = order\<lparr>queueAheadSize := queueAheadSize order - absorbed\<rparr>;
            overflow = reduction - absorbed
        in if qty_ticks overflow > 0 \<and> qty_ticks (remainingSize order1) > 0
           then let fillSize = min overflow (remainingSize order1);
                    fills1 = emitFill e now fills orderId (po_price order1) fillSize;
                    order2 = order1\<lparr>remainingSize := remainingSize order1 - fillSize\<rparr>;
                    (os', fills', full) = reduce_orders e now key reduction os fills1
                in ((orderId, order2) # os', fills',
                    if qty_ticks (remainingSize order2) = 0 then orderId # full else full)
           else let (os', fills', full) = reduce_orders e now key reduction os fills
                in ((orderId, order1) # os', fills', full))"

definition onBookDelta :: "clock \<Rightarrow> MatchingEngine \<Rightarrow> BookSide \<Rightarrow> Price \<Rightarrow> Quantity \<Rightarrow> MatchingEngine \<times> Fill list" where
  "onBookDelta now e side price newQuantity =
     (let key = (side, price)
      in case lastObservedSize e key of
           None \<Rightarrow> (e, [])
         | Some previous \<Rightarrow>
             let e1 = e\<lparr>lastObservedSize := (lastObservedSize e)(key \<mapsto> newQuantity)\<rparr>
             in if qty_ticks newQuantity \<ge> qty_ticks previous then (e1, [])
                else
                  let reduction = previous - newQuantity;
                      (os, fills, fullyFilled) = reduce_orders e1 now key reduction (restingOrders e1) [];
                      e2 = e1\<lparr>restingOrders := foldl (\<lambda>os oid. erase_order oid os) os fullyFilled\<rparr>;
                      e3 = (if \<not> anyRestingOrderAt e2 key
                            then e2\<lparr>lastObservedSize := (lastObservedSize e2)(key := None)\<rparr> else e2)
                  in (e3, fills))"

section \<open>Specification vocabulary\<close>

text \<open>A size the engine works with: non-negative and representable.\<close>

definition nonneg_qty :: "Quantity \<Rightarrow> bool" where
  "nonneg_qty q \<longleftrightarrow> 0 \<le> qty_ticks q \<and> in_s64 (qty_ticks q)"

definition pos_qty :: "Quantity \<Rightarrow> bool" where
  "pos_qty q \<longleftrightarrow> 0 < qty_ticks q \<and> in_s64 (qty_ticks q)"

definition side_pos :: "OrderBookSide \<Rightarrow> bool" where
  "side_pos s \<longleftrightarrow> side_inv s \<and> (\<forall>l \<in> set (levels_of s). pos_qty (level_quantity l))"

definition book_pos :: "OrderBook \<Rightarrow> bool" where
  "book_pos b \<longleftrightarrow> book_inv b \<and> side_pos (bids b) \<and> side_pos (asks b)"

definition levels_total :: "PriceLevel list \<Rightarrow> int" where
  "levels_total ls = sum_list (map (\<lambda>l. qty_ticks (level_quantity l)) ls)"

definition crossing_levels :: "OrderBook \<Rightarrow> BookSide \<Rightarrow> OrderType \<Rightarrow> Price \<Rightarrow> PriceLevel list" where
  "crossing_levels book side type price =
     (case type of
        Market \<Rightarrow> (case side of Bid \<Rightarrow> levels_of (asks book) | Ask \<Rightarrow> levels_of (bids book))
      | Limit \<Rightarrow> (case side of
            Bid \<Rightarrow> filter (\<lambda>l. level_price l \<le> price) (levels_of (asks book))
          | Ask \<Rightarrow> filter (\<lambda>l. price \<le> level_price l) (levels_of (bids book))))"

text \<open>The size the market shows at a price on the side a new order joins.\<close>

definition displayed_size :: "OrderBook \<Rightarrow> BookSide \<Rightarrow> Price \<Rightarrow> Quantity" where
  "displayed_size book side price =
     (case (case side of Bid \<Rightarrow> side_map (bids book) | Ask \<Rightarrow> side_map (asks book)) price of
        None \<Rightarrow> Quantity 0 | Some q \<Rightarrow> q)"

definition fills_total :: "Fill list \<Rightarrow> int" where
  "fills_total fs = sum_list (map (\<lambda>f. qty_ticks (fill_size f)) fs)"

definition fill_size_ticks :: "Fill \<Rightarrow> int" where
  "fill_size_ticks f = qty_ticks (fill_size f)"

text \<open>Greedy consumption of a list of levels, in unbounded integers.\<close>

fun greedy :: "int \<Rightarrow> PriceLevel list \<Rightarrow> (Price \<times> int) list" where
  "greedy r [] = []"
| "greedy r (l # ls) =
     (if r \<le> 0 then [] else let f = min r (qty_ticks (level_quantity l)) in (level_price l, f) # greedy (r - f) ls)"

definition key_of :: "PaperOrder \<Rightarrow> LevelKey" where
  "key_of order = (po_side order, po_price order)"

definition order_keys :: "(u64 \<times> PaperOrder) list \<Rightarrow> LevelKey set" where
  "order_keys os = (\<lambda>x. key_of (snd x)) ` set os"

definition order_ok :: "u64 \<times> PaperOrder \<Rightarrow> bool" where
  "order_ok e \<longleftrightarrow> (case e of (oid, order) \<Rightarrow> po_orderId order = oid \<and> po_type order = Limit \<and> 0 < price_ticks (po_price order)
     \<and> pos_qty (remainingSize order) \<and> nonneg_qty (queueAheadSize order))"

text \<open>
  The engine's invariant: distinct ids, well-formed limit orders, and a level is tracked
  in \<^verbatim>\<open>lastObservedSize_\<close> exactly when some order rests there.
\<close>

definition engine_inv :: "MatchingEngine \<Rightarrow> bool" where
  "engine_inv e \<longleftrightarrow> distinct (map fst (restingOrders e))
     \<and> (\<forall>x \<in> set (restingOrders e). order_ok x)
     \<and> dom (lastObservedSize e) = order_keys (restingOrders e)
     \<and> (\<forall>key q. lastObservedSize e key = Some q \<longrightarrow> nonneg_qty q)"

section \<open>Lemmas: matching against the book\<close>

lemma crossing_levels_filter:
  "crossing_levels book side type price = filter (crossed side type price) (levels_of (opposite_side book side))"
  by (cases type; cases side) (simp_all add: crossing_levels_def opposite_side_def, auto simp: crossed_def fun_eq_iff intro!: filter_cong)

lemma order_at_key_of: "order_at key order \<longleftrightarrow> key_of order = key"
  by (auto simp: order_at_def key_of_def)

lemma levels_total_nonneg: "\<forall>l \<in> set ls. pos_qty (level_quantity l) \<Longrightarrow> 0 \<le> levels_total ls"
  unfolding levels_total_def by (rule sum_list_nonneg) (force simp: pos_qty_def)

lemma greedy_total: "0 \<le> r \<Longrightarrow> \<forall>l \<in> set ls. pos_qty (level_quantity l) \<Longrightarrow>
  sum_list (map snd (greedy r ls)) = min r (levels_total ls)"
proof (induction ls arbitrary: r)
  case Nil
  then show ?case by (simp add: levels_total_def)
next
  case (Cons l ls)
  have "0 \<le> levels_total ls" using Cons.prems by (simp add: levels_total_nonneg)
  with Cons show ?case by (auto simp: levels_total_def Let_def pos_qty_def)
qed

lemma greedy_nth:
  assumes "\<forall>l \<in> set ls. pos_qty (level_quantity l)" and "i < length (greedy r ls)"
  shows "i < length ls \<and> fst (greedy r ls ! i) = level_price (ls ! i)
    \<and> 0 < snd (greedy r ls ! i) \<and> snd (greedy r ls ! i) \<le> qty_ticks (level_quantity (ls ! i))
    \<and> (Suc i < length (greedy r ls) \<longrightarrow> snd (greedy r ls ! i) = qty_ticks (level_quantity (ls ! i)))"
  using assms
proof (induction ls arbitrary: r i)
  case Nil
  then show ?case by simp
next
  case (Cons l ls)
  show ?case
  proof (cases i)
    case 0
    then show ?thesis
      using Cons.prems by (cases ls) (auto simp: Let_def pos_qty_def split: if_splits)
  next
    case (Suc j)
    with Cons.prems have r: "0 < r" by (auto split: if_splits)
    with Cons.IH [of j "r - min r (qty_ticks (level_quantity l))"] Cons.prems Suc
    show ?thesis by (auto simp: Let_def)
  qed
qed

text \<open>The fills a sequence of \<^verbatim>\<open>emitFill\<close> calls appends: order, price and size in ticks.\<close>

definition emit_all :: "MatchingEngine \<Rightarrow> clock \<Rightarrow> Fill list \<Rightarrow> (u64 \<times> Price \<times> int) list \<Rightarrow> Fill list" where
  "emit_all e now fills xs = foldl (\<lambda>fs (oid, p, n). emitFill e now fs oid p (Quantity n)) fills xs"

definition fill_view :: "Fill \<Rightarrow> u64 \<times> Price \<times> int" where
  "fill_view f = (fill_orderId f, fill_price f, qty_ticks (fill_size f))"

lemma emit_all_append:
  assumes "me_onFill e"
  shows "map fill_view (emit_all e now fs xs) = map fill_view fs @ xs"
  by (induction xs arbitrary: fs)
    (use assms in \<open>auto simp: emit_all_def emitFill_def fill_view_def\<close>)

lemma emit_all_Nil: "me_onFill e \<Longrightarrow> map fill_view (emit_all e now [] xs) = xs"
  by (simp add: emit_all_append)

lemma emit_all_silent: "\<not> me_onFill e \<Longrightarrow> emit_all e now fs xs = fs"
  by (induction xs arbitrary: fs) (auto simp: emit_all_def emitFill_def)

lemma fills_total_view: "fills_total fs = sum_list (map (\<lambda>(oid, p, n). n) (map fill_view fs))"
  by (simp add: fills_total_def fill_view_def o_def)

definition mk_fills :: "MatchingEngine \<Rightarrow> clock \<Rightarrow> u64 \<Rightarrow> Fill list \<Rightarrow> (Price \<times> int) list \<Rightarrow> Fill list" where
  "mk_fills e now orderId fills ps = emit_all e now fills (map (\<lambda>(p, n). (orderId, p, n)) ps)"

lemma mk_fills_simps [simp]:
  "mk_fills e now oid fs [] = fs"
  "mk_fills e now oid fs ((p, n) # ps) = mk_fills e now oid (emitFill e now fs oid p (Quantity n)) ps"
  by (simp_all add: mk_fills_def emit_all_def)

lemma match_levels_greedy:
  fixes side :: BookSide and type :: OrderType and price :: Price
  assumes "nonneg_qty r" and "\<forall>l \<in> set ls. pos_qty (level_quantity l)"
  defines "g \<equiv> greedy (qty_ticks r) (takeWhile (crossed side type price) ls)"
  shows "match_levels e now oid side type price ls r fills
    = (Quantity (qty_ticks r - sum_list (map snd g)), mk_fills e now oid fills g)"
  using assms(1,2) unfolding g_def
proof (induction ls arbitrary: r fills)
  case Nil
  then show ?case by simp
next
  case (Cons l ls)
  show ?case
  proof (cases "qty_ticks r \<le> 0 \<or> \<not> crossed side type price l")
    case True
    then show ?thesis by auto
  next
    case False
    define f where "f = min r (level_quantity l)"
    have f: "0 < qty_ticks f" "qty_ticks f \<le> qty_ticks r" using False Cons.prems by (auto simp: f_def pos_qty_def)
    have r': "qty_ticks (r - f) = qty_ticks r - qty_ticks f" "nonneg_qty (r - f)"
      using f Cons.prems(1) by (simp_all add: nonneg_qty_def)
    have f_eq: "Quantity (min (qty_ticks r) (qty_ticks (level_quantity l))) = f"
      by (rule Quantity.expand) (simp add: f_def)
    from Cons.IH [OF r'(2)] Cons.prems(2) False r'(1) f_eq show ?thesis
      by (simp add: Let_def f_def [symmetric]) (simp add: f_def)
  qed
qed

lemma mk_fills_view:
  assumes "me_onFill e"
  shows "map fill_view (mk_fills e now oid [] g) = map (\<lambda>(p, n). (oid, p, n)) g"
  by (simp add: mk_fills_def emit_all_Nil [OF assms])

lemma fills_total_mk_fills:
  assumes "me_onFill e"
  shows "fills_total (mk_fills e now oid [] g) = sum_list (map snd g)"
  by (simp add: fills_total_view mk_fills_view [OF assms] o_def case_prod_unfold)

lemma opposite_side_props:
  assumes "book_pos book"
  shows "side_inv (opposite_side book side)" and "\<forall>l \<in> set (levels_of (opposite_side book side)). pos_qty (level_quantity l)"
    and "side_of (opposite_side book side) = (if side = Bid then Ask else Bid)"
    and "side_pos (own_side book side)" and "side_of (own_side book side) = side"
  using assms by (cases side; simp add: opposite_side_def own_side_def book_pos_def side_pos_def book_inv_def)+

lemma sizeAtPrice_own:
  assumes "book_pos book"
  shows "sizeAtPrice (own_side book side) price = displayed_size book side price"
  using assms by (cases side) (simp_all add: own_side_def displayed_size_def sizeAtPrice_eq book_pos_def side_pos_def)

lemma crossing_levels_takeWhile:
  assumes "book_pos book"
  shows "crossing_levels book side type price = takeWhile (crossed side type price) (levels_of (opposite_side book side))"
proof -
  define s where "s = opposite_side book side"
  have srt: "sorted_wrt (better s) (map level_price (levels_of s))"
    using side_inv_sorted [OF opposite_side_props(1) [OF assms]] by (simp add: s_def)
  have mono: "crossed side type price x" if "better s (level_price x) (level_price y)" "crossed side type price y" for x y
    using that opposite_side_props(3) [OF assms, of side]
    by (auto simp: s_def better_def crossed_def split: if_splits)
  have "partitioned (crossed side type price) (levels_of s)"
    unfolding partitioned_def using srt by (auto simp: sorted_wrt_map intro: sorted_wrt_mono_rel [rotated] mono)
  then show ?thesis by (simp add: crossing_levels_filter s_def [symmetric] partitioned_filter)
qed

text \<open>What a limit order leaves behind: its entry and, if new, the tracked level.\<close>

definition resting_order :: "OrderBook \<Rightarrow> MatchingEngine \<Rightarrow> u64 \<Rightarrow> BookSide \<Rightarrow> Price \<Rightarrow> Quantity \<Rightarrow> PaperOrder" where
  "resting_order book e oid side price r =
     \<lparr>po_orderId = oid, po_symbol = me_symbol e, po_side = side, po_type = Limit, po_price = price, remainingSize = r,
      queueAheadSize = sizeAtPrice (own_side book side) price, insertedAtSeq = lastSeq book\<rparr>"

definition rest_order :: "OrderBook \<Rightarrow> MatchingEngine \<Rightarrow> u64 \<Rightarrow> BookSide \<Rightarrow> Price \<Rightarrow> Quantity \<Rightarrow> MatchingEngine" where
  "rest_order book e oid side price r =
     e\<lparr>lastObservedSize := (if lastObservedSize e (side, price) = None
          then (lastObservedSize e)((side, price) \<mapsto> sizeAtPrice (own_side book side) price) else lastObservedSize e),
       restingOrders := emplace_order (restingOrders e) oid (resting_order book e oid side price r)\<rparr>"

lemma placeOrder_accept:
  fixes side :: BookSide
  assumes "book_pos book" and "pos_qty sz" and "type = Limit \<longrightarrow> 0 < price_ticks price"
  defines "cs \<equiv> crossing_levels book side type price"
  shows "placeOrder book now e oid side type price sz =
    (if type = Limit \<and> levels_total cs < qty_ticks sz
     then rest_order book e oid side price (Quantity (qty_ticks sz - levels_total cs)) else e,
     mk_fills e now oid [] (greedy (qty_ticks sz) cs),
     \<lparr>accepted = True, result_orderId = oid, rejectReason = [], filledSize = Quantity (min (qty_ticks sz) (levels_total cs))\<rparr>)"
proof -
  define s where "s = opposite_side book side"
  have pos: "\<forall>l \<in> set (levels_of s). pos_qty (level_quantity l)"
    using opposite_side_props(2) [OF assms(1)] by (simp add: s_def)
  have len: "take BOOK_DEPTH (levels_of s) = levels_of s"
    using opposite_side_props(1) [OF assms(1), of side] by (simp add: s_def side_inv_def)
  have cs: "cs = takeWhile (crossed side type price) (levels_of s)"
    unfolding cs_def s_def by (rule crossing_levels_takeWhile [OF assms(1)])
  have pcs: "\<forall>l \<in> set cs. pos_qty (level_quantity l)" using pos by (auto simp: cs dest: set_takeWhileD)
  have nn: "0 \<le> levels_total cs" using levels_total_nonneg [OF pcs] .
  define filled where "filled = min (qty_ticks sz) (levels_total cs)"
  have tot: "sum_list (map snd (greedy (qty_ticks sz) cs)) = filled"
    using greedy_total [OF _ pcs] assms(2) by (simp add: filled_def pos_qty_def)
  have m: "match_levels e now oid side type price (depth s BOOK_DEPTH) sz [] =
      (Quantity (qty_ticks sz - filled), mk_fills e now oid [] (greedy (qty_ticks sz) cs))"
    using match_levels_greedy [OF _ pos, of sz e now oid side type price "[]"] assms(2) len tot
    by (simp add: nonneg_qty_def pos_qty_def cs)
  have sub: "sz - Quantity (qty_ticks sz - filled) = Quantity filled"
  proof (rule Quantity.expand)
    have "in_s64 filled" using nn assms(2) by (auto simp: filled_def pos_qty_def in_s64_def)
    then show "qty_ticks (sz - Quantity (qty_ticks sz - filled)) = qty_ticks (Quantity filled)" by simp
  qed
  have guards: "\<not> qty_ticks sz \<le> 0" "\<not> (type = Limit \<and> price_ticks price \<le> 0)"
    using assms(2,3) by (auto simp: pos_qty_def)
  have rem: "filled < qty_ticks sz \<longleftrightarrow> levels_total cs < qty_ticks sz"
    by (auto simp: filled_def)
  have ord: "rest_order book e oid side price (Quantity (qty_ticks sz - filled)) =
     (let queueAhead = sizeAtPrice (own_side book side) price;
          order = \<lparr>po_orderId = oid, po_symbol = me_symbol e, po_side = side, po_type = type,
                    po_price = price, remainingSize = Quantity (qty_ticks sz - filled), queueAheadSize = queueAhead,
                    insertedAtSeq = lastSeq book\<rparr>;
          key = (side, price);
          observed = (if lastObservedSize e key = None
                      then (lastObservedSize e)(key \<mapsto> queueAhead) else lastObservedSize e)
      in e\<lparr>lastObservedSize := observed, restingOrders := emplace_order (restingOrders e) oid order\<rparr>)"
    if "type = Limit"
    using that by (simp add: rest_order_def resting_order_def Let_def)
  have less: "levels_total cs < qty_ticks sz \<Longrightarrow> filled = levels_total cs" by (simp add: filled_def)
  show ?thesis
    unfolding placeOrder_def s_def [symmetric] m if_not_P [OF guards(1)] if_not_P [OF guards(2)]
    using ord less sub rem by (auto simp: filled_def [symmetric] Let_def)
qed

section \<open>Properties\<close>

definition demo_level :: "int \<Rightarrow> int \<Rightarrow> PriceLevel" where
  "demo_level p q = \<lparr>level_price = Price p, level_quantity = Quantity q\<rparr>"

definition demo_book :: OrderBook where
  "demo_book = new_book\<lparr>asks := \<lparr>side_of = Ask, levels_of = [demo_level 100 5, demo_level 101 7]\<rparr>,
     bids := \<lparr>side_of = Bid, levels_of = [demo_level 99 3]\<rparr>\<rparr>"

definition demo_now :: clock where "demo_now k = of_nat k"

definition demo_engine :: MatchingEngine where "demo_engine = new_engine ''BTC/USD'' True"

lemma demo_engine_simps [simp]:
  "me_onFill demo_engine" "restingOrders demo_engine = []" "lastObservedSize demo_engine = Map.empty"
  by (simp_all add: demo_engine_def new_engine_def)

lemma demo_book_pos: "book_pos demo_book"
  by (simp add: book_pos_def book_inv_def side_pos_def side_inv_def demo_book_def demo_level_def new_book_def
      new_side_def better_def less_Price_iff pos_qty_def in_s64_def BOOK_DEPTH_def)

lemma demo_crossing:
  "crossing_levels demo_book Bid Limit (Price 100) = [demo_level 100 5]"
  "levels_total (crossing_levels demo_book Bid Limit (Price 100)) = 5"
  "crossing_levels demo_book Bid Market p = [demo_level 100 5, demo_level 101 7]"
  "levels_total (crossing_levels demo_book Bid Market p) = 12"
  by (simp_all add: crossing_levels_filter opposite_side_def demo_book_def demo_level_def crossed_def less_eq_Price_iff
      levels_total_def)

lemma placeOrder_filled:
  assumes "book_pos book" and "pos_qty sz" and "type = Limit \<longrightarrow> 0 < price_ticks price" and "me_onFill e"
    and "placeOrder book now e oid side type price sz = (e', fills, res)"
  shows "accepted res \<and> result_orderId res = oid
    \<and> qty_ticks (filledSize res) = min (qty_ticks sz) (levels_total (crossing_levels book side type price))
    \<and> fills_total fills = qty_ticks (filledSize res)
    \<and> (\<forall>f \<in> set fills. fill_orderId f = oid)"
proof -
  let ?cs = "crossing_levels book side type price"
  have pcs: "\<forall>l \<in> set ?cs. pos_qty (level_quantity l)"
    using opposite_side_props(2) [OF assms(1)] by (auto simp: crossing_levels_filter)
  have fills: "fills = mk_fills e now oid [] (greedy (qty_ticks sz) ?cs)"
    and res: "accepted res" "result_orderId res = oid" "filledSize res = Quantity (min (qty_ticks sz) (levels_total ?cs))"
    using placeOrder_accept [OF assms(1-3)] assms(5) by auto
  have "fills_total fills = min (qty_ticks sz) (levels_total ?cs)"
    unfolding fills fills_total_mk_fills [OF assms(4)]
    using assms(2) by (intro greedy_total [OF _ pcs]) (simp add: pos_qty_def)
  moreover have "fill_orderId f = oid" if "f \<in> set fills" for f
  proof -
    have "fill_view f \<in> set (map fill_view fills)" using that by simp
    then show ?thesis unfolding fills mk_fills_view [OF assms(4)] by (auto simp: fill_view_def)
  qed
  ultimately show ?thesis using res by simp
qed

text \<open>
  C6 (functional): an accepted order is filled synchronously by exactly the smaller of its
  size and the total quantity of the opposite levels that cross it (all of them for a
  market order, those at the limit price or better for a limit order), and the fills
  reported through the callback add up to the \<^verbatim>\<open>filledSize\<close> of the result and carry
  the order's id.
\<close>

theorem placeOrder_fill_amount:
  assumes "book_pos book" and "pos_qty sz" and "type = Limit \<longrightarrow> 0 < price_ticks price" and "me_onFill e"
    and "placeOrder book now e oid side type price sz = (e', fills, res)"
  shows "accepted res \<and> result_orderId res = oid
    \<and> qty_ticks (filledSize res) = min (qty_ticks sz) (levels_total (crossing_levels book side type price))
    \<and> fills_total fills = qty_ticks (filledSize res)
    \<and> (\<forall>f \<in> set fills. fill_orderId f = oid)"
  using assms by (rule placeOrder_filled)

theorem placeOrder_fill_amount_witness:
  "book_pos demo_book \<and> pos_qty (Quantity 8) \<and>
   (case placeOrder demo_book demo_now demo_engine 1 Bid Limit (Price 100) (Quantity 8) of
      (e', fills, res) \<Rightarrow> accepted res \<and> qty_ticks (filledSize res) = 5 \<and> fills_total fills = 5)"
proof -
  have q: "pos_qty (Quantity 8)" by (simp add: pos_qty_def in_s64_def)
  obtain e' fills res where
    p: "placeOrder demo_book demo_now demo_engine 1 Bid Limit (Price 100) (Quantity 8) = (e', fills, res)"
    by (metis prod_cases3)
  show ?thesis
    using q demo_book_pos placeOrder_fill_amount [OF demo_book_pos q _ _ p] demo_crossing(2)
    by (simp add: p)
qed

text \<open>
  C11 (functional): the fills walk the book best price first. The \<open>i\<close>-th fill is at the
  price of the \<open>i\<close>-th best crossing level, takes a positive amount of at most that level's
  quantity, and every fill but the last takes its level completely.
\<close>

theorem placeOrder_walks_best_first:
  assumes "book_pos book" and "pos_qty sz" and "type = Limit \<longrightarrow> 0 < price_ticks price" and "me_onFill e"
    and "placeOrder book now e oid side type price sz = (e', fills, res)" and "i < length fills"
  shows "i < length (crossing_levels book side type price)
    \<and> fill_price (fills ! i) = level_price (crossing_levels book side type price ! i)
    \<and> 0 < fill_size_ticks (fills ! i)
    \<and> fill_size_ticks (fills ! i) \<le> qty_ticks (level_quantity (crossing_levels book side type price ! i))
    \<and> (Suc i < length fills \<longrightarrow>
         fill_size_ticks (fills ! i) = qty_ticks (level_quantity (crossing_levels book side type price ! i)))"
proof -
  let ?cs = "crossing_levels book side type price"
  let ?g = "greedy (qty_ticks sz) ?cs"
  have pcs: "\<forall>l \<in> set ?cs. pos_qty (level_quantity l)"
    using opposite_side_props(2) [OF assms(1)] by (auto simp: crossing_levels_filter)
  have fills: "fills = mk_fills e now oid [] ?g"
    using placeOrder_accept [OF assms(1-3)] assms(5) by auto
  have view: "map fill_view fills = map (\<lambda>(p, n). (oid, p, n)) ?g"
    unfolding fills by (rule mk_fills_view [OF assms(4)])
  then have len: "length fills = length ?g" by (metis length_map)
  have "fill_view (fills ! i) = (oid, ?g ! i)"
    using view assms(6) len by (metis (no_types, lifting) nth_map case_prod_unfold prod.collapse)
  then have at: "fill_price (fills ! i) = fst (?g ! i)" "fill_size_ticks (fills ! i) = snd (?g ! i)"
    by (auto simp: fill_view_def fill_size_ticks_def dest: sym)
  show ?thesis
    using greedy_nth [OF pcs, of i "qty_ticks sz"] assms(6) len by (simp add: at)
qed

theorem placeOrder_walks_best_first_witness:
  "case placeOrder demo_book demo_now demo_engine 1 Bid Market (Price 0) (Quantity 8) of
      (e', fills, res) \<Rightarrow> length fills = 2 \<and> fill_price (fills ! 0) = Price 100 \<and> fill_size_ticks (fills ! 0) = 5
        \<and> fill_price (fills ! 1) = Price 101 \<and> fill_size_ticks (fills ! 1) \<le> 7"
proof -
  have q: "pos_qty (Quantity 8)" by (simp add: pos_qty_def in_s64_def)
  obtain e' fills res where
    p: "placeOrder demo_book demo_now demo_engine 1 Bid Market (Price 0) (Quantity 8) = (e', fills, res)"
    by (metis prod_cases3)
  have len: "length fills = 2"
    using p by (auto simp: placeOrder_def demo_book_def demo_level_def opposite_side_def crossed_def emitFill_def
        BOOK_DEPTH_def min_def less_eq_Quantity_iff minus_Quantity_def qty_subtract_def s64_def)
  show ?thesis
    using len placeOrder_walks_best_first [OF demo_book_pos q _ _ p, of 0]
      placeOrder_walks_best_first [OF demo_book_pos q _ _ p, of 1]
    by (simp add: p demo_crossing demo_level_def)
qed

text \<open>
  C14 (functional): what is left of a limit order rests, and nothing else does. On a book with
  positive quantities, for an order of positive size (and positive price, if it is a limit
  order) and an id that does not rest yet: if a limit order's size exceeds the crossing
  quantity, the entry added holds the unfilled rest, the size the book shows at its price on
  the order's own side (bids for a bid, asks for an ask, zero if the price has no level) as
  queue ahead of it, and the book's sequence number; that size becomes the tracked size of the
  level if the level was not tracked, and no other tracked size changes. A market order, or a
  limit order filled completely, leaves the engine unchanged.
\<close>

theorem placeOrder_rests_remainder:
  assumes "book_pos book" and "pos_qty sz" and "type = Limit \<longrightarrow> 0 < price_ticks price"
    and "map_of (restingOrders e) oid = None"
    and "placeOrder book now e oid side type price sz = (e', fills, res)"
  shows "if type = Limit \<and> levels_total (crossing_levels book side type price) < qty_ticks sz
    then restingOrders e' = restingOrders e @ [(oid, \<lparr>po_orderId = oid, po_symbol = me_symbol e, po_side = side,
           po_type = Limit, po_price = price,
           remainingSize = Quantity (qty_ticks sz - levels_total (crossing_levels book side type price)),
           queueAheadSize = displayed_size book side price, insertedAtSeq = lastSeq book\<rparr>)]
      \<and> lastObservedSize e' = (case lastObservedSize e (side, price) of
           None \<Rightarrow> (lastObservedSize e)((side, price) \<mapsto> displayed_size book side price)
         | Some tracked \<Rightarrow> lastObservedSize e)
    else e' = e"
  using placeOrder_accept [OF assms(1-3)] assms(4,5) sizeAtPrice_own [OF assms(1)]
  by (auto simp: rest_order_def resting_order_def emplace_order_def split: option.splits)

theorem placeOrder_rests_remainder_witness:
  "case placeOrder demo_book demo_now demo_engine 1 Bid Limit (Price 99) (Quantity 8) of
      (e', fills, res) \<Rightarrow> \<exists>order. restingOrders e' = [(1, order)] \<and> remainingSize order = Quantity 8
        \<and> queueAheadSize order = Quantity 3 \<and> lastObservedSize e' = [(Bid, Price 99) \<mapsto> Quantity 3]"
proof -
  have q: "pos_qty (Quantity 8)" by (simp add: pos_qty_def in_s64_def)
  obtain e' fills res where
    p: "placeOrder demo_book demo_now demo_engine 1 Bid Limit (Price 99) (Quantity 8) = (e', fills, res)"
    by (metis prod_cases3)
  have "levels_total (crossing_levels demo_book Bid Limit (Price 99)) = 0"
    by (simp add: crossing_levels_def demo_book_def demo_level_def less_eq_Price_iff levels_total_def)
  moreover have "displayed_size demo_book Bid (Price 99) = Quantity 3"
    by (simp add: displayed_size_def demo_book_def demo_level_def side_map_def level_pair_def)
  ultimately show ?thesis
    using placeOrder_rests_remainder [OF demo_book_pos q _ _ p] by (simp add: p)
qed

text \<open>
  A non-positive size, and a non-positive price of a limit order, are rejected
  with their own reasons, no fill is emitted and the engine is unchanged; any other order is
  accepted.
\<close>

lemma placeOrder_rejects_iff:
  "case placeOrder book now e oid side type price sz of (e', fills, res) \<Rightarrow>
     (accepted res \<longleftrightarrow> 0 < qty_ticks sz \<and> (type = Market \<or> 0 < price_ticks price))
     \<and> (qty_ticks sz \<le> 0 \<longrightarrow> rejectReason res = ''size must be positive'')
     \<and> (0 < qty_ticks sz \<and> \<not> accepted res \<longrightarrow> rejectReason res = ''limit price must be positive'')
     \<and> (\<not> accepted res \<longrightarrow> e' = e \<and> fills = [] \<and> filledSize res = Quantity 0)"
  by (cases type) (auto simp: placeOrder_def rejected_def Let_def split: prod.splits)

end
