(* ===== verification/Matching_Queue.thy ===== *)
theory Matching_Queue
  imports Matching_Engine
begin

text \<open>
  Resting orders over time: \<^verbatim>\<open>MatchingEngine::onBookDelta\<close> and \<^verbatim>\<open>cancelOrder\<close>. The lemmas
  describe one size reduction as a function on each resting order, show that the engine's
  invariant is kept by every operation, and add the reductions of a whole sequence of
  deltas up to the fill of an order that waits behind \<^verbatim>\<open>queueAheadSize\<close>.
\<close>

section \<open>Specification vocabulary\<close>

text \<open>The effect of a reduction of \<open>r\<close> ticks on an order at the level.\<close>

definition filled_by :: "int \<Rightarrow> PaperOrder \<Rightarrow> int" where
  "filled_by r order = min (qty_ticks (remainingSize order)) (max 0 (r - qty_ticks (queueAheadSize order)))"

definition reduced :: "int \<Rightarrow> PaperOrder \<Rightarrow> PaperOrder" where
  "reduced r order = order\<lparr>queueAheadSize := Quantity (max 0 (qty_ticks (queueAheadSize order) - r)),
     remainingSize := Quantity (qty_ticks (remainingSize order) - filled_by r order)\<rparr>"

definition done_by :: "int \<Rightarrow> PaperOrder \<Rightarrow> bool" where
  "done_by r order \<longleftrightarrow> filled_by r order = qty_ticks (remainingSize order)"

definition reduce_entry :: "LevelKey \<Rightarrow> int \<Rightarrow> u64 \<times> PaperOrder \<Rightarrow> u64 \<times> PaperOrder" where
  "reduce_entry key r x = (fst x, if order_at key (snd x) then reduced r (snd x) else snd x)"

definition entry_done :: "LevelKey \<Rightarrow> int \<Rightarrow> u64 \<times> PaperOrder \<Rightarrow> bool" where
  "entry_done key r x \<longleftrightarrow> order_at key (snd x) \<and> done_by r (snd x)"

definition hits :: "LevelKey \<Rightarrow> int \<Rightarrow> (u64 \<times> PaperOrder) list \<Rightarrow> (u64 \<times> Price \<times> int) list" where
  "hits key r os = map (\<lambda>(oid, order). (oid, po_price order, filled_by r order))
     (filter (\<lambda>(oid, order). order_at key order \<and> 0 < filled_by r order) os)"

text \<open>The total fill of one order, and the total reduction of a sequence of level sizes.\<close>

definition filled_of :: "u64 \<Rightarrow> Fill list \<Rightarrow> int" where
  "filled_of oid fs = sum_list (map (\<lambda>(i, p, n). n) (filter (\<lambda>(i, p, n). i = oid) (map fill_view fs)))"

fun total_reduction :: "int \<Rightarrow> Quantity list \<Rightarrow> int" where
  "total_reduction prev [] = 0"
| "total_reduction prev (q # qs) = max 0 (prev - qty_ticks q) + total_reduction (qty_ticks q) qs"

text \<open>A sequence of deltas at one level.\<close>

fun delta_run :: "clock \<Rightarrow> MatchingEngine \<Rightarrow> BookSide \<Rightarrow> Price \<Rightarrow> Quantity list \<Rightarrow> MatchingEngine \<times> Fill list" where
  "delta_run now e side price [] = (e, [])"
| "delta_run now e side price (q # qs) =
     (let (e1, fs1) = onBookDelta now e side price q; (e2, fs2) = delta_run now e1 side price qs in (e2, fs1 @ fs2))"

section \<open>One reduction\<close>

lemma order_okD:
  assumes "order_ok (oid, order)"
  shows "pos_qty (remainingSize order)" "nonneg_qty (queueAheadSize order)" "po_type order = Limit"
    "po_orderId order = oid" "0 < price_ticks (po_price order)"
  using assms by (auto simp: order_ok_def)

lemma filled_by_bounds:
  "order_ok (oid, order) \<Longrightarrow> 0 \<le> filled_by r order \<and> filled_by r order \<le> qty_ticks (remainingSize order)"
  by (auto simp: filled_by_def dest!: order_okD(1) simp: pos_qty_def)

lemma reduced_simps [simp]:
  "po_orderId (reduced r order) = po_orderId order" "po_side (reduced r order) = po_side order"
  "po_price (reduced r order) = po_price order" "po_type (reduced r order) = po_type order"
  "key_of (reduced r order) = key_of order"
  "qty_ticks (queueAheadSize (reduced r order)) = max 0 (qty_ticks (queueAheadSize order) - r)"
  "qty_ticks (remainingSize (reduced r order)) = qty_ticks (remainingSize order) - filled_by r order"
  by (simp_all add: reduced_def key_of_def)

lemma reduced_zero:
  assumes "order_ok (oid, order)"
  shows "reduced 0 order = order \<and> filled_by 0 order = 0"
  using order_okD(1,2) [OF assms]
  by (auto simp: reduced_def filled_by_def pos_qty_def nonneg_qty_def min_def)

text \<open>The arithmetic of the loop body, on sizes in range.\<close>

lemma reduce_arith:
  fixes r :: Quantity
  assumes "order_ok (oid, order)" and "pos_qty r"
  defines "absorbed \<equiv> min (queueAheadSize order) r"
  shows "queueAheadSize order - absorbed = Quantity (max 0 (qty_ticks (queueAheadSize order) - qty_ticks r))"
    and "r - absorbed = Quantity (max 0 (qty_ticks r - qty_ticks (queueAheadSize order)))"
  using assms(2) order_okD(2) [OF assms(1)]
  by (auto intro!: Quantity.expand simp: absorbed_def pos_qty_def nonneg_qty_def min_def max_def in_s64_def qty_simps)

lemma reduce_orders_step:
  assumes ok: "order_ok (oid, order)" and r: "pos_qty r" and at: "order_at key order"
  defines "f \<equiv> filled_by (qty_ticks r) order"
  shows "reduce_orders e now key r ((oid, order) # os) fills =
    (let (os', fills', full) = reduce_orders e now key r os
           (if 0 < f then emitFill e now fills oid (po_price order) (Quantity f) else fills)
     in ((oid, reduced (qty_ticks r) order) # os', fills', if done_by (qty_ticks r) order then oid # full else full))"
proof -
  note rem = order_okD(1) [OF ok]
  define ov where "ov = max 0 (qty_ticks r - qty_ticks (queueAheadSize order))"
  define qu where "qu = Quantity (max 0 (qty_ticks (queueAheadSize order) - qty_ticks r))"
  have q: "queueAheadSize order - min (queueAheadSize order) r = qu" and o: "r - min (queueAheadSize order) r = Quantity ov"
    using reduce_arith [OF ok r] by (simp_all add: ov_def qu_def)
  have fs: "min (Quantity ov) (remainingSize order) = Quantity f"
    by (rule Quantity.expand) (auto simp: f_def filled_by_def ov_def)
  have bnd: "0 \<le> f" "f \<le> qty_ticks (remainingSize order)" using filled_by_bounds [OF ok] by (auto simp: f_def)
  have sub: "remainingSize order - Quantity f = Quantity (qty_ticks (remainingSize order) - f)"
    using bnd rem by (intro Quantity.expand) (simp add: pos_qty_def)
  have pos: "0 < ov \<and> 0 < qty_ticks (remainingSize order) \<longleftrightarrow> 0 < f"
    using rem by (auto simp: f_def filled_by_def pos_qty_def ov_def)
  have red: "reduced (qty_ticks r) order = order\<lparr>queueAheadSize := qu, remainingSize := Quantity (qty_ticks (remainingSize order) - f)\<rparr>"
    by (simp add: reduced_def qu_def f_def)
  have dn: "done_by (qty_ticks r) order \<longleftrightarrow> qty_ticks (remainingSize order) - f = 0"
    by (auto simp: done_by_def f_def)
  show ?thesis
  proof (cases "0 < f")
    case True
    then show ?thesis
      unfolding reduce_orders.simps(2) Let_def q o
      using pos at by (simp add: fs sub red dn del: qty_ticks_minus)
  next
    case False
    then have f0: "f = 0" using bnd by simp
    have "\<not> (0 < ov \<and> 0 < qty_ticks (remainingSize order))" using pos False by blast
    then have cond: "(0 < qty_ticks (Quantity ov) \<and> 0 < qty_ticks (remainingSize (order\<lparr>queueAheadSize := qu\<rparr>))) = False"
      by simp
    have nd: "\<not> done_by (qty_ticks r) order" using dn f0 rem by (simp add: pos_qty_def)
    have red0: "reduced (qty_ticks r) order = order\<lparr>queueAheadSize := qu\<rparr>" using red f0 by simp
    show ?thesis
      unfolding reduce_orders.simps(2) Let_def q o cond
      using at False nd by (simp add: red0)
  qed
qed

lemma reduce_orders_eq:
  assumes "\<forall>x \<in> set os. order_ok x" and "pos_qty r"
  shows "reduce_orders e now key r os fills =
    (map (reduce_entry key (qty_ticks r)) os, emit_all e now fills (hits key (qty_ticks r) os),
     map fst (filter (entry_done key (qty_ticks r)) os))"
  using assms(1)
proof (induction os arbitrary: fills)
  case Nil
  then show ?case by (simp add: hits_def emit_all_def)
next
  case (Cons x os)
  obtain oid order where x: "x = (oid, order)" by (cases x)
  have ok: "order_ok (oid, order)" and os: "\<forall>x \<in> set os. order_ok x" using Cons.prems x by simp_all
  have emit: "emit_all e now fills ((oid, p, n) # xs) = emit_all e now (emitFill e now fills oid p (Quantity n)) xs" for p n xs
    by (simp add: emit_all_def)
  show ?case
  proof (cases "order_at key order")
    case False
    then show ?thesis by (simp add: x Cons.IH [OF os] reduce_entry_def entry_done_def hits_def)
  next
    case True
    show ?thesis
      unfolding x reduce_orders_step [OF ok assms(2) True]
      using True by (simp add: Cons.IH [OF os] reduce_entry_def entry_done_def hits_def emit)
  qed
qed

lemma foldl_erase: "foldl (\<lambda>os oid. erase_order oid os) os ids = filter (\<lambda>(oid, order). oid \<notin> set ids) os"
  by (induction ids arbitrary: os) (auto simp: erase_order_def intro: filter_cong)

lemma filter_done_ids:
  assumes "distinct (map fst os)"
  shows "filter (\<lambda>(oid, order). oid \<notin> set (map fst (filter P os))) (map (\<lambda>x. (fst x, g x)) os)
     = map (\<lambda>x. (fst x, g x)) (filter (\<lambda>x. \<not> P x) os)"
proof -
  have "fst x \<in> set (map fst (filter P os)) \<longleftrightarrow> P x" if "x \<in> set os" for x
    using assms that by (auto simp: distinct_map inj_on_def)
  then show ?thesis
    by (auto simp: filter_map o_def intro!: map_cong filter_cong)
qed

section \<open>The engine invariant\<close>

lemma anyRestingOrderAt_iff: "anyRestingOrderAt e key \<longleftrightarrow> key \<in> order_keys (restingOrders e)"
  by (force simp: anyRestingOrderAt_def list_ex_iff order_at_key_of order_keys_def)

text \<open>Forgetting the last observed size of a level that no order rests at.\<close>

lemma engine_inv_untrack:
  assumes "distinct (map fst (restingOrders e))" and "\<forall>x \<in> set (restingOrders e). order_ok x"
    and "dom (lastObservedSize e) = insert key (order_keys (restingOrders e))"
    and "\<forall>key q. lastObservedSize e key = Some q \<longrightarrow> nonneg_qty q"
  shows "engine_inv (if \<not> anyRestingOrderAt e key
    then e\<lparr>lastObservedSize := (lastObservedSize e)(key := None)\<rparr> else e)"
  using assms by (simp add: engine_inv_def anyRestingOrderAt_iff insert_absorb)

lemma engine_inv_new [simp]: "engine_inv (new_engine s b)"
  by (simp add: engine_inv_def new_engine_def order_keys_def)

lemma order_keysI: "(oid, order) \<in> set os \<Longrightarrow> key_of order \<in> order_keys os"
  by (force simp: order_keys_def)

lemma engine_inv_ok: "engine_inv e \<Longrightarrow> (oid, order) \<in> set (restingOrders e) \<Longrightarrow> order_ok (oid, order)"
  by (auto simp: engine_inv_def)

lemma engine_inv_observed: "engine_inv e \<Longrightarrow> lastObservedSize e key = Some q \<Longrightarrow> nonneg_qty q"
  unfolding engine_inv_def by blast

lemma engine_inv_tracked:
  assumes "engine_inv e" and "(oid, order) \<in> set (restingOrders e)"
  obtains q where "lastObservedSize e (key_of order) = Some q" and "nonneg_qty q"
proof -
  have "key_of order \<in> dom (lastObservedSize e)" using assms order_keysI by (fastforce simp: engine_inv_def)
  then obtain q where q: "lastObservedSize e (key_of order) = Some q" by blast
  moreover have "nonneg_qty q" using assms(1) q by (rule engine_inv_observed)
  ultimately show ?thesis by (rule that)
qed

lemma cancelOrder_inv:
  assumes "engine_inv e" and "cancelOrder e oid = (e', res)"
  shows "engine_inv e'"
proof (cases "map_of (restingOrders e) oid")
  case None
  with assms show ?thesis by (simp add: cancelOrder_def)
next
  case (Some order)
  let ?e1 = "e\<lparr>restingOrders := erase_order oid (restingOrders e)\<rparr>"
  have mem: "(oid, order) \<in> set (restingOrders e)" using Some by (rule map_of_SomeD)
  have e': "e' = (if \<not> anyRestingOrderAt ?e1 (key_of order)
      then ?e1\<lparr>lastObservedSize := (lastObservedSize ?e1)(key_of order := None)\<rparr> else ?e1)"
    using assms(2) Some by (auto simp: cancelOrder_def Let_def key_of_def)
  have dist: "distinct (map fst (restingOrders e))" using assms(1) by (simp add: engine_inv_def)
  have "distinct (map fst (erase_order oid (restingOrders e)))"
    using dist by (auto simp: erase_order_def intro: distinct_map_filter)
  moreover have "dom (lastObservedSize e) = insert (key_of order) (order_keys (erase_order oid (restingOrders e)))"
  proof -
    have "set (restingOrders e) = insert (oid, order) (set (erase_order oid (restingOrders e)))"
      unfolding erase_order_def case_prod_unfold using set_erase_key [OF dist mem] by simp
    then show ?thesis using assms(1) by (simp add: engine_inv_def order_keys_def)
  qed
  ultimately show ?thesis
    unfolding e' using assms(1) by (intro engine_inv_untrack) (auto simp: engine_inv_def erase_order_def)
qed

lemma side_map_pos: "side_pos s \<Longrightarrow> side_map s p = Some q \<Longrightarrow> pos_qty q"
  by (auto simp: side_map_def side_pos_def level_pair_def dest!: map_of_SomeD)

lemma sizeAtPrice_nonneg: "side_pos s \<Longrightarrow> nonneg_qty (sizeAtPrice s p)"
  using side_map_pos [of s p]
  by (cases "side_map s p") (auto simp: side_pos_def sizeAtPrice_eq nonneg_qty_def pos_qty_def less_imp_le)

lemma rest_order_inv:
  assumes "engine_inv e" and "book_pos book" and "oid \<notin> fst ` set (restingOrders e)"
    and "pos_qty r" and "0 < price_ticks price"
  shows "engine_inv (rest_order book e oid side price r)"
proof -
  let ?o = "resting_order book e oid side price r"
  have q: "nonneg_qty (sizeAtPrice (own_side book side) price)"
    using opposite_side_props(4) [OF assms(2)] by (rule sizeAtPrice_nonneg)
  have "map_of (restingOrders e) oid = None" using assms(3) by (simp add: map_of_eq_None_iff)
  then have ro: "restingOrders (rest_order book e oid side price r) = restingOrders e @ [(oid, ?o)]"
    by (simp add: rest_order_def emplace_order_def)
  have ok: "order_ok (oid, ?o)" using assms(4,5) q by (simp add: order_ok_def resting_order_def)
  have key: "key_of ?o = (side, price)" by (simp add: key_of_def resting_order_def)
  have "dom (lastObservedSize (rest_order book e oid side price r)) = insert (side, price) (dom (lastObservedSize e))"
    by (auto simp: rest_order_def)
  moreover have "\<forall>key q'. lastObservedSize (rest_order book e oid side price r) key = Some q' \<longrightarrow> nonneg_qty q'"
    using assms(1) q by (simp add: rest_order_def engine_inv_def)
  moreover have "order_keys (restingOrders e @ [(oid, ?o)]) = insert (side, price) (order_keys (restingOrders e))"
    by (simp add: order_keys_def key)
  ultimately show ?thesis
    using assms(1,3) ok by (simp add: engine_inv_def ro ball_Un)
qed

lemma placeOrder_inv:
  assumes "engine_inv e" and "book_pos book" and "oid \<notin> fst ` set (restingOrders e)" and "in_s64 (qty_ticks sz)"
    and "placeOrder book now e oid side type price sz = (e', fills, res)"
  shows "engine_inv e'"
proof (cases "0 < qty_ticks sz \<and> (type = Limit \<longrightarrow> 0 < price_ticks price)")
  case False
  with assms show ?thesis by (auto simp: placeOrder_def split: if_splits)
next
  case True
  let ?cs = "crossing_levels book side type price"
  have sz: "pos_qty sz" using True assms(4) by (simp add: pos_qty_def)
  have "0 \<le> levels_total ?cs"
    using opposite_side_props(2) [OF assms(2)] by (intro levels_total_nonneg) (auto simp: crossing_levels_filter)
  then have "levels_total ?cs < qty_ticks sz \<Longrightarrow> pos_qty (Quantity (qty_ticks sz - levels_total ?cs))"
    using sz by (simp add: pos_qty_def)
  with True assms(1-3) placeOrder_accept [OF assms(2) sz] assms(5) show ?thesis
    by (auto split: if_splits intro!: rest_order_inv)
qed

subsection \<open>Deltas\<close>

definition after_reduction :: "LevelKey \<Rightarrow> int \<Rightarrow> (u64 \<times> PaperOrder) list \<Rightarrow> (u64 \<times> PaperOrder) list" where
  "after_reduction key r os = map (reduce_entry key r) (filter (\<lambda>x. \<not> entry_done key r x) os)"

lemma onBookDelta_eq:
  assumes "engine_inv e" and "nonneg_qty q"
  shows "onBookDelta now e side price q =
    (case lastObservedSize e (side, price) of
       None \<Rightarrow> (e, [])
     | Some prev \<Rightarrow>
         if qty_ticks prev \<le> qty_ticks q then (e\<lparr>lastObservedSize := (lastObservedSize e)((side, price) \<mapsto> q)\<rparr>, [])
         else let r = qty_ticks prev - qty_ticks q;
                  e2 = e\<lparr>lastObservedSize := (lastObservedSize e)((side, price) \<mapsto> q),
                         restingOrders := after_reduction (side, price) r (restingOrders e)\<rparr>
              in (if \<not> anyRestingOrderAt e2 (side, price)
                  then e2\<lparr>lastObservedSize := (lastObservedSize e2)((side, price) := None)\<rparr> else e2,
                  emit_all e now [] (hits (side, price) r (restingOrders e))))"
proof (cases "lastObservedSize e (side, price)")
  case None
  then show ?thesis by (simp add: onBookDelta_def)
next
  case (Some prev)
  have prev: "nonneg_qty prev" using assms(1) Some by (simp add: engine_inv_def)
  show ?thesis
  proof (cases "qty_ticks prev \<le> qty_ticks q")
    case True
    with Some show ?thesis by (simp add: onBookDelta_def)
  next
    case False
    let ?e1 = "e\<lparr>lastObservedSize := (lastObservedSize e)((side, price) \<mapsto> q)\<rparr>"
    have r: "prev - q = Quantity (qty_ticks prev - qty_ticks q)" "pos_qty (Quantity (qty_ticks prev - qty_ticks q))"
      using False prev assms(2) by (auto intro!: Quantity.expand simp: nonneg_qty_def pos_qty_def in_s64_def)
    have ok: "\<forall>x \<in> set (restingOrders ?e1). order_ok x" and dist: "distinct (map fst (restingOrders e))"
      using assms(1) by (auto simp: engine_inv_def)
    have entry: "reduce_entry key n = (\<lambda>x. (fst x, if order_at key (snd x) then reduced n (snd x) else snd x))" for key n
      by (simp add: reduce_entry_def fun_eq_iff)
    have er: "foldl (\<lambda>os oid. erase_order oid os) (map (reduce_entry key n) (restingOrders e))
        (map fst (filter (entry_done key n) (restingOrders e))) = after_reduction key n (restingOrders e)" for key n
      unfolding foldl_erase entry after_reduction_def by (rule filter_done_ids [OF dist])
    have em: "emit_all ?e1 now [] xs = emit_all e now [] xs" for xs
      by (simp add: emit_all_def emitFill_def)
    show ?thesis
      unfolding onBookDelta_def Let_def Some option.case
      using False reduce_orders_eq [OF ok r(2), of ?e1 now "(side, price)" "[]"]
      by (simp add: r(1) er em)
  qed
qed

lemma reduced_ok:
  assumes "order_ok (oid, order)" and "\<not> done_by r order" and "0 \<le> r"
  shows "order_ok (oid, reduced r order)"
  using assms filled_by_bounds [OF assms(1), of r] order_okD [OF assms(1)]
  by (auto simp: order_ok_def done_by_def pos_qty_def nonneg_qty_def in_s64_def)

lemma key_reduce_entry: "key_of (snd (reduce_entry key r x)) = key_of (snd x)"
  by (simp add: reduce_entry_def)

lemma after_reduction_props:
  assumes "\<forall>x \<in> set os. order_ok x" and "0 \<le> r" and "distinct (map fst os)"
  shows "\<forall>x \<in> set (after_reduction key r os). order_ok x" and "distinct (map fst (after_reduction key r os))"
    and "insert key (order_keys (after_reduction key r os)) = insert key (order_keys os)"
proof -
  show "\<forall>x \<in> set (after_reduction key r os). order_ok x"
    using assms(1,2) by (auto simp: after_reduction_def reduce_entry_def entry_done_def intro: reduced_ok)
  have "map fst (after_reduction key r os) = map fst (filter (\<lambda>x. \<not> entry_done key r x) os)"
    by (simp add: after_reduction_def reduce_entry_def o_def)
  then show "distinct (map fst (after_reduction key r os))" using assms(3) by (simp add: distinct_map_filter)
  show "insert key (order_keys (after_reduction key r os)) = insert key (order_keys os)"
    by (auto simp: after_reduction_def order_keys_def image_image key_reduce_entry entry_done_def order_at_key_of)
qed

lemma onBookDelta_inv:
  assumes "engine_inv e" and "nonneg_qty q" and "onBookDelta now e side price q = (e', fills)"
  shows "engine_inv e'"
proof (cases "lastObservedSize e (side, price)")
  case None
  with assms show ?thesis by (simp add: onBookDelta_eq)
next
  case (Some prev)
  show ?thesis
  proof (cases "qty_ticks prev \<le> qty_ticks q")
    case True
    have "(side, price) \<in> order_keys (restingOrders e)" using assms(1) Some by (auto simp: engine_inv_def)
    moreover have "e' = e\<lparr>lastObservedSize := (lastObservedSize e)((side, price) \<mapsto> q)\<rparr>"
      using True assms(3) Some by (simp add: onBookDelta_eq [OF assms(1,2)])
    ultimately show ?thesis
      using assms(1,2) by (simp add: engine_inv_def insert_absorb)
  next
    case False
    let ?r = "qty_ticks prev - qty_ticks q"
    let ?e2 = "e\<lparr>lastObservedSize := (lastObservedSize e)((side, price) \<mapsto> q),
                 restingOrders := after_reduction (side, price) ?r (restingOrders e)\<rparr>"
    have os: "\<forall>x \<in> set (restingOrders e). order_ok x" "distinct (map fst (restingOrders e))"
      using assms(1) by (auto simp: engine_inv_def)
    note props = after_reduction_props [OF os(1) _ os(2), of ?r "(side, price)"]
    have "engine_inv (if \<not> anyRestingOrderAt ?e2 (side, price)
        then ?e2\<lparr>lastObservedSize := (lastObservedSize ?e2)((side, price) := None)\<rparr> else ?e2)"
    proof (rule engine_inv_untrack)
      show "dom (lastObservedSize ?e2) = insert (side, price) (order_keys (restingOrders ?e2))"
        using props(3) False assms(1) by (simp add: engine_inv_def)
      show "\<forall>key q. lastObservedSize ?e2 key = Some q \<longrightarrow> nonneg_qty q"
        using assms(1,2) by (simp add: engine_inv_def)
    qed (use props(1,2) False in simp_all)
    with assms(3) False Some show ?thesis
      by (auto simp: onBookDelta_eq [OF assms(1,2)] Let_def)
  qed
qed

section \<open>One order across deltas\<close>

definition hits_of :: "u64 \<Rightarrow> (u64 \<times> Price \<times> int) list \<Rightarrow> int" where
  "hits_of oid hs = sum_list (map (\<lambda>(i, p, n). n) (filter (\<lambda>(i, p, n). i = oid) hs))"

lemma filled_of_view: "filled_of oid fs = hits_of oid (map fill_view fs)"
  by (simp add: filled_of_def hits_of_def)

lemma filled_of_append [simp]: "filled_of oid (fs @ gs) = filled_of oid fs + filled_of oid gs"
  by (simp add: filled_of_def)

lemma filled_of_Nil [simp]: "filled_of oid [] = 0"
  by (simp add: filled_of_def)

lemma hits_of_absent: "oid \<notin> fst ` set os \<Longrightarrow> hits_of oid (hits key r os) = 0"
  by (induction os) (auto simp: hits_def hits_of_def)

lemma hits_Cons: "hits key r (x # os) =
  (if order_at key (snd x) \<and> 0 < filled_by r (snd x) then [(fst x, po_price (snd x), filled_by r (snd x))] else []) @ hits key r os"
  by (simp add: hits_def case_prod_unfold)

lemma hits_of_member:
  assumes "distinct (map fst os)" and "(oid, order) \<in> set os" and "order_ok (oid, order)" and "order_at key order"
  shows "hits_of oid (hits key r os) = filled_by r order"
  using assms(1,2)
proof (induction os)
  case Nil
  then show ?case by simp
next
  case (Cons x os)
  show ?case
  proof (cases "x = (oid, order)")
    case True
    then have "hits_of oid (hits key r os) = 0" using Cons.prems(1) by (intro hits_of_absent) auto
    then show ?thesis
      using True assms(4) filled_by_bounds [OF assms(3), of r] by (auto simp: hits_Cons hits_of_def)
  next
    case False
    with Cons.prems have mem: "(oid, order) \<in> set os" by auto
    then have "oid \<in> fst ` set os" by (metis fst_conv imageI)
    then have "fst x \<noteq> oid" using Cons.prems(1) by auto
    then have "hits_of oid (hits key r (x # os)) = hits_of oid (hits key r os)"
      by (simp add: hits_Cons hits_of_def)
    with Cons mem show ?thesis by simp
  qed
qed

lemma filled_by_add:
  assumes "order_ok (oid, order)" and "0 \<le> r" and "0 \<le> t"
  shows "filled_by r order + filled_by t (reduced r order) = filled_by (r + t) order"
  using assms(2,3) order_okD(1,2) [OF assms(1)]
  by (simp add: filled_by_def pos_qty_def nonneg_qty_def min_def max_def)

lemma total_reduction_nonneg [simp]: "0 \<le> total_reduction prev qs"
  by (induction prev qs rule: total_reduction.induct) auto

lemma onBookDelta_onFill: "onBookDelta now e side price q = (e', fills) \<Longrightarrow> me_onFill e' = me_onFill e"
  by (auto simp: onBookDelta_def Let_def split: option.splits if_splits prod.splits)

lemma onBookDelta_absent:
  assumes "engine_inv e" and "nonneg_qty q" and "onBookDelta now e side price q = (e', fills)"
    and "oid \<notin> fst ` set (restingOrders e)"
  shows "filled_of oid fills = 0 \<and> oid \<notin> fst ` set (restingOrders e')"
proof -
  let ?key = "(side, price)"
  have hit: "filled_of oid (emit_all e now [] (hits ?key r (restingOrders e))) = 0" for r
    using hits_of_absent [OF assms(4), of ?key r]
    by (cases "me_onFill e") (simp_all add: filled_of_view emit_all_Nil emit_all_silent hits_of_def)
  have "fst ` set (after_reduction ?key r (restingOrders e)) \<subseteq> fst ` set (restingOrders e)" for r
    by (auto simp: after_reduction_def reduce_entry_def intro: rev_image_eqI)
  with assms(4) have gone: "(oid, b) \<notin> set (after_reduction ?key r (restingOrders e))" for r b
    by (metis fst_conv imageI subsetD)
  show ?thesis
    using assms(3,4) hit gone unfolding onBookDelta_eq [OF assms(1,2)]
    by (cases "lastObservedSize e ?key") (auto simp: Let_def split: if_splits)
qed

text \<open>An order at the level leaves when it is done and stays, reduced, when it is not.\<close>

lemma after_reduction_member:
  assumes "distinct (map fst orders)" and "(oid, order) \<in> set orders" and "order_at key order"
  shows "done_by r order \<Longrightarrow> oid \<notin> fst ` set (after_reduction key r orders)"
    and "\<not> done_by r order \<Longrightarrow> (oid, reduced r order) \<in> set (after_reduction key r orders)"
proof -
  assume nd: "\<not> done_by r order"
  then show "(oid, reduced r order) \<in> set (after_reduction key r orders)"
    using assms(2,3) by (force simp: after_reduction_def reduce_entry_def entry_done_def)
next
  assume d: "done_by r order"
  show "oid \<notin> fst ` set (after_reduction key r orders)"
  proof
    assume "oid \<in> fst ` set (after_reduction key r orders)"
    then obtain order1 where "(oid, order1) \<in> set orders" "\<not> entry_done key r (oid, order1)"
      by (auto simp: after_reduction_def reduce_entry_def)
    with eq_key_imp_eq_value [OF assms(1,2)] d assms(3) show False by (auto simp: entry_done_def)
  qed
qed

lemma onBookDelta_order:
  fixes price :: Price and q :: Quantity
  assumes "engine_inv e" and "me_onFill e" and "nonneg_qty q"
    and "(oid, order) \<in> set (restingOrders e)" and "key_of order = (side, price)"
    and "lastObservedSize e (side, price) = Some prev" and "onBookDelta now e side price q = (e', fills)"
  defines "r \<equiv> max 0 (qty_ticks prev - qty_ticks q)"
  shows "filled_of oid fills = filled_by r order"
    and "if done_by r order then oid \<notin> fst ` set (restingOrders e')
         else (oid, reduced r order) \<in> set (restingOrders e') \<and> lastObservedSize e' (side, price) = Some q"
proof -
  let ?key = "(side, price)"
  have ok: "order_ok (oid, order)" using assms(1,4) by (rule engine_inv_ok)
  have dist: "distinct (map fst (restingOrders e))" using assms(1) by (simp add: engine_inv_def)
  have at: "order_at ?key order" using assms(5) by (simp add: order_at_key_of)
  have "(filled_of oid fills = filled_by r order) \<and>
      (if done_by r order then oid \<notin> fst ` set (restingOrders e')
       else (oid, reduced r order) \<in> set (restingOrders e') \<and> lastObservedSize e' ?key = Some q)"
  proof (cases "qty_ticks prev \<le> qty_ticks q")
    case True
    then have e': "e' = e\<lparr>lastObservedSize := (lastObservedSize e)(?key \<mapsto> q)\<rparr>" "fills = []"
      using assms(6,7) by (simp_all add: onBookDelta_eq [OF assms(1,3)])
    have r: "r = 0" using True by (simp add: r_def)
    have "\<not> done_by 0 order" using reduced_zero [OF ok] order_okD(1) [OF ok] by (simp add: done_by_def pos_qty_def)
    then show ?thesis using e' r reduced_zero [OF ok] assms(4) by simp
  next
    case False
    let ?e2 = "e\<lparr>lastObservedSize := (lastObservedSize e)(?key \<mapsto> q),
        restingOrders := after_reduction ?key r (restingOrders e)\<rparr>"
    have r: "r = qty_ticks prev - qty_ticks q" using False by (simp add: r_def)
    have e': "e' = (if \<not> anyRestingOrderAt ?e2 ?key
        then ?e2\<lparr>lastObservedSize := (lastObservedSize ?e2)(?key := None)\<rparr> else ?e2)"
      and fills: "fills = emit_all e now [] (hits ?key r (restingOrders e))"
      using False assms(6,7) by (auto simp: onBookDelta_eq [OF assms(1,3)] r Let_def)
    have f: "filled_of oid fills = filled_by r order"
      unfolding fills filled_of_view emit_all_Nil [OF assms(2)] by (rule hits_of_member [OF dist assms(4) ok at])
    have ro: "restingOrders e' = after_reduction ?key r (restingOrders e)" by (simp add: e')
    note member = after_reduction_member [OF dist assms(4) at, of r]
    have "anyRestingOrderAt ?e2 ?key" if "\<not> done_by r order"
      using order_keysI [OF member(2) [OF that]] assms(5) by (simp add: anyRestingOrderAt_iff)
    then have "lastObservedSize e' ?key = Some q" if "\<not> done_by r order" using that by (simp add: e')
    with f ro member show ?thesis by simp
  qed
  then show "filled_of oid fills = filled_by r order"
    and "if done_by r order then oid \<notin> fst ` set (restingOrders e')
         else (oid, reduced r order) \<in> set (restingOrders e') \<and> lastObservedSize e' (side, price) = Some q"
    by auto
qed

lemma delta_run_absent:
  assumes "engine_inv e" and "\<forall>q \<in> set qs. nonneg_qty q" and "delta_run now e side price qs = (e', fills)"
    and "oid \<notin> fst ` set (restingOrders e)"
  shows "filled_of oid fills = 0"
  using assms
proof (induction qs arbitrary: e fills)
  case Nil
  then show ?case by simp
next
  case (Cons q qs)
  obtain e1 fs1 where d: "onBookDelta now e side price q = (e1, fs1)" by (cases "onBookDelta now e side price q")
  obtain e2 fs2 where rr: "delta_run now e1 side price qs = (e2, fs2)" by (cases "delta_run now e1 side price qs")
  have q: "nonneg_qty q" using Cons.prems(2) by simp
  have "fills = fs1 @ fs2" "e' = e2" using Cons.prems(3) by (simp_all add: d rr)
  with Cons.IH [OF onBookDelta_inv [OF Cons.prems(1) q d] _ rr [folded \<open>e' = e2\<close>]]
    onBookDelta_absent [OF Cons.prems(1) q d Cons.prems(4)] Cons.prems(2)
  show ?case by simp
qed

lemma delta_run_fill:
  assumes "engine_inv e" and "me_onFill e" and "\<forall>q \<in> set qs. nonneg_qty q"
    and "(oid, order) \<in> set (restingOrders e)" and "key_of order = (side, price)"
    and "lastObservedSize e (side, price) = Some prev" and "delta_run now e side price qs = (e', fills)"
  shows "filled_of oid fills = filled_by (total_reduction (qty_ticks prev) qs) order"
  using assms
proof (induction qs arbitrary: e order prev fills)
  case Nil
  then show ?case using reduced_zero [OF engine_inv_ok] by auto
next
  case (Cons q qs)
  note prems = Cons.prems
  obtain e1 fs1 where d: "onBookDelta now e side price q = (e1, fs1)" by (cases "onBookDelta now e side price q")
  obtain e2 fs2 where rr: "delta_run now e1 side price qs = (e2, fs2)" by (cases "delta_run now e1 side price qs")
  have fills: "fills = fs1 @ fs2" and e2: "e2 = e'" using prems(7) by (simp_all add: d rr)
  have q: "nonneg_qty q" and qs: "\<forall>q \<in> set qs. nonneg_qty q" using prems(3) by simp_all
  have inv: "engine_inv e1" using prems(1) q d by (rule onBookDelta_inv)
  have ok: "order_ok (oid, order)" using prems(1,4) by (rule engine_inv_ok)
  define r where "r = max 0 (qty_ticks prev - qty_ticks q)"
  define t where "t = total_reduction (qty_ticks q) qs"
  note step = onBookDelta_order [OF prems(1,2) q prems(4-6) d, folded r_def]
  have add: "filled_by r order + filled_by t (reduced r order) = filled_by (r + t) order"
    by (rule filled_by_add [OF ok]) (simp_all add: r_def t_def)
  show ?case
  proof (cases "done_by r order")
    case True
    then have "filled_of oid fs2 = 0" using delta_run_absent [OF inv qs rr] step(2) by simp
    moreover have "filled_by t (reduced r order) = 0" using True by (simp add: done_by_def filled_by_def)
    ultimately show ?thesis using add step(1) by (simp add: fills r_def [symmetric] t_def [symmetric])
  next
    case False
    have "me_onFill e1" using onBookDelta_onFill [OF d] prems(2) by simp
    then have "filled_of oid fs2 = filled_by t (reduced r order)"
      unfolding t_def using step(2) False prems(5) by (intro Cons.IH [OF inv _ qs _ _ _ rr [unfolded e2]]) simp_all
    with add step(1) show ?thesis by (simp add: fills r_def [symmetric] t_def [symmetric])
  qed
qed

section \<open>Properties\<close>

definition demo_resting :: MatchingEngine where
  "demo_resting = fst (placeOrder demo_book demo_now demo_engine 1 Bid Limit (Price 99) (Quantity 2))"

definition demo_order :: PaperOrder where
  "demo_order = \<lparr>po_orderId = 1, po_symbol = ''BTC/USD'', po_side = Bid, po_type = Limit, po_price = Price 99,
     remainingSize = Quantity 2, queueAheadSize = Quantity 3, insertedAtSeq = 0\<rparr>"

lemma demo_resting_eq:
  "demo_resting = \<lparr>me_symbol = ''BTC/USD'', me_onFill = True, restingOrders = [(1, demo_order)],
     lastObservedSize = [(Bid, Price 99) \<mapsto> Quantity 3]\<rparr>"
  by (simp add: demo_resting_def demo_order_def placeOrder_def demo_engine_def new_engine_def demo_book_def demo_level_def
      opposite_side_def own_side_def crossed_def less_eq_Price_iff sizeAtPrice_def level_position_def
      lower_bound_def lower_bound_from.simps [of _ _ _ "Suc 0"] lower_bound_from.simps [of _ _ _ 0]
      Let_def better_def less_Price_iff emplace_order_def new_book_def BOOK_DEPTH_def new_side_def)

lemma demo_resting_inv: "engine_inv demo_resting"
  by (simp add: demo_resting_eq engine_inv_def order_ok_def demo_order_def pos_qty_def nonneg_qty_def in_s64_def
      order_keys_def key_of_def)

lemma demo_crossing_99 [simp]:
  "crossing_levels demo_book Bid Limit (Price 99) = []"
  by (simp add: crossing_levels_filter opposite_side_def demo_book_def demo_level_def crossed_def less_eq_Price_iff)

text \<open>
  C7 (functional): over any sequence of deltas at a resting order's level, the order is
  filled by exactly the part of the accumulated size reductions that exceeds the queue ahead
  of it, capped by its remaining size. Size increases in between never push it back.
\<close>

theorem resting_order_total_fill:
  assumes "engine_inv e" and "me_onFill e" and "\<forall>q \<in> set qs. nonneg_qty q"
    and "(oid, order) \<in> set (restingOrders e)" and "key_of order = (side, price)"
    and "lastObservedSize e (side, price) = Some prev" and "delta_run now e side price qs = (e', fills)"
  shows "filled_of oid fills = min (qty_ticks (remainingSize order))
    (max 0 (total_reduction (qty_ticks prev) qs - qty_ticks (queueAheadSize order)))"
  using delta_run_fill [OF assms] by (simp add: filled_by_def)

theorem resting_order_total_fill_witness:
  "case delta_run demo_now demo_resting Bid (Price 99) [Quantity 1, Quantity 6, Quantity 4] of
     (e', fills) \<Rightarrow> filled_of 1 fills = 1"
proof -
  obtain e' fills where
    r: "delta_run demo_now demo_resting Bid (Price 99) [Quantity 1, Quantity 6, Quantity 4] = (e', fills)"
    by (rule prod.exhaust)
  show ?thesis
    using resting_order_total_fill [OF demo_resting_inv _ _ _ _ _ r, of 1 demo_order "Quantity 3"] r
    by (simp add: demo_resting_eq nonneg_qty_def in_s64_def key_of_def demo_order_def)
qed

end
