(* ===== verification/Matching_Priority.thy ===== *)
theory Matching_Priority
  imports Matching_Queue
begin

text \<open>
  The resting orders of a level among each other: their positions in the queue and the
  priority of the earlier one, the independence of the iteration order of the hash map, and
  the invariant of an engine over all calls.
\<close>

section \<open>Queue positions and time priority\<close>

text \<open>
  No order queues behind more than its level holds, and the tracked sizes agree with the
  book.
\<close>

definition queue_inv :: "MatchingEngine \<Rightarrow> bool" where
  "queue_inv e \<longleftrightarrow> (\<forall>x \<in> set (restingOrders e). \<exists>q. lastObservedSize e (key_of (snd x)) = Some q
      \<and> qty_ticks (queueAheadSize (snd x)) \<le> qty_ticks q)"

definition synced :: "OrderBook \<Rightarrow> MatchingEngine \<Rightarrow> bool" where
  "synced book e \<longleftrightarrow> (\<forall>side price q. lastObservedSize e (side, price) = Some q \<longrightarrow> sizeAtPrice (own_side book side) price = q)"

lemma queue_invD:
  "queue_inv e \<Longrightarrow> (oid, order) \<in> set (restingOrders e) \<Longrightarrow> lastObservedSize e (key_of order) = Some q
    \<Longrightarrow> qty_ticks (queueAheadSize order) \<le> qty_ticks q"
  by (force simp: queue_inv_def)

lemma queue_inv_untrack:
  assumes "queue_inv e" and "\<not> anyRestingOrderAt e key"
  shows "queue_inv (e\<lparr>lastObservedSize := (lastObservedSize e)(key := None)\<rparr>)"
proof -
  have "key_of (snd x) \<noteq> key" if "x \<in> set (restingOrders e)" for x
    using assms(2) that by (auto simp: anyRestingOrderAt_iff order_keys_def)
  with assms(1) show ?thesis by (simp add: queue_inv_def)
qed

lemma queue_inv_untrack_if:
  "queue_inv e \<Longrightarrow> queue_inv (if \<not> anyRestingOrderAt e key
    then e\<lparr>lastObservedSize := (lastObservedSize e)(key := None)\<rparr> else e)"
  by (cases "anyRestingOrderAt e key") (use queue_inv_untrack in auto)

lemma queue_inv_onBookDelta:
  assumes "engine_inv e" and "queue_inv e" and "nonneg_qty q" and "onBookDelta now e side price q = (e', fills)"
  shows "queue_inv e'"
proof (cases "lastObservedSize e (side, price)")
  case None
  with assms show ?thesis by (simp add: onBookDelta_eq)
next
  case (Some prev)
  show ?thesis
  proof (cases "qty_ticks prev \<le> qty_ticks q")
    case True
    have "e' = e\<lparr>lastObservedSize := (lastObservedSize e)((side, price) \<mapsto> q)\<rparr>"
      using True assms(4) Some by (simp add: onBookDelta_eq [OF assms(1,3)])
    with True Some assms(2) show ?thesis by (force simp: queue_inv_def)
  next
    case False
    let ?r = "qty_ticks prev - qty_ticks q"
    let ?e2 = "e\<lparr>lastObservedSize := (lastObservedSize e)((side, price) \<mapsto> q),
                 restingOrders := after_reduction (side, price) ?r (restingOrders e)\<rparr>"
    have e': "e' = (if \<not> anyRestingOrderAt ?e2 (side, price)
        then ?e2\<lparr>lastObservedSize := (lastObservedSize ?e2)((side, price) := None)\<rparr> else ?e2)"
      using False assms(4) Some by (auto simp: onBookDelta_eq [OF assms(1,3)] Let_def)
    have "queue_inv ?e2"
      unfolding queue_inv_def
    proof
      fix x assume "x \<in> set (restingOrders ?e2)"
      then obtain y where y: "y \<in> set (restingOrders e)" and x: "x = reduce_entry (side, price) ?r y"
        by (auto simp: after_reduction_def)
      obtain q0 where q0: "lastObservedSize e (key_of (snd y)) = Some q0"
        "qty_ticks (queueAheadSize (snd y)) \<le> qty_ticks q0"
        using assms(2) y by (auto simp: queue_inv_def)
      show "\<exists>q. lastObservedSize ?e2 (key_of (snd x)) = Some q \<and> qty_ticks (queueAheadSize (snd x)) \<le> qty_ticks q"
      proof (cases "key_of (snd y) = (side, price)")
        case True
        with q0 Some assms(3) show ?thesis
          by (auto simp: x key_reduce_entry reduce_entry_def order_at_key_of nonneg_qty_def)
      next
        case no: False
        with q0 show ?thesis by (auto simp: x key_reduce_entry reduce_entry_def order_at_key_of)
      qed
    qed
    then show ?thesis unfolding e' by (rule queue_inv_untrack_if)
  qed
qed

lemma rest_order_mem:
  assumes "b \<notin> fst ` set (restingOrders e)"
  shows "restingOrders (rest_order book e b side price r) = restingOrders e @ [(b, resting_order book e b side price r)]"
  using assms by (simp add: rest_order_def emplace_order_def map_of_eq_None_iff)

lemma queue_inv_rest_order:
  assumes "queue_inv e" and "synced book e" and "b \<notin> fst ` set (restingOrders e)"
  shows "queue_inv (rest_order book e b side price r)"
proof -
  let ?e = "rest_order book e b side price r"
  have mono: "lastObservedSize e k = Some q \<Longrightarrow> lastObservedSize ?e k = Some q" for k q
    by (auto simp: rest_order_def)
  have "\<exists>q. lastObservedSize ?e (side, price) = Some q \<and> q = sizeAtPrice (own_side book side) price"
    using assms(2) by (cases "lastObservedSize e (side, price)") (auto simp: rest_order_def synced_def)
  then show ?thesis
    using assms(1) mono unfolding queue_inv_def rest_order_mem [OF assms(3)]
    by (fastforce simp: resting_order_def key_of_def)
qed

lemma priority_of_run:
  assumes inv: "engine_inv e" and onf: "me_onFill e" and nn: "\<forall>q \<in> set qs. nonneg_qty q"
    and a: "(a, oa) \<in> set (restingOrders e)" and b: "(b, ob) \<in> set (restingOrders e)"
    and ka: "key_of oa = (side, price)" and kb: "key_of ob = (side, price)"
    and le: "qty_ticks (queueAheadSize oa) \<le> qty_ticks (queueAheadSize ob)"
    and run: "delta_run now e side price qs = (e', fills)"
  shows "filled_of a fills = qty_ticks (remainingSize oa) \<or> filled_of b fills \<le> filled_of a fills"
proof -
  obtain prev where "lastObservedSize e (key_of oa) = Some prev"
    by (rule engine_inv_tracked [OF inv a])
  then have prev: "lastObservedSize e (side, price) = Some prev" by (simp only: ka)
  have "filled_of a fills = filled_by (total_reduction (qty_ticks prev) qs) oa"
    "filled_of b fills = filled_by (total_reduction (qty_ticks prev) qs) ob"
    using delta_run_fill [OF inv onf nn a ka prev run] delta_run_fill [OF inv onf nn b kb prev run] by simp_all
  with le show ?thesis by (auto simp: filled_by_def)
qed

section \<open>Books with positive quantities\<close>

definition positive_map :: "(Price \<rightharpoonup> Quantity) \<Rightarrow> bool" where
  "positive_map m \<longleftrightarrow> (\<forall>p q. m p = Some q \<longrightarrow> pos_qty q)"

lemma side_pos_map:
  assumes "side_inv s"
  shows "side_pos s \<longleftrightarrow> positive_map (side_map s)"
proof -
  have d: "distinct (map fst (map level_pair (levels_of s)))"
    using assms sorted_better_distinct [of s "map level_price (levels_of s)"] by (simp add: side_inv_def level_pair_def o_def)
  have "side_map s p = Some q \<longleftrightarrow> (\<exists>l \<in> set (levels_of s). level_price l = p \<and> level_quantity l = q)" for p q
    unfolding side_map_def map_of_eq_Some_iff [OF d] by (auto simp: level_pair_def image_iff)
  then show ?thesis using assms unfolding side_pos_def positive_map_def by metis
qed

lemma positive_map_delta: "positive_map m \<Longrightarrow> nonneg_qty (snd d) \<Longrightarrow> positive_map (mirror_delta m d)"
  by (auto simp: positive_map_def mirror_delta_def nonneg_qty_def pos_qty_def)

lemma positive_map_deltas: "positive_map m \<Longrightarrow> \<forall>d \<in> set ds. nonneg_qty (snd d) \<Longrightarrow> positive_map (foldl mirror_delta m ds)"
  by (induction ds arbitrary: m) (simp_all add: positive_map_delta)

section \<open>Iteration order\<close>

lemma engine_inv_reorder:
  assumes "engine_inv e" and "mset os = mset (restingOrders e)"
  shows "engine_inv (e\<lparr>restingOrders := os\<rparr>)"
proof -
  have s: "set os = set (restingOrders e)" using assms(2) by (rule mset_eq_setD)
  have "mset (map fst os) = mset (map fst (restingOrders e))" using assms(2) by simp
  then have "distinct (map fst os) = distinct (map fst (restingOrders e))" by (rule mset_eq_imp_distinct_iff)
  with assms(1) s show ?thesis by (simp add: engine_inv_def order_keys_def)
qed

lemma mset_hits: "mset os = mset os' \<Longrightarrow> mset (hits key r os) = mset (hits key r os')"
  by (simp add: hits_def mset_filter)

lemma mset_after_reduction: "mset os = mset os' \<Longrightarrow> mset (after_reduction key r os) = mset (after_reduction key r os')"
  by (simp add: after_reduction_def mset_filter)

lemma anyRestingOrderAt_cong: "mset (restingOrders e) = mset (restingOrders e') \<Longrightarrow> anyRestingOrderAt e key = anyRestingOrderAt e' key"
  by (drule mset_eq_setD) (simp add: anyRestingOrderAt_iff order_keys_def)

lemma onBookDelta_reorder:
  assumes inv: "engine_inv e" and onf: "me_onFill e" and q: "nonneg_qty q" and os: "mset os = mset (restingOrders e)"
    and d: "onBookDelta now e side price q = (e1, fs1)"
    and d': "onBookDelta now (e\<lparr>restingOrders := os\<rparr>) side price q = (e2, fs2)"
  shows "mset (map fill_view fs1) = mset (map fill_view fs2)
    \<and> mset (restingOrders e1) = mset (restingOrders e2) \<and> lastObservedSize e1 = lastObservedSize e2"
proof -
  let ?key = "(side, price)"
  note eq = onBookDelta_eq [OF inv q, of now side price] onBookDelta_eq [OF engine_inv_reorder [OF inv os] q, of now side price]
  show ?thesis
  proof (cases "lastObservedSize e ?key")
    case None
    then show ?thesis using d [unfolded eq(1)] d' [unfolded eq(2)] os by auto
  next
    case (Some prev)
    show ?thesis
    proof (cases "qty_ticks prev \<le> qty_ticks q")
      case True
      with Some d d' os show ?thesis by (auto simp: eq)
    next
      case False
      let ?r = "qty_ticks prev - qty_ticks q"
      let ?obs = "(lastObservedSize e)(?key \<mapsto> q)"
      let ?a = "e\<lparr>lastObservedSize := ?obs, restingOrders := after_reduction ?key ?r (restingOrders e)\<rparr>"
      let ?b = "e\<lparr>lastObservedSize := ?obs, restingOrders := after_reduction ?key ?r os\<rparr>"
      have m: "mset (restingOrders ?a) = mset (restingOrders ?b)"
        using mset_after_reduction [OF os, of ?key ?r] by simp
      have h: "mset (hits ?key ?r os) = mset (hits ?key ?r (restingOrders e))" using os by (rule mset_hits)
      have any: "anyRestingOrderAt ?a ?key = anyRestingOrderAt ?b ?key" using m by (rule anyRestingOrderAt_cong)
      show ?thesis
        using False Some d d' m any h onf
        by (auto simp: eq Let_def emit_all_Nil simp del: fun_upd_apply mset_map split: if_splits)
    qed
  qed
qed

section \<open>Reachable engines\<close>

text \<open>
  The calls the registry's worker makes on one engine, in any order and over any books:
  orders with fresh ids, cancellations and deltas of non-negative size.
\<close>

inductive engine_reachable :: "MatchingEngine \<Rightarrow> bool" where
  start: "engine_reachable (new_engine symbol onFill)"
| place: "engine_reachable e \<Longrightarrow> book_pos book \<Longrightarrow> oid \<notin> fst ` set (restingOrders e) \<Longrightarrow> in_s64 (qty_ticks sz)
    \<Longrightarrow> placeOrder book now e oid side type price sz = (e', fills, res) \<Longrightarrow> engine_reachable e'"
| cancel: "engine_reachable e \<Longrightarrow> cancelOrder e oid = (e', res) \<Longrightarrow> engine_reachable e'"
| delta: "engine_reachable e \<Longrightarrow> nonneg_qty q \<Longrightarrow> onBookDelta now e side price q = (e', fills) \<Longrightarrow> engine_reachable e'"

lemma reachable_inv: "engine_reachable e \<Longrightarrow> engine_inv e"
  by (induction rule: engine_reachable.induct) (auto intro: placeOrder_inv cancelOrder_inv onBookDelta_inv)

section \<open>An engine beside the book it trades against\<close>

text \<open>
  The worker of a symbol passes every delta it has applied to the book to the engine, and a
  removal of the evicted level after it, before it serves the next order; so the tracked sizes
  are those of the book. Only a snapshot message, or a rebuild after a checksum mismatch,
  replaces levels without telling the engine. The sessions here are those in which that does
  not happen while orders rest.
\<close>

definition put_side :: "BookSide \<Rightarrow> OrderBookSide \<Rightarrow> OrderBook \<Rightarrow> OrderBook" where
  "put_side side s book = (if side = Bid then book\<lparr>bids := s\<rparr> else book\<lparr>asks := s\<rparr>)"

definition removed_after :: "clock \<Rightarrow> MatchingEngine \<Rightarrow> BookSide \<Rightarrow> Price option \<Rightarrow> MatchingEngine" where
  "removed_after now e side evicted =
     (case evicted of None \<Rightarrow> e | Some p \<Rightarrow> fst (onBookDelta now e side p (Quantity 0)))"

inductive trading_session :: "OrderBook \<Rightarrow> MatchingEngine \<Rightarrow> bool" where
  start: "book_pos book \<Longrightarrow> trading_session book (new_engine symbol onFill)"
| place: "trading_session book e \<Longrightarrow> oid \<notin> fst ` set (restingOrders e) \<Longrightarrow> in_s64 (qty_ticks sz)
    \<Longrightarrow> placeOrder book now e oid side type price sz = (e', fills, res) \<Longrightarrow> trading_session book e'"
| cancel: "trading_session book e \<Longrightarrow> cancelOrder e oid = (e', res) \<Longrightarrow> trading_session book e'"
| level: "trading_session book e \<Longrightarrow> nonneg_qty q \<Longrightarrow> applyDelta (own_side book side) p q = (s, evicted)
    \<Longrightarrow> onBookDelta now e side p q = (e', fills)
    \<Longrightarrow> trading_session ((put_side side s book)\<lparr>lastSeq := n, lastCheckSum := k\<rparr>) (removed_after now' e' side evicted)"
| replace: "trading_session book e \<Longrightarrow> restingOrders e = [] \<Longrightarrow> book_pos book' \<Longrightarrow> trading_session book' e"

definition session_inv :: "OrderBook \<Rightarrow> MatchingEngine \<Rightarrow> bool" where
  "session_inv book e \<longleftrightarrow> book_pos book \<and> engine_inv e \<and> queue_inv e \<and> synced book e"

text \<open>One delta against the sizes the engine tracks.\<close>

definition tracks :: "MatchingEngine \<Rightarrow> (LevelKey \<Rightarrow> Quantity) \<Rightarrow> bool" where
  "tracks e sizes \<longleftrightarrow> (\<forall>key q. lastObservedSize e key = Some q \<longrightarrow> sizes key = q)"

lemma synced_tracks: "synced book e \<longleftrightarrow> tracks e (\<lambda>(side, price). sizeAtPrice (own_side book side) price)"
  by (auto simp: synced_def tracks_def)

lemma onBookDelta_tracks:
  assumes "engine_inv e" and "tracks e sizes" and "nonneg_qty q" and "onBookDelta now e side p q = (e', fills)"
  shows "tracks e' (sizes((side, p) := q))"
  using assms(2,4) unfolding onBookDelta_eq [OF assms(1,3)]
  by (auto simp: tracks_def Let_def split: option.splits if_splits)

lemma zero_nonneg: "nonneg_qty (Quantity 0)"
  by (simp add: nonneg_qty_def in_s64_def)

lemma not_bid: "side \<noteq> Bid \<longleftrightarrow> side = Ask"
  by (cases side) simp_all

lemma session_level:
  assumes "session_inv book e" and "nonneg_qty q" and d: "applyDelta (own_side book side) p q = (s, evicted)"
    and o: "onBookDelta now e side p q = (e', fills)"
  shows "session_inv ((put_side side s book)\<lparr>lastSeq := n, lastCheckSum := k\<rparr>) (removed_after now' e' side evicted)"
proof -
  let ?book = "(put_side side s book)\<lparr>lastSeq := n, lastCheckSum := k\<rparr>" and ?e = "removed_after now' e' side evicted"
  let ?sizes = "\<lambda>(side, price). sizeAtPrice (own_side book side) price"
  have pos: "book_pos book" and inv: "engine_inv e" "queue_inv e" and tr: "tracks e ?sizes"
    using assms(1) by (simp_all add: session_inv_def synced_tracks)
  have own: "side_inv (own_side book side)" "positive_map (side_map (own_side book side))" "side_of (own_side book side) = side"
    using opposite_side_props(4,5) [OF pos, of side] side_pos_map by (auto simp: side_pos_def)
  note upd = applyDelta_correct [OF own(1) d]
  have mir: "foldl mirror_delta (side_map (own_side book side)) ((p, q) # (case evicted of None \<Rightarrow> [] | Some w \<Rightarrow> [(w, Quantity 0)])) = side_map s"
    using own(1) d by (rule book_side.upd_mirror)
  have "positive_map (side_map s)"
    unfolding mir [symmetric] using own(2) assms(2) zero_nonneg by (intro positive_map_deltas) (auto split: option.splits)
  then have book: "book_pos ?book"
    using pos upd(1,2) own(3) side_pos_map [OF upd(1)] by (cases side) (auto simp: put_side_def book_pos_def book_inv_def)
  have sizes: "(\<lambda>(side, price). sizeAtPrice (own_side ?book side) price) =
      (case evicted of None \<Rightarrow> ?sizes((side, p) := q) | Some w \<Rightarrow> (?sizes((side, p) := q))((side, w) := Quantity 0))"
    using book_side.size_at_upd [OF own(1) d]
    by (cases side) (auto simp: fun_eq_iff own_side_def put_side_def not_bid split: option.splits)
  have e': "engine_inv e'" "queue_inv e'" "tracks e' (?sizes((side, p) := q))"
    using onBookDelta_inv [OF inv(1) assms(2) o] queue_inv_onBookDelta [OF inv assms(2) o]
      onBookDelta_tracks [OF inv(1) tr assms(2) o] by auto
  have "engine_inv ?e \<and> queue_inv ?e \<and> tracks ?e (\<lambda>(side, price). sizeAtPrice (own_side ?book side) price)"
  proof (cases evicted)
    case None
    then show ?thesis using e' sizes by (simp add: removed_after_def)
  next
    case (Some w)
    obtain e2 fs where o2: "onBookDelta now' e' side w (Quantity 0) = (e2, fs)" by (rule prod.exhaust)
    then show ?thesis
      using Some sizes onBookDelta_inv [OF e'(1) zero_nonneg o2] queue_inv_onBookDelta [OF e'(1,2) zero_nonneg o2]
        onBookDelta_tracks [OF e'(1,3) zero_nonneg o2] by (simp add: removed_after_def)
  qed
  then show ?thesis using book by (simp add: session_inv_def synced_tracks)
qed

lemma session_place:
  assumes "session_inv book e" and "oid \<notin> fst ` set (restingOrders e)" and "in_s64 (qty_ticks sz)"
    and p: "placeOrder book now e oid side type price sz = (e', fills, res)"
  shows "session_inv book e'"
proof -
  have pos: "book_pos book" and inv: "engine_inv e" "queue_inv e" "synced book e" using assms(1) by (simp_all add: session_inv_def)
  have "engine_inv e'" using placeOrder_inv [OF inv(1) pos assms(2,3) p] .
  moreover have "e' = e \<or> (\<exists>r. e' = rest_order book e oid side price r)"
  proof (cases "0 < qty_ticks sz \<and> (type = Limit \<longrightarrow> 0 < price_ticks price)")
    case True
    then show ?thesis using placeOrder_accept [OF pos, of sz type price] assms(3) p by (auto simp: pos_qty_def split: if_splits)
  qed (use p in \<open>auto simp: placeOrder_def split: if_splits\<close>)
  moreover have "synced book (rest_order book e oid side price r)" for r
    using inv(3) by (auto simp: synced_def rest_order_def)
  ultimately show ?thesis using pos inv queue_inv_rest_order [OF inv(2,3) assms(2)] by (auto simp: session_inv_def)
qed

lemma session_cancel:
  assumes "session_inv book e" and c: "cancelOrder e oid = (e', res)"
  shows "session_inv book e'"
proof (cases "map_of (restingOrders e) oid")
  case None
  then show ?thesis using assms by (simp add: cancelOrder_def)
next
  case (Some order)
  let ?e1 = "e\<lparr>restingOrders := erase_order oid (restingOrders e)\<rparr>"
  have e': "e' = (if \<not> anyRestingOrderAt ?e1 (key_of order)
      then ?e1\<lparr>lastObservedSize := (lastObservedSize ?e1)(key_of order := None)\<rparr> else ?e1)"
    using c Some by (auto simp: cancelOrder_def Let_def key_of_def)
  have "queue_inv ?e1" "synced book ?e1" using assms(1) by (auto simp: session_inv_def queue_inv_def synced_def erase_order_def)
  then have "queue_inv e'" "synced book e'" unfolding e' using queue_inv_untrack_if by (auto simp: synced_def)
  then show ?thesis using assms(1) cancelOrder_inv [OF _ c] by (simp add: session_inv_def)
qed

lemma session_reachable: "trading_session book e \<Longrightarrow> session_inv book e"
proof (induction rule: trading_session.induct)
  case (start book symbol onFill)
  then show ?case by (simp add: session_inv_def new_engine_def engine_inv_def queue_inv_def synced_def order_keys_def)
next
  case (place book e oid sz now side type price e' fills res)
  show ?case by (rule session_place [OF place.IH place.hyps(2-4)])
next
  case (cancel book e oid e' res)
  show ?case by (rule session_cancel [OF cancel.IH cancel.hyps(2)])
next
  case (level book e q side p s evicted now e' fills n k now')
  show ?case by (rule session_level [OF level.IH level.hyps(2-4)])
next
  case (replace book e book')
  have "lastObservedSize e = Map.empty" using replace by (simp add: session_inv_def engine_inv_def order_keys_def)
  then show ?case using replace by (simp add: session_inv_def synced_def)
qed

section \<open>Properties\<close>

text \<open>
  C9 (safety): orders at one level keep time priority, as long as the book is not replaced
  under resting orders. Take an engine after any sequence of placed orders (fresh ids, 64-bit
  sizes), cancellations and level deltas of non-negative quantity that were applied to its book
  and passed to it with their evictions, in which a snapshot or rebuild replaced the book only
  while no order rested, and a fill callback. When a limit order \<open>b\<close> of positive size and
  fresh id, larger than what it crosses, joins a level at which \<open>a\<close> already rests, then after
  every later sequence of deltas of non-negative quantity at that level either \<open>a\<close> is
  completely filled or \<open>b\<close> has received no more than \<open>a\<close>. (Where a snapshot replaces the book
  while \<open>a\<close> rests, the tracked size of the level is stale and this is not guaranteed.)
\<close>

theorem time_priority:
  assumes "trading_session book e" and "me_onFill e"
    and "(a, oa) \<in> set (restingOrders e)" and "key_of oa = (side, price)"
    and "b \<notin> fst ` set (restingOrders e)" and "pos_qty sz"
    and "levels_total (crossing_levels book side Limit price) < qty_ticks sz"
    and "placeOrder book now e b side Limit price sz = (e1, fs, res)"
    and "\<forall>q \<in> set qs. nonneg_qty q" and "delta_run now' e1 side price qs = (e2, fills)"
  shows "filled_of a fills = qty_ticks (remainingSize oa) \<or> filled_of b fills \<le> filled_of a fills"
proof -
  define r where "r = Quantity (qty_ticks sz - levels_total (crossing_levels book side Limit price))"
  let ?ob = "resting_order book e b side price r"
  have pos: "book_pos book" and inv: "engine_inv e" "queue_inv e" and sync: "synced book e"
    using session_reachable [OF assms(1)] by (simp_all add: session_inv_def)
  have "order_ok (a, oa)" using inv(1) assms(3) by (rule engine_inv_ok)
  then have price: "0 < price_ticks price" using assms(4) by (auto simp: order_ok_def key_of_def)
  have e1: "e1 = rest_order book e b side price r"
    using placeOrder_accept [OF pos assms(6)] price assms(7,8) by (auto simp: r_def)
  have inv1: "engine_inv e1"
    using assms(6) by (intro placeOrder_inv [OF inv(1) pos assms(5) _ assms(8)]) (simp add: pos_qty_def)
  have mem: "(a, oa) \<in> set (restingOrders e1)" "(b, ?ob) \<in> set (restingOrders e1)"
    using assms(3) by (simp_all add: e1 rest_order_mem [OF assms(5)])
  obtain q where q: "lastObservedSize e (key_of oa) = Some q" by (rule engine_inv_tracked [OF inv(1) assms(3)])
  have "qty_ticks (queueAheadSize oa) \<le> qty_ticks (queueAheadSize ?ob)"
    using queue_invD [OF inv(2) assms(3) q] sync assms(4) q by (auto simp: synced_def resting_order_def)
  moreover have "me_onFill e1" using assms(2) by (simp add: e1 rest_order_def)
  ultimately show ?thesis
    using assms(4) by (intro priority_of_run [OF inv1 _ assms(9) mem _ _ _ assms(10)])
      (simp_all add: resting_order_def key_of_def)
qed

lemma demo_session: "trading_session demo_book demo_resting"
proof -
  obtain e' fills res where
    p: "placeOrder demo_book demo_now demo_engine 1 Bid Limit (Price 99) (Quantity 2) = (e', fills, res)" by (rule prod_cases3)
  have "trading_session demo_book demo_engine" unfolding demo_engine_def using demo_book_pos by (rule trading_session.start)
  then have "trading_session demo_book e'" by (rule trading_session.place [OF _ _ _ p]) (simp_all add: in_s64_def)
  then show ?thesis by (simp add: demo_resting_def p)
qed

theorem time_priority_witness:
  "case placeOrder demo_book demo_now demo_resting 2 Bid Limit (Price 99) (Quantity 9) of
     (e1, fs, res) \<Rightarrow> (case delta_run demo_now e1 Bid (Price 99) [Quantity 0] of
       (e2, fills) \<Rightarrow> filled_of 1 fills = 2 \<or> filled_of 2 fills \<le> filled_of 1 fills)"
proof -
  obtain e1 fs res where
    p: "placeOrder demo_book demo_now demo_resting 2 Bid Limit (Price 99) (Quantity 9) = (e1, fs, res)"
    by (rule prod_cases3)
  obtain e2 fills where d: "delta_run demo_now e1 Bid (Price 99) [Quantity 0] = (e2, fills)" by (rule prod.exhaust)
  have "levels_total (crossing_levels demo_book Bid Limit (Price 99)) = 0"
    by (simp add: crossing_levels_def demo_book_def demo_level_def less_eq_Price_iff levels_total_def)
  then have "filled_of 1 fills = 2 \<or> filled_of 2 fills \<le> filled_of 1 fills"
    using time_priority [OF demo_session _ _ _ _ _ _ p _ d, of 1 demo_order]
    by (simp add: demo_resting_eq demo_order_def key_of_def pos_qty_def nonneg_qty_def in_s64_def)
  then show ?thesis by (simp only: p d prod.case)
qed

text \<open>
  Whatever orders, cancellations and deltas an engine has processed, its
  order ids are distinct, each entry is a limit order with positive remaining size and
  non-negative queue ahead, and exactly the levels with a resting order are tracked, so
  no resting order is ever cut off from the deltas of its level.
\<close>

lemma reachable_engine_inv:
  assumes "engine_reachable e"
  shows "distinct (map fst (restingOrders e)) \<and> (\<forall>x \<in> set (restingOrders e). order_ok x)
    \<and> dom (lastObservedSize e) = order_keys (restingOrders e)"
  using reachable_inv [OF assms] by (simp add: engine_inv_def)

text \<open>
  C19 (equivalence): the iteration order of the hash map of resting orders, which the C++
  standard leaves open, does not matter: two engines that differ only in that order report
  the same fills up to order and end with the same resting orders and tracked sizes.
\<close>

theorem iteration_order_irrelevant:
  assumes "engine_inv e" and "me_onFill e" and "nonneg_qty q" and "mset os = mset (restingOrders e)"
    and "onBookDelta now e side price q = (e1, fs1)"
    and "onBookDelta now (e\<lparr>restingOrders := os\<rparr>) side price q = (e2, fs2)"
  shows "mset (map fill_view fs1) = mset (map fill_view fs2)
    \<and> mset (restingOrders e1) = mset (restingOrders e2) \<and> lastObservedSize e1 = lastObservedSize e2"
  using assms by (rule onBookDelta_reorder)

definition demo_pair :: MatchingEngine where
  "demo_pair = demo_resting\<lparr>restingOrders := [(1, demo_order), (2, demo_order\<lparr>po_orderId := 2\<rparr>)]\<rparr>"

theorem iteration_order_irrelevant_witness:
  "case (onBookDelta demo_now demo_pair Bid (Price 99) (Quantity 0),
         onBookDelta demo_now (demo_pair\<lparr>restingOrders := rev (restingOrders demo_pair)\<rparr>) Bid (Price 99) (Quantity 0)) of
     ((e1, fs1), (e2, fs2)) \<Rightarrow> mset (map fill_view fs1) = mset (map fill_view fs2)"
proof -
  have inv: "engine_inv demo_pair"
    by (simp add: demo_pair_def demo_resting_eq engine_inv_def order_ok_def demo_order_def pos_qty_def nonneg_qty_def
        in_s64_def order_keys_def key_of_def)
  have onf: "me_onFill demo_pair" by (simp add: demo_pair_def demo_resting_eq)
  obtain e1 fs1 where d1: "onBookDelta demo_now demo_pair Bid (Price 99) (Quantity 0) = (e1, fs1)" by (rule prod.exhaust)
  obtain e2 fs2 where d2: "onBookDelta demo_now (demo_pair\<lparr>restingOrders := rev (restingOrders demo_pair)\<rparr>)
      Bid (Price 99) (Quantity 0) = (e2, fs2)" by (rule prod.exhaust)
  show ?thesis
    using iteration_order_irrelevant [OF inv onf _ _ d1 d2] by (simp add: d1 d2 nonneg_qty_def in_s64_def)
qed

text \<open>
  Cancelling a resting order removes exactly that order and reports
  success; an unknown id, or one already cancelled or filled, is rejected with the reason
  \<^verbatim>\<open>order not found\<close> and changes nothing.
\<close>

lemma cancelOrder_behaviour:
  "case cancelOrder e oid of (e', res) \<Rightarrow>
     (if oid \<in> fst ` set (restingOrders e)
      then accepted res \<and> result_orderId res = oid
        \<and> restingOrders e' = filter (\<lambda>x. fst x \<noteq> oid) (restingOrders e)
        \<and> snd (cancelOrder e' oid) = rejected ''order not found''
      else e' = e \<and> res = rejected ''order not found'')"
proof (cases "map_of (restingOrders e) oid")
  case None
  then have "oid \<notin> fst ` set (restingOrders e)" by (simp add: map_of_eq_None_iff)
  with None show ?thesis by (simp add: cancelOrder_def)
next
  case (Some order)
  obtain e' res where c: "cancelOrder e oid = (e', res)" by (rule prod.exhaust)
  have ro: "restingOrders e' = filter (\<lambda>x. fst x \<noteq> oid) (restingOrders e)" and res: "accepted res" "result_orderId res = oid"
    using c Some by (auto simp: cancelOrder_def Let_def erase_order_def case_prod_unfold)
  have "map_of (restingOrders e') oid = None" by (auto simp: ro map_of_eq_None_iff)
  moreover have "oid \<in> fst ` set (restingOrders e)" using map_of_SomeD [OF Some] by force
  ultimately show ?thesis by (simp add: c ro [symmetric] res) (simp add: cancelOrder_def)
qed

text \<open>
  Why the book must not be replaced under resting orders: a snapshot message that drops the
  level of order 1 leaves the tracked size of the level at 3. Order 2, placed afterwards, has
  nothing ahead of it; when the level is announced with size 2, the engine sees a reduction and
  fills order 2 by one unit while order 1 gets nothing.
\<close>

lemma stale_size_breaks_priority:
  "case placeOrder new_book demo_now demo_resting 2 Bid Limit (Price 99) (Quantity 9) of
     (e1, fs, res) \<Rightarrow> (case onBookDelta demo_now e1 Bid (Price 99) (Quantity 2) of
       (e2, fills) \<Rightarrow> filled_of 1 fills = 0 \<and> filled_of 2 fills = 1 \<and> 1 \<in> fst ` set (restingOrders e2))"
proof -
  have pos: "book_pos new_book" by (simp add: book_pos_def side_pos_def book_inv_def new_book_def new_side_def side_inv_def)
  have q: "pos_qty (Quantity 9)" by (simp add: pos_qty_def in_s64_def)
  have c: "levels_total (crossing_levels new_book Bid Limit (Price 99)) = 0"
    by (simp add: crossing_levels_def new_book_def new_side_def levels_total_def)
  have s: "sizeAtPrice (own_side new_book Bid) (Price 99) = Quantity 0"
    unfolding sizeAtPrice_own [OF pos] by (simp add: displayed_size_def new_book_def new_side_def side_map_def)
  have p: "fst (placeOrder new_book demo_now demo_resting 2 Bid Limit (Price 99) (Quantity 9))
      = rest_order new_book demo_resting 2 Bid (Price 99) (Quantity 9)"
    using placeOrder_accept [OF pos q, of Limit "Price 99" demo_now demo_resting 2 Bid] by (simp add: c)
  show ?thesis
    unfolding case_prod_unfold p
    by (simp add: rest_order_def resting_order_def emplace_order_def demo_resting_eq demo_order_def s onBookDelta_def order_at_def
        anyRestingOrderAt_def erase_order_def emitFill_def filled_of_def minus_Quantity_def qty_subtract_def s64_def min_def
        less_eq_Quantity_iff in_s64_def fill_view_def)
qed

end
