(* ===== verification/Symbol_Registry.thy ===== *)
theory Symbol_Registry
  imports Shared_Memory Asset_Pairs Client_Publication Matching_Priority
begin

text \<open>
  The symbol registry, \<^verbatim>\<open>engine/include/engine/symbol/symbol_registry.hpp\<close> and
  \<^verbatim>\<open>engine/src/symbol/symbol_registry.cpp\<close>: subscriptions with their reference counts, the
  per-symbol worker that feeds shared memory and the matching engine, the routing of orders
  to workers, and the fill queue.

  Every critical section of the code is one definition, and a call that leaves a lock, waits
  and goes on is one definition per section: \<^verbatim>\<open>subscribe\<close> looks the precision up between its
  two sections, \<^verbatim>\<open>unsubscribe\<close> joins the worker before it releases the slot, and
  \<^verbatim>\<open>placeOrder\<close> and \<^verbatim>\<open>cancelOrder\<close> find the entry and draw the id, push the request to the
  entry's inbox under that inbox's own lock, and wait for the worker's answer. The step
  relation at the end interleaves the sections of any number of callers with the workers.

  A worker connects and subscribes (\<open>start_session\<close>), and then handles messages until its
  connection fails; it runs its client's callbacks inside \<^verbatim>\<open>handleMessage\<close>. Here the callbacks are applied
  to the events of the message afterwards: \<^verbatim>\<open>onDelta\<close> and \<^verbatim>\<open>onSnapshot\<close> use only their
  arguments, and \<^verbatim>\<open>onTick\<close>, which reads the book, is the last event of a message.
\<close>

section \<open>Definitions\<close>

record SubscribeResult =
  sub_ok :: bool
  sub_reason :: string

datatype RequestKind = Place | Cancel

record OrderRequest =
  rq_kind :: RequestKind
  rq_side :: BookSide
  rq_type :: OrderType
  rq_price :: Price
  rq_size :: Quantity
  rq_orderId :: u64

text \<open>
  The reference count, an \<^verbatim>\<open>int\<close> of the code, is unbounded here: \<open>2^31\<close> subscriptions of one symbol
  that are all kept would overflow it.
\<close>

record Entry =
  refcount :: int
  en_slot :: nat
  en_client :: Client
  en_engine :: MatchingEngine
  en_inbox :: "OrderRequest list"

text \<open>
  \<open>reg_leaving\<close> holds the entries between their removal from the map and the release of their
  slot; \<open>reg_unsent\<close> the requests a caller has built and not yet pushed, with the symbol of the
  entry it found; \<open>reg_answers\<close> the promises that have been set.
\<close>

record SymbolRegistry =
  entries :: "string \<rightharpoonup> Entry"
  orderIdToSymbol :: "u64 \<rightharpoonup> string"
  nextOrderId :: u64
  reg_segment :: SharedMemorySegment
  fillQueue :: "Fill list"
  reg_leaving :: "Entry list"
  reg_unsent :: "(string \<times> OrderRequest) list"
  reg_answers :: "(OrderRequest \<times> OrderResult) list"

definition new_registry :: "SharedMemorySegment \<Rightarrow> SymbolRegistry" where
  "new_registry seg = \<lparr>entries = Map.empty, orderIdToSymbol = Map.empty, nextOrderId = 1, reg_segment = seg,
     fillQueue = [], reg_leaving = [], reg_unsent = [], reg_answers = []\<rparr>"

definition setSnapshotSymbol :: "BookSnapshot \<Rightarrow> string \<Rightarrow> BookSnapshot result" where
  "setSnapshotSymbol snapshot symbol =
     (if SYMBOL_BYTES \<le> length symbol
      then Inl (Invalid_argument ''BookSnapshot: symbol too long for fixed-width field'')
      else Inr (snapshot\<lparr>sn_symbol := memcpy_to (memset_zero (sn_symbol snapshot)) symbol\<rparr>))"

text \<open>
  The wire structs the callbacks build; \<open>ts\<close> is the reading of the system clock. Clock readings
  of the steps of a loop are functions of the step number.
\<close>

definition make_delta :: "string \<Rightarrow> u64 \<Rightarrow> BookSide \<Rightarrow> Price \<Rightarrow> Quantity \<Rightarrow> u64 \<Rightarrow> BookDelta result" where
  "make_delta key ts side price quantity seq =
     bind_result (setSymbol zero_delta key) (\<lambda>delta.
       Inr (delta\<lparr>bd_seq := seq, bd_engineTsNanos := ts, bd_side := toWireSide side, bd_price := price, bd_size := quantity\<rparr>))"

definition fill_array :: "PriceLevel list \<Rightarrow> nat \<Rightarrow> PriceLevel list \<Rightarrow> PriceLevel list" where
  "fill_array arr n levels = take n levels @ drop n arr"

definition make_snapshot :: "string \<Rightarrow> u64 \<Rightarrow> PriceLevel list \<Rightarrow> PriceLevel list \<Rightarrow> u64 \<Rightarrow> BookSnapshot result" where
  "make_snapshot key ts bs as seq =
     bind_result (setSnapshotSymbol zero_snapshot key) (\<lambda>snapshot.
       let nb = (of_nat (min (length bs) BOOK_DEPTH) :: u16); na = (of_nat (min (length as) BOOK_DEPTH) :: u16)
       in Inr (snapshot\<lparr>sn_seq := seq, sn_engineTsNanos := ts, sn_numBidLevels := nb, sn_numAskLevels := na,
            sn_bids := fill_array (sn_bids snapshot) (unat nb) bs, sn_asks := fill_array (sn_asks snapshot) (unat na) as\<rparr>))"

definition update_slot :: "nat \<Rightarrow> (SymbolSlot \<Rightarrow> SymbolSlot) \<Rightarrow> SharedMemorySegment \<Rightarrow> SharedMemorySegment" where
  "update_slot i f seg = seg\<lparr>seg_slots := (seg_slots seg)[i := f (seg_slots seg ! i)]\<rparr>"

definition serve :: "OrderBook \<Rightarrow> clock \<Rightarrow> OrderRequest \<Rightarrow> MatchingEngine \<Rightarrow> MatchingEngine \<times> Fill list \<times> OrderResult" where
  "serve book now rq e =
     (if rq_kind rq = Place
      then Matching_Engine.placeOrder book now e (rq_orderId rq) (rq_side rq) (rq_type rq) (rq_price rq) (rq_size rq)
      else let (e', res) = Matching_Engine.cancelOrder e (rq_orderId rq) in (e', [], res))"

fun drain :: "OrderBook \<Rightarrow> (nat \<Rightarrow> clock) \<Rightarrow> OrderRequest list \<Rightarrow> MatchingEngine
    \<Rightarrow> MatchingEngine \<times> Fill list \<times> (OrderRequest \<times> OrderResult) list" where
  "drain book nows [] e = (e, [], [])"
| "drain book nows (rq # rqs) e =
     (let (e1, fs1, res) = serve book (nows 0) rq e;
          (e2, fs2, answers) = drain book (\<lambda>i. nows (Suc i)) rqs e1
      in (e2, fs1 @ fs2, (rq, res) # answers))"

text \<open>What a worker owns or shares: its entry, the segment, the fills and the answers.\<close>

record Worker =
  wk_entry :: Entry
  wk_segment :: SharedMemorySegment
  wk_fills :: "Fill list"
  wk_answers :: "(OrderRequest \<times> OrderResult) list"

record clocks =
  ck_ts :: u64
  ck_fill :: clock
  ck_orders :: "nat \<Rightarrow> clock"

definition drainInbox :: "clocks \<Rightarrow> Worker \<Rightarrow> Worker" where
  "drainInbox ck w =
     (let en = wk_entry w;
          (e, fs, answers) = drain (cl_book (en_client en)) (ck_orders ck) (en_inbox en) (en_engine en)
      in w\<lparr>wk_entry := en\<lparr>en_inbox := [], en_engine := e\<rparr>, wk_fills := wk_fills w @ fs,
           wk_answers := wk_answers w @ answers\<rparr>)"

definition onDelta :: "clocks \<Rightarrow> string \<Rightarrow> BookSide \<Rightarrow> Price \<Rightarrow> Quantity \<Rightarrow> u64 \<Rightarrow> Worker \<Rightarrow> Worker result" where
  "onDelta ck key side price quantity seq w =
     bind_result (make_delta key (ck_ts ck) side price quantity seq) (\<lambda>delta.
       let seg = update_slot (en_slot (wk_entry w)) (\<lambda>slot. slot\<lparr>deltaQueue := fst (tryPush (deltaQueue slot) delta)\<rparr>) (wk_segment w);
           (e, fs) = onBookDelta (ck_fill ck) (en_engine (wk_entry w)) side price quantity
       in Inr (w\<lparr>wk_segment := seg, wk_entry := (wk_entry w)\<lparr>en_engine := e\<rparr>, wk_fills := wk_fills w @ fs\<rparr>))"

definition onSnapshot :: "clocks \<Rightarrow> string \<Rightarrow> PriceLevel list \<Rightarrow> PriceLevel list \<Rightarrow> u64 \<Rightarrow> Worker \<Rightarrow> Worker result" where
  "onSnapshot ck key bs as seq w =
     bind_result (make_snapshot key (ck_ts ck) bs as seq) (\<lambda>snapshot.
       Inr (w\<lparr>wk_segment := update_slot (en_slot (wk_entry w))
                (\<lambda>slot. slot\<lparr>snapshotSlot := write_slot snapshot (snapshotSlot slot)\<rparr>) (wk_segment w)\<rparr>))"

fun dispatch :: "clocks \<Rightarrow> string \<Rightarrow> client_event \<Rightarrow> Worker \<Rightarrow> Worker result" where
  "dispatch ck key (OnDelta side price quantity seq) w = onDelta ck key side price quantity seq w"
| "dispatch ck key (OnSnapshot bs as seq) w = onSnapshot ck key bs as seq w"
| "dispatch ck key OnTick w = Inr (drainInbox ck w)"
| "dispatch ck key (WsWrite text) w = Inr w"
| "dispatch ck key WsClose w = Inr w"

fun dispatch_all :: "(nat \<Rightarrow> clocks) \<Rightarrow> string \<Rightarrow> client_event list \<Rightarrow> Worker \<Rightarrow> Worker result" where
  "dispatch_all cks key [] w = Inr w"
| "dispatch_all cks key (ev # evs) w =
     bind_result (dispatch (cks 0) key ev w) (dispatch_all (\<lambda>i. cks (Suc i)) key evs)"

definition worker_parsed :: "zlib_crc32 \<Rightarrow> network \<Rightarrow> readings \<Rightarrow> (nat \<Rightarrow> clocks) \<Rightarrow> string
    \<Rightarrow> BookMessage option result \<Rightarrow> Worker \<Rightarrow> Worker result" where
  "worker_parsed zlib net t cks key parsed w =
     (let c = en_client (wk_entry w); (exc, c') = handle_parsed zlib net t parsed c
      in dispatch_all cks key (new_events c c') (w\<lparr>wk_entry := (wk_entry w)\<lparr>en_client := c'\<rparr>\<rparr>))"

definition worker_message :: "'v simdjson \<Rightarrow> zlib_crc32 \<Rightarrow> network \<Rightarrow> readings \<Rightarrow> (nat \<Rightarrow> clocks) \<Rightarrow> string
    \<Rightarrow> string \<Rightarrow> Worker \<Rightarrow> Worker result" where
  "worker_message js zlib net t cks key raw = worker_parsed zlib net t cks key (parseBookMessage js raw)"

subsection \<open>Subscriptions\<close>

definition sub_success :: SubscribeResult where "sub_success = \<lparr>sub_ok = True, sub_reason = []\<rparr>"

definition sub_failure :: "string \<Rightarrow> SubscribeResult" where "sub_failure reason = \<lparr>sub_ok = False, sub_reason = reason\<rparr>"

definition subscribe_check :: "string \<Rightarrow> SymbolRegistry \<Rightarrow> SymbolRegistry \<times> SubscribeResult option" where
  "subscribe_check key reg =
     (case entries reg key of
        Some en \<Rightarrow> (reg\<lparr>entries := (entries reg)(key \<mapsto> en\<lparr>refcount := refcount en + 1\<rparr>)\<rparr>, Some sub_success)
      | None \<Rightarrow> (reg, None))"

definition check_precision :: "SymbolPrecision option \<Rightarrow> SubscribeResult option" where
  "check_precision precision =
     (case precision of
        None \<Rightarrow> Some (sub_failure ''could not determine symbol precision'')
      | Some p \<Rightarrow>
          if \<not> priceScaleSupports (pairDecimals p) \<or> \<not> quantityScaleSupports (lotDecimals p)
          then Some (sub_failure ''symbol requires more precision than PRICE_SCALE/QUANTITY_SCALE supports'')
          else None)"

definition exception_text :: "cpp_exception \<Rightarrow> string" where
  "exception_text e = (case e of Invalid_argument m \<Rightarrow> m | Out_of_range m \<Rightarrow> m | Runtime_error m \<Rightarrow> m | Simdjson_error m \<Rightarrow> m)"

definition new_entry :: "int \<Rightarrow> SymbolPrecision \<Rightarrow> string \<Rightarrow> nat \<Rightarrow> Entry" where
  "new_entry t p key slot =
     \<lparr>refcount = 1, en_slot = slot,
      en_client = new_client key (new_book\<lparr>book_symbol := key\<rparr>) True True (pairDecimals p) (lotDecimals p) True t,
      en_engine = new_engine key True, en_inbox = []\<rparr>"

definition subscribe_commit :: "int \<Rightarrow> SymbolPrecision \<Rightarrow> string \<Rightarrow> SymbolRegistry \<Rightarrow> SymbolRegistry \<times> SubscribeResult" where
  "subscribe_commit t p key reg =
     (case entries reg key of
        Some en \<Rightarrow> (reg\<lparr>entries := (entries reg)(key \<mapsto> en\<lparr>refcount := refcount en + 1\<rparr>)\<rparr>, sub_success)
      | None \<Rightarrow>
          (case claimSlot (reg_segment reg) key of
             (seg, Inl e) \<Rightarrow> (reg\<lparr>reg_segment := seg\<rparr>, sub_failure (exception_text e))
           | (seg, Inr None) \<Rightarrow> (reg\<lparr>reg_segment := seg\<rparr>, sub_failure ''symbol slot pool exhausted'')
           | (seg, Inr (Some slot)) \<Rightarrow>
               (reg\<lparr>reg_segment := seg, entries := (entries reg)(key \<mapsto> new_entry t p key slot)\<rparr>, sub_success)))"

text \<open>A call of \<^verbatim>\<open>subscribe\<close> that no other call interrupts.\<close>

definition subscribe :: "(string \<Rightarrow> SymbolPrecision option) \<Rightarrow> int \<Rightarrow> string \<Rightarrow> SymbolRegistry \<Rightarrow> SymbolRegistry \<times> SubscribeResult" where
  "subscribe precisionLookup t key reg =
     (case subscribe_check key reg of
        (reg1, Some result) \<Rightarrow> (reg1, result)
      | (reg1, None) \<Rightarrow>
          (case check_precision (precisionLookup key) of
             Some result \<Rightarrow> (reg1, result)
           | None \<Rightarrow> subscribe_commit t (the (precisionLookup key)) key reg1))"

definition unsubscribe_begin :: "string \<Rightarrow> SymbolRegistry \<Rightarrow> SymbolRegistry \<times> SubscribeResult" where
  "unsubscribe_begin key reg =
     (case entries reg key of
        None \<Rightarrow> (reg, sub_failure ''symbol not subscribed'')
      | Some en \<Rightarrow>
          let en1 = en\<lparr>refcount := refcount en - 1\<rparr>
          in if refcount en1 > 0 then (reg\<lparr>entries := (entries reg)(key \<mapsto> en1)\<rparr>, sub_success)
             else let en2 = en1\<lparr>en_client := stop (en_client en1)\<rparr>
                  in (reg\<lparr>entries := (entries reg)(key := None), reg_leaving := reg_leaving reg @ [en2]\<rparr>, sub_success))"

definition unsubscribe_finish :: "nat \<Rightarrow> SymbolRegistry \<Rightarrow> SymbolRegistry" where
  "unsubscribe_finish k reg =
     reg\<lparr>reg_segment := releaseSlot (en_slot (reg_leaving reg ! k)) (reg_segment reg),
         reg_leaving := take k (reg_leaving reg) @ drop (Suc k) (reg_leaving reg)\<rparr>"

subsection \<open>Orders\<close>

definition place_submit :: "string \<Rightarrow> BookSide \<Rightarrow> OrderType \<Rightarrow> Price \<Rightarrow> Quantity \<Rightarrow> SymbolRegistry
    \<Rightarrow> SymbolRegistry \<times> (OrderResult + u64)" where
  "place_submit key side type price sz reg =
     (case entries reg key of
        None \<Rightarrow> (reg, Inl (rejected ''symbol not subscribed''))
      | Some en \<Rightarrow>
          let orderId = nextOrderId reg;
              rq = \<lparr>rq_kind = Place, rq_side = side, rq_type = type, rq_price = price, rq_size = sz, rq_orderId = orderId\<rparr>
          in (reg\<lparr>nextOrderId := orderId + 1, reg_unsent := reg_unsent reg @ [(key, rq)]\<rparr>, Inr orderId))"

text \<open>
  The push of the \<open>k\<close>-th request that is not yet sent. The caller holds a pointer to the entry
  it found: the entry may meanwhile be leaving, or be gone, in which case nobody reads the
  inbox any more. (A symbol that is subscribed again in between gets the request here, one
  behaviour more than the code has.)
\<close>

definition unsent_without :: "nat \<Rightarrow> SymbolRegistry \<Rightarrow> (string \<times> OrderRequest) list" where
  "unsent_without k reg = take k (reg_unsent reg) @ drop (Suc k) (reg_unsent reg)"

definition push_inbox :: "OrderRequest \<Rightarrow> Entry \<Rightarrow> Entry" where
  "push_inbox rq en = en\<lparr>en_inbox := en_inbox en @ [rq]\<rparr>"

definition push_request :: "nat \<Rightarrow> SymbolRegistry \<Rightarrow> SymbolRegistry" where
  "push_request k reg =
     (case reg_unsent reg ! k of (key, rq) \<Rightarrow>
        reg\<lparr>reg_unsent := unsent_without k reg, entries := (entries reg)(key := map_option (push_inbox rq) (entries reg key))\<rparr>)"

definition push_leaving :: "nat \<Rightarrow> nat \<Rightarrow> SymbolRegistry \<Rightarrow> SymbolRegistry" where
  "push_leaving k j reg =
     (case reg_unsent reg ! k of (key, rq) \<Rightarrow>
        reg\<lparr>reg_unsent := unsent_without k reg, reg_leaving := (reg_leaving reg)[j := push_inbox rq (reg_leaving reg ! j)]\<rparr>)"

text \<open>What the caller does with the answer; \<open>None\<close> is the timeout.\<close>

definition place_finish :: "string \<Rightarrow> u64 \<Rightarrow> OrderResult option \<Rightarrow> SymbolRegistry \<Rightarrow> SymbolRegistry \<times> OrderResult" where
  "place_finish key orderId answer reg =
     (case answer of
        None \<Rightarrow> (reg, rejected ''order request timed out (symbol thread unresponsive)'')
      | Some result \<Rightarrow>
          (if accepted result then reg\<lparr>orderIdToSymbol := (orderIdToSymbol reg)(orderId \<mapsto> key)\<rparr> else reg, result))"

definition cancel_submit :: "u64 \<Rightarrow> SymbolRegistry \<Rightarrow> SymbolRegistry \<times> (OrderResult + string)" where
  "cancel_submit engineOrderId reg =
     (case orderIdToSymbol reg engineOrderId of
        None \<Rightarrow> (reg, Inl (rejected ''order not found''))
      | Some key \<Rightarrow>
          (case entries reg key of
             None \<Rightarrow> (reg, Inl (rejected ''order not found''))
           | Some en \<Rightarrow>
               let rq = \<lparr>rq_kind = Cancel, rq_side = Bid, rq_type = Market, rq_price = Price 0, rq_size = Quantity 0,
                         rq_orderId = engineOrderId\<rparr>
               in (reg\<lparr>reg_unsent := reg_unsent reg @ [(key, rq)]\<rparr>, Inr key)))"

definition cancel_finish :: "u64 \<Rightarrow> OrderResult option \<Rightarrow> SymbolRegistry \<Rightarrow> SymbolRegistry \<times> OrderResult" where
  "cancel_finish engineOrderId answer reg =
     (case answer of
        None \<Rightarrow> (reg, rejected ''cancel request timed out (symbol thread unresponsive)'')
      | Some result \<Rightarrow>
          (if accepted result then reg\<lparr>orderIdToSymbol := (orderIdToSymbol reg)(engineOrderId := None)\<rparr> else reg, result))"

definition waitForFill :: "SymbolRegistry \<Rightarrow> SymbolRegistry \<times> Fill option" where
  "waitForFill reg =
     (case fillQueue reg of [] \<Rightarrow> (reg, None) | f # fs \<Rightarrow> (reg\<lparr>fillQueue := fs\<rparr>, Some f))"

text \<open>A worker of a live entry handles one message; its fills go through \<^verbatim>\<open>pushFill\<close>.\<close>

definition pushFill :: "Fill \<Rightarrow> SymbolRegistry \<Rightarrow> SymbolRegistry" where
  "pushFill fill reg = reg\<lparr>fillQueue := fillQueue reg @ [fill]\<rparr>"

definition start_worker :: "Entry \<Rightarrow> SymbolRegistry \<Rightarrow> Worker" where
  "start_worker en reg = \<lparr>wk_entry = en, wk_segment = reg_segment reg, wk_fills = [], wk_answers = []\<rparr>"

definition finish_worker :: "Worker \<Rightarrow> SymbolRegistry \<Rightarrow> SymbolRegistry" where
  "finish_worker w reg = fold pushFill (wk_fills w)
     (reg\<lparr>reg_segment := wk_segment w, reg_answers := reg_answers reg @ wk_answers w\<rparr>)"

text \<open>The destructor, over the entries in iteration order.\<close>

definition shutdown :: "string list \<Rightarrow> SymbolRegistry \<Rightarrow> SymbolRegistry" where
  "shutdown keys reg =
     foldl (\<lambda>reg key. case entries reg key of None \<Rightarrow> reg
        | Some en \<Rightarrow> reg\<lparr>reg_segment := releaseSlot (en_slot en) (reg_segment reg)\<rparr>)
     (reg\<lparr>entries := (\<lambda>key. map_option (\<lambda>en. en\<lparr>en_client := stop (en_client en)\<rparr>) (entries reg key))\<rparr>) keys"

subsection \<open>Interleavings\<close>

text \<open>
  The steps of callers, workers and of the process that consumes the ring buffers, which pops
  a delta as \<^verbatim>\<open>tryPop\<close> does. Order sizes and prices come from 64-bit fields of a request, and
  a worker handles what the parser can return.
\<close>

definition pop_slot :: "nat \<Rightarrow> SharedMemorySegment \<Rightarrow> SharedMemorySegment" where
  "pop_slot i = update_slot i (\<lambda>slot. slot\<lparr>deltaQueue := fst (tryPop (deltaQueue slot))\<rparr>)"

inductive registry_step :: "SymbolRegistry \<Rightarrow> SymbolRegistry \<Rightarrow> bool" where
  check: "subscribe_check key reg = (reg', result) \<Longrightarrow> registry_step reg reg'"
| commit: "check_precision (Some p) = None \<Longrightarrow> subscribe_commit t p key reg = (reg', res) \<Longrightarrow> registry_step reg reg'"
| unsubscribe: "unsubscribe_begin key reg = (reg', res) \<Longrightarrow> registry_step reg reg'"
| teardown: "k < length (reg_leaving reg) \<Longrightarrow> registry_step reg (unsubscribe_finish k reg)"
| place: "place_submit key side type price sz reg = (reg', r) \<Longrightarrow> price_ok price \<Longrightarrow> qty_ok sz \<Longrightarrow> registry_step reg reg'"
| push: "k < length (reg_unsent reg) \<Longrightarrow> registry_step reg (push_request k reg)"
| push_late: "k < length (reg_unsent reg) \<Longrightarrow> j < length (reg_leaving reg) \<Longrightarrow> registry_step reg (push_leaving k j reg)"
| placed: "place_finish key oid answer reg = (reg', res) \<Longrightarrow> registry_step reg reg'"
| cancel: "cancel_submit oid reg = (reg', c) \<Longrightarrow> registry_step reg reg'"
| cancelled: "cancel_finish oid answer reg = (reg', res) \<Longrightarrow> registry_step reg reg'"
| fill: "waitForFill reg = (reg', out) \<Longrightarrow> registry_step reg reg'"
| session: "entries reg key = Some en \<Longrightarrow> start_session net a (en_client en) = (exc, c') \<Longrightarrow>
     registry_step reg (reg\<lparr>entries := (entries reg)(key \<mapsto> en\<lparr>en_client := c'\<rparr>)\<rparr>)"
| session_leaving: "k < length (reg_leaving reg) \<Longrightarrow> start_session net a (en_client (reg_leaving reg ! k)) = (exc, c') \<Longrightarrow>
     registry_step reg (reg\<lparr>reg_leaving := (reg_leaving reg)[k := (reg_leaving reg ! k)\<lparr>en_client := c'\<rparr>]\<rparr>)"
| work: "entries reg key = Some en \<Longrightarrow> worker_parsed zlib net t cks key parsed (start_worker en reg) = Inr w \<Longrightarrow>
     parsed_in_range parsed \<Longrightarrow>
     registry_step reg (finish_worker w (reg\<lparr>entries := (entries reg)(key \<mapsto> wk_entry w)\<rparr>))"
| work_leaving: "k < length (reg_leaving reg) \<Longrightarrow>
     worker_parsed zlib net t cks (cl_symbol (en_client (reg_leaving reg ! k))) parsed (start_worker (reg_leaving reg ! k) reg) = Inr w \<Longrightarrow>
     parsed_in_range parsed \<Longrightarrow>
     registry_step reg (finish_worker w (reg\<lparr>reg_leaving := (reg_leaving reg)[k := wk_entry w]\<rparr>))"
| consume: "registry_step reg (reg\<lparr>reg_segment := pop_slot i (reg_segment reg)\<rparr>)"

section \<open>Lemmas\<close>

interpretation snapshot_symbol: symbol_field sn_symbol setSnapshotSymbol
  "''BookSnapshot: symbol too long for fixed-width field''"
  by unfold_locales (auto simp: setSnapshotSymbol_def memcpy_memset)

lemma update_slot_frame:
  assumes "segment_inv seg" and "\<And>slot. slot_ok slot \<Longrightarrow> slot_ok (f slot) \<and> claimed (f slot) = claimed slot"
  shows "segment_inv (update_slot i f seg) \<and> taken_slots (update_slot i f seg) = taken_slots seg"
proof (cases "i < SYMBOL_SLOT_POOL_SIZE")
  case True
  have ok: "slot_ok (seg_slots seg ! i)" using assms(1) True by (rule slot_ok_nth)
  have i: "i < length (seg_slots seg)" using assms(1) True by (simp add: segment_inv_def)
  have "taken_slots (update_slot i f seg) = taken_slots seg"
    using assms(2) [OF ok] i by (auto simp: update_slot_def taken_update) (auto simp: taken_slots_def)
  then show ?thesis using segment_inv_update [OF assms(1)] assms(2) [OF ok] by (simp add: update_slot_def)
next
  case False
  then have "update_slot i f seg = seg" using assms(1) by (cases seg) (simp add: update_slot_def segment_inv_def list_update_beyond)
  then show ?thesis using assms(1) by simp
qed

text \<open>What the callbacks of a worker leave alone.\<close>

definition worker_frame :: "Worker \<Rightarrow> Worker \<Rightarrow> bool" where
  "worker_frame w w' \<longleftrightarrow> en_slot (wk_entry w') = en_slot (wk_entry w) \<and> refcount (wk_entry w') = refcount (wk_entry w)
     \<and> en_client (wk_entry w') = en_client (wk_entry w)
     \<and> (segment_inv (wk_segment w) \<longrightarrow>
          segment_inv (wk_segment w') \<and> taken_slots (wk_segment w') = taken_slots (wk_segment w))"

lemma worker_frame_refl: "worker_frame w w"
  by (simp add: worker_frame_def)

lemma worker_frame_trans: "worker_frame w1 w2 \<Longrightarrow> worker_frame w2 w3 \<Longrightarrow> worker_frame w1 w3"
  by (simp add: worker_frame_def)

lemma worker_frame_update:
  assumes "w' = w\<lparr>wk_segment := update_slot i f (wk_segment w), wk_entry := (wk_entry w)\<lparr>en_engine := e\<rparr>, wk_fills := fs\<rparr>"
    and "\<And>slot. slot_ok slot \<Longrightarrow> slot_ok (f slot) \<and> claimed (f slot) = claimed slot"
  shows "worker_frame w w'"
  using update_slot_frame [OF _ assms(2), where i = i] by (simp add: worker_frame_def assms(1))

lemma onDelta_frame:
  assumes "onDelta ck key side price quantity seq w = Inr w'"
  shows "worker_frame w w'"
proof -
  obtain delta e fs where w': "w' = w\<lparr>wk_segment := update_slot (en_slot (wk_entry w))
      (\<lambda>slot. slot\<lparr>deltaQueue := fst (tryPush (deltaQueue slot) delta)\<rparr>) (wk_segment w),
      wk_entry := (wk_entry w)\<lparr>en_engine := e\<rparr>, wk_fills := wk_fills w @ fs\<rparr>"
    using assms by (cases "onBookDelta (ck_fill ck) (en_engine (wk_entry w)) side price quantity")
      (auto simp: onDelta_def bind_result_Inr_iff Let_def)
  have "ring_inv (fst (tryPush rb delta))" if "ring_inv rb" for rb
    using tryPush_law [OF that, of delta] by (cases "tryPush rb delta") simp
  then show ?thesis by (intro worker_frame_update [OF w']) (simp add: slot_ok_def)
qed

lemma onSnapshot_frame:
  assumes "onSnapshot ck key bs as seq w = Inr w'"
  shows "worker_frame w w'"
proof -
  obtain snap where "w' = w\<lparr>wk_segment := update_slot (en_slot (wk_entry w))
      (\<lambda>slot. slot\<lparr>snapshotSlot := write_slot snap (snapshotSlot slot)\<rparr>) (wk_segment w)\<rparr>"
    using assms by (auto simp: onSnapshot_def bind_result_Inr_iff)
  then have "w' = w\<lparr>wk_segment := update_slot (en_slot (wk_entry w))
      (\<lambda>slot. slot\<lparr>snapshotSlot := write_slot snap (snapshotSlot slot)\<rparr>) (wk_segment w),
      wk_entry := (wk_entry w)\<lparr>en_engine := en_engine (wk_entry w)\<rparr>, wk_fills := wk_fills w\<rparr>"
    by simp
  then show ?thesis by (rule worker_frame_update) (simp add: slot_ok_def)
qed

lemma dispatch_frame: "dispatch ck key ev w = Inr w' \<Longrightarrow> worker_frame w w'"
  by (cases "(ck, key, ev, w)" rule: dispatch.cases)
    (auto dest: onDelta_frame onSnapshot_frame simp: worker_frame_refl,
     auto simp: worker_frame_def drainInbox_def Let_def split: prod.splits)

lemma dispatch_all_frame: "dispatch_all cks key evs w = Inr w' \<Longrightarrow> worker_frame w w'"
proof (induction evs arbitrary: cks w)
  case Nil
  then show ?case by (simp add: worker_frame_refl)
next
  case (Cons ev evs)
  then obtain w1 where "dispatch (cks 0) key ev w = Inr w1" "dispatch_all (\<lambda>i. cks (Suc i)) key evs w1 = Inr w'"
    by (auto simp: bind_result_Inr_iff)
  then show ?case using Cons.IH dispatch_frame worker_frame_trans by blast
qed

lemma worker_parsed_frame:
  assumes "worker_parsed zlib net t cks key parsed (start_worker en reg) = Inr w" and "segment_inv (reg_segment reg)"
  shows "en_slot (wk_entry w) = en_slot en" and "refcount (wk_entry w) = refcount en"
    and "segment_inv (wk_segment w)" and "taken_slots (wk_segment w) = taken_slots (reg_segment reg)"
    and "cl_symbol (en_client (wk_entry w)) = cl_symbol (en_client en)"
proof -
  obtain exc c' where h: "handle_parsed zlib net t parsed (en_client en) = (exc, c')" by (rule prod.exhaust)
  have "worker_frame ((start_worker en reg)\<lparr>wk_entry := en\<lparr>en_client := c'\<rparr>\<rparr>) w"
    using assms(1) by (intro dispatch_all_frame) (simp add: worker_parsed_def start_worker_def h)
  then show "en_slot (wk_entry w) = en_slot en" "refcount (wk_entry w) = refcount en"
    "segment_inv (wk_segment w)" "taken_slots (wk_segment w) = taken_slots (reg_segment reg)"
    "cl_symbol (en_client (wk_entry w)) = cl_symbol (en_client en)"
    using assms(2) handle_parsed_symbol [OF h] by (auto simp: worker_frame_def start_worker_def)
qed

end
