(* ===== verification/Registry_Slots.thy ===== *)
theory Registry_Slots
  imports Symbol_Registry
begin

text \<open>
  Who owns the slots of the shared memory: the invariant of the symbol registry over all
  interleavings of its critical sections, and what its shutdown leaves behind.
\<close>

section \<open>Slot ownership\<close>


text \<open>
  Every slot in use belongs to exactly one entry, live or leaving, and every entry to its own
  slot; live entries are referenced and their symbols fit the wire field.
\<close>

definition slot_for :: "(string \<rightharpoonup> Entry) \<Rightarrow> string \<Rightarrow> nat" where
  "slot_for m key = en_slot (the (m key))"

definition entry_slots :: "(string \<rightharpoonup> Entry) \<Rightarrow> nat set" where
  "entry_slots m = slot_for m ` dom m"

definition slots_distinct :: "(string \<rightharpoonup> Entry) \<Rightarrow> bool" where
  "slots_distinct m \<longleftrightarrow> inj_on (slot_for m) (dom m)"

definition registry_inv :: "SymbolRegistry \<Rightarrow> bool" where
  "registry_inv reg \<longleftrightarrow> segment_inv (reg_segment reg)
     \<and> taken_slots (reg_segment reg) = entry_slots (entries reg) \<union> set (map en_slot (reg_leaving reg))
     \<and> slots_distinct (entries reg) \<and> distinct (map en_slot (reg_leaving reg))
     \<and> entry_slots (entries reg) \<inter> set (map en_slot (reg_leaving reg)) = {}
     \<and> (\<forall>key en. entries reg key = Some en \<longrightarrow> 0 < refcount en \<and> cl_symbol (en_client en) = key)"

lemma entry_slotsI: "m key = Some en \<Longrightarrow> en_slot en \<in> entry_slots m"
  by (force simp: entry_slots_def slot_for_def)

lemma slot_for_upd: "slot_for (m(key \<mapsto> en)) k = (if k = key then en_slot en else slot_for m k)"
  by (simp add: slot_for_def)

lemma slot_for_del: "k \<noteq> key \<Longrightarrow> slot_for (m(key := None)) k = slot_for m k"
  by (simp add: slot_for_def)

lemma entry_slots_replace:
  assumes "m key = Some en" and "en_slot en' = en_slot en"
  shows "entry_slots (m(key \<mapsto> en')) = entry_slots m" and "slots_distinct m \<Longrightarrow> slots_distinct (m(key \<mapsto> en'))"
proof -
  have f: "slot_for (m(key \<mapsto> en')) = slot_for m" using assms by (auto simp: fun_eq_iff slot_for_def)
  have d: "dom (m(key \<mapsto> en')) = dom m" using assms(1) by auto
  show "entry_slots (m(key \<mapsto> en')) = entry_slots m" "slots_distinct m \<Longrightarrow> slots_distinct (m(key \<mapsto> en'))"
    by (simp_all only: entry_slots_def slots_distinct_def f d)
qed

lemma entry_slots_add:
  assumes "m key = None"
  shows "entry_slots (m(key \<mapsto> en)) = insert (en_slot en) (entry_slots m)"
    and "slots_distinct m \<Longrightarrow> en_slot en \<notin> entry_slots m \<Longrightarrow> slots_distinct (m(key \<mapsto> en))"
proof -
  have key: "key \<notin> dom m" using assms by auto
  have img: "slot_for (m(key \<mapsto> en)) ` dom m = slot_for m ` dom m"
    using key by (intro image_cong) (auto simp: slot_for_upd)
  have dom: "dom (m(key \<mapsto> en)) = insert key (dom m)" by simp
  have at: "slot_for (m(key \<mapsto> en)) key = en_slot en" by (simp add: slot_for_upd)
  show "entry_slots (m(key \<mapsto> en)) = insert (en_slot en) (entry_slots m)"
    unfolding entry_slots_def dom image_insert img at ..
  assume "slots_distinct m" "en_slot en \<notin> entry_slots m"
  moreover have "inj_on (slot_for (m(key \<mapsto> en))) (dom m) = inj_on (slot_for m) (dom m)"
    using key by (intro inj_on_cong) (auto simp: slot_for_upd)
  ultimately show "slots_distinct (m(key \<mapsto> en))"
    using key unfolding slots_distinct_def entry_slots_def dom inj_on_insert at by (simp add: img)
qed

lemma entry_slots_remove:
  assumes "m key = Some en" and "slots_distinct m"
  shows "entry_slots (m(key := None)) = entry_slots m - {en_slot en}" and "slots_distinct (m(key := None))"
proof -
  have key: "key \<in> dom m" and sl: "slot_for m key = en_slot en" using assms(1) by (auto simp: slot_for_def)
  have "slot_for (m(key := None)) ` (dom m - {key}) = slot_for m ` (dom m - {key})"
    by (intro image_cong) (auto simp: slot_for_del)
  also have "\<dots> = slot_for m ` dom m - slot_for m ` {key}"
    using assms(2) key by (intro inj_on_image_set_diff [of _ "dom m"]) (auto simp: slots_distinct_def)
  finally show "entry_slots (m(key := None)) = entry_slots m - {en_slot en}" by (simp add: entry_slots_def sl)
  have "inj_on (slot_for m) (dom m - {key})" using assms(2) unfolding slots_distinct_def by (rule inj_on_subset) auto
  moreover have "inj_on (slot_for (m(key := None))) (dom m - {key}) = inj_on (slot_for m) (dom m - {key})"
    by (intro inj_on_cong) (auto simp: slot_for_del)
  ultimately show "slots_distinct (m(key := None))" by (simp add: slots_distinct_def)
qed

lemma registry_inv_replace:
  assumes "registry_inv reg" and "entries reg key = Some en"
    and "en_slot en' = en_slot en" and "0 < refcount en'" and "cl_symbol (en_client en') = key"
  shows "registry_inv (reg\<lparr>entries := (entries reg)(key \<mapsto> en')\<rparr>)"
  using assms entry_slots_replace [of "entries reg" key en en'] by (auto simp: registry_inv_def)

lemma registry_inv_check:
  assumes "registry_inv reg" and "subscribe_check key reg = (reg', result)"
  shows "registry_inv reg'"
proof (cases "entries reg key")
  case (Some en)
  then have "0 < refcount en" "cl_symbol (en_client en) = key" using assms(1) by (auto simp: registry_inv_def)
  then show ?thesis
    using assms Some registry_inv_replace [OF assms(1) Some, of "en\<lparr>refcount := refcount en + 1\<rparr>"]
    by (auto simp: subscribe_check_def)
qed (use assms in \<open>simp add: subscribe_check_def\<close>)

lemma registry_inv_commit:
  assumes "registry_inv reg" and "subscribe_commit t p key reg = (reg', res)"
  shows "registry_inv reg'"
proof (cases "entries reg key")
  case (Some en)
  have "subscribe_check key reg = (reg', Some sub_success)"
    using assms(2) Some by (auto simp: subscribe_check_def subscribe_commit_def)
  with assms(1) show ?thesis by (rule registry_inv_check)
next
  case None
  have inv: "segment_inv (reg_segment reg)" using assms(1) by (simp add: registry_inv_def)
  obtain seg r where c: "claimSlot (reg_segment reg) key = (seg, r)" by (rule prod.exhaust)
  from inv c show ?thesis
  proof (cases rule: claimSlot_cases)
    case full
    then show ?thesis using assms None c by (simp add: subscribe_commit_def)
  next
    case (throws i)
    then show ?thesis
      using assms None c slots.claim_throws [OF inv c [unfolded throws(1)]] by (auto simp: subscribe_commit_def registry_inv_def)
  next
    case (claims i)
    have reg': "reg' = reg\<lparr>reg_segment := seg, entries := (entries reg)(key \<mapsto> new_entry t p key i)\<rparr>"
      using assms(2) None c claims(1) by (auto simp: subscribe_commit_def)
    have slot: "en_slot (new_entry t p key i) = i" "refcount (new_entry t p key i) = 1"
      "cl_symbol (en_client (new_entry t p key i)) = key"
      by (simp_all add: new_entry_def new_client_def)
    show ?thesis
      using assms(1) None slots.claim_some [OF inv c [unfolded claims(1)]] entry_slots_add [of "entries reg" key, OF None, of "new_entry t p key i"] slot
      unfolding reg' registry_inv_def by auto
  qed
qed

lemma registry_inv_unsubscribe:
  assumes "registry_inv reg" and "unsubscribe_begin key reg = (reg', res)"
  shows "registry_inv reg'"
proof (cases "entries reg key")
  case None
  then show ?thesis using assms by (simp add: unsubscribe_begin_def)
next
  case (Some en)
  have en: "0 < refcount en" "cl_symbol (en_client en) = key" using assms(1) Some by (auto simp: registry_inv_def)
  show ?thesis
  proof (cases "refcount en - 1 > 0")
    case True
    then show ?thesis
      using assms Some en registry_inv_replace [OF assms(1) Some, of "en\<lparr>refcount := refcount en - 1\<rparr>"]
      by (auto simp: unsubscribe_begin_def Let_def)
  next
    case False
    let ?en = "en\<lparr>refcount := refcount en - 1, en_client := stop (en_client en)\<rparr>"
    have reg': "reg' = reg\<lparr>entries := (entries reg)(key := None), reg_leaving := reg_leaving reg @ [?en]\<rparr>"
      using assms(2) Some False by (auto simp: unsubscribe_begin_def Let_def)
    have "slots_distinct (entries reg)" using assms(1) by (simp add: registry_inv_def)
    from entry_slots_remove [of "entries reg", OF Some this] entry_slotsI [of "entries reg", OF Some] assms(1) show ?thesis
      unfolding reg' registry_inv_def by auto
  qed
qed

lemma registry_inv_teardown:
  assumes "registry_inv reg" and "k < length (reg_leaving reg)"
  shows "registry_inv (unsubscribe_finish k reg)"
proof -
  let ?en = "reg_leaving reg ! k" and ?rest = "take k (reg_leaving reg) @ drop (Suc k) (reg_leaving reg)"
  have split: "reg_leaving reg = take k (reg_leaving reg) @ ?en # drop (Suc k) (reg_leaving reg)"
    using assms(2) by (rule id_take_nth_drop)
  have dist: "distinct (map en_slot (reg_leaving reg))" using assms(1) by (simp add: registry_inv_def)
  have split': "map en_slot (reg_leaving reg) = map en_slot (take k (reg_leaving reg)) @ en_slot ?en # map en_slot (drop (Suc k) (reg_leaving reg))"
    using arg_cong [OF split, of "map en_slot"] by simp
  have rest: "distinct (map en_slot ?rest)" "set (map en_slot ?rest) = set (map en_slot (reg_leaving reg)) - {en_slot ?en}"
    using dist unfolding split' by auto
  have "en_slot ?en \<in> taken_slots (reg_segment reg)" using assms by (auto simp: registry_inv_def)
  then have "en_slot ?en < SYMBOL_SLOT_POOL_SIZE" using slots.taken_bound assms(1) by (auto simp: registry_inv_def)
  moreover have "en_slot ?en \<notin> entry_slots (entries reg)" using assms by (auto simp: registry_inv_def)
  ultimately show ?thesis
    using assms(1) rest slots.release_frees [of "reg_segment reg" "en_slot ?en"]
    unfolding registry_inv_def unsubscribe_finish_def by auto
qed

lemma finish_worker_simps [simp]:
  "entries (finish_worker w reg) = entries reg" "reg_leaving (finish_worker w reg) = reg_leaving reg"
  "reg_segment (finish_worker w reg) = wk_segment w" "nextOrderId (finish_worker w reg) = nextOrderId reg"
  "reg_unsent (finish_worker w reg) = reg_unsent reg"
  "fillQueue (finish_worker w reg) = fillQueue reg @ wk_fills w"
proof -
  have f: "fold pushFill fs r = r\<lparr>fillQueue := fillQueue r @ fs\<rparr>" for fs r
    by (induction fs arbitrary: r) (simp_all add: pushFill_def)
  show "entries (finish_worker w reg) = entries reg" "reg_leaving (finish_worker w reg) = reg_leaving reg"
    "reg_segment (finish_worker w reg) = wk_segment w" "nextOrderId (finish_worker w reg) = nextOrderId reg"
    "reg_unsent (finish_worker w reg) = reg_unsent reg"
    "fillQueue (finish_worker w reg) = fillQueue reg @ wk_fills w"
    by (simp_all add: finish_worker_def f)
qed

lemma registry_inv_segment:
  assumes "registry_inv reg" and "entries reg' = entries reg" and "map en_slot (reg_leaving reg') = map en_slot (reg_leaving reg)"
    and "segment_inv (reg_segment reg')" and "taken_slots (reg_segment reg') = taken_slots (reg_segment reg)"
  shows "registry_inv reg'"
  using assms(1,4) unfolding registry_inv_def assms(2,3,5) by blast

lemma registry_inv_work:
  assumes "registry_inv reg" and "entries reg key = Some en"
    and "worker_parsed zlib net t cks key parsed (start_worker en reg) = Inr w"
  shows "registry_inv (finish_worker w (reg\<lparr>entries := (entries reg)(key \<mapsto> wk_entry w)\<rparr>))"
proof -
  have "segment_inv (reg_segment reg)" using assms(1) by (simp add: registry_inv_def)
  note fr = worker_parsed_frame [OF assms(3) this]
  have "0 < refcount en" "cl_symbol (en_client en) = key" using assms(1,2) by (auto simp: registry_inv_def)
  then have "registry_inv (reg\<lparr>entries := (entries reg)(key \<mapsto> wk_entry w)\<rparr>)"
    using fr by (intro registry_inv_replace [OF assms(1,2)]) simp_all
  then show ?thesis by (rule registry_inv_segment) (simp_all add: fr(3,4))
qed

lemma registry_inv_work_leaving:
  assumes "registry_inv reg" and "k < length (reg_leaving reg)"
    and "worker_parsed zlib net t cks key parsed (start_worker (reg_leaving reg ! k) reg) = Inr w"
  shows "registry_inv (finish_worker w (reg\<lparr>reg_leaving := (reg_leaving reg)[k := wk_entry w]\<rparr>))"
proof -
  have "segment_inv (reg_segment reg)" using assms(1) by (simp add: registry_inv_def)
  note fr = worker_parsed_frame [OF assms(3) this]
  have "map en_slot ((reg_leaving reg)[k := wk_entry w]) = map en_slot (reg_leaving reg)"
    unfolding map_update using assms(2) fr(1) by (simp add: list_update_same_conv)
  then show ?thesis by (intro registry_inv_segment [OF assms(1)]) (simp_all add: fr(3,4) del: map_update)
qed

lemma registry_inv_cong:
  assumes "entries reg' = entries reg" and "reg_segment reg' = reg_segment reg" and "map en_slot (reg_leaving reg') = map en_slot (reg_leaving reg)"
  shows "registry_inv reg' \<longleftrightarrow> registry_inv reg"
  unfolding registry_inv_def assms ..

lemma push_inbox_simps [simp]:
  "refcount (push_inbox rq en) = refcount en" "en_slot (push_inbox rq en) = en_slot en"
  "en_client (push_inbox rq en) = en_client en" "en_engine (push_inbox rq en) = en_engine en"
  by (simp_all add: push_inbox_def)

lemma registry_inv_push:
  assumes "registry_inv reg"
  shows "registry_inv (push_request k reg)"
proof -
  obtain key rq where kr: "reg_unsent reg ! k = (key, rq)" by (rule prod.exhaust)
  let ?reg = "reg\<lparr>entries := (entries reg)(key := map_option (push_inbox rq) (entries reg key))\<rparr>"
  have "registry_inv ?reg"
  proof (cases "entries reg key")
    case None
    then have "?reg = reg" by (cases reg) auto
    then show ?thesis using assms by simp
  next
    case (Some en)
    have "0 < refcount en" "cl_symbol (en_client en) = key" using assms Some by (auto simp: registry_inv_def)
    then show ?thesis using registry_inv_replace [OF assms Some, of "push_inbox rq en"] by (simp add: Some)
  qed
  then show ?thesis by (subst registry_inv_cong [of _ ?reg]) (simp_all add: push_request_def kr)
qed

lemma registry_inv_session:
  assumes "registry_inv reg" and "entries reg key = Some en" and "start_session net a (en_client en) = (exc, c')"
  shows "registry_inv (reg\<lparr>entries := (entries reg)(key \<mapsto> en\<lparr>en_client := c'\<rparr>)\<rparr>)"
proof -
  have "0 < refcount en" "cl_symbol (en_client en) = key" using assms(1,2) by (auto simp: registry_inv_def)
  then show ?thesis using start_session_book [OF assms(3)] by (intro registry_inv_replace [OF assms(1,2)]) simp_all
qed

lemma registry_inv_leaving:
  assumes "registry_inv reg" and "k < length (reg_leaving reg)" and "en_slot en = en_slot (reg_leaving reg ! k)"
  shows "registry_inv (reg\<lparr>reg_leaving := (reg_leaving reg)[k := en]\<rparr>)"
proof -
  have "map en_slot ((reg_leaving reg)[k := en]) = map en_slot (reg_leaving reg)"
    unfolding map_update using assms(2,3) by (simp add: list_update_same_conv)
  then show ?thesis using assms(1) by (subst registry_inv_cong [of _ reg]) (simp_all del: map_update)
qed

lemma registry_inv_push_leaving:
  assumes "registry_inv reg" and "j < length (reg_leaving reg)"
  shows "registry_inv (push_leaving k j reg)"
proof -
  have "map en_slot ((reg_leaving reg)[j := push_inbox rq (reg_leaving reg ! j)]) = map en_slot (reg_leaving reg)" for rq
    unfolding map_update using assms(2) by (simp add: list_update_same_conv)
  then show ?thesis
    using assms(1) by (subst registry_inv_cong [of _ reg]) (simp_all add: push_leaving_def case_prod_unfold del: map_update)
qed

lemma registry_inv_orders:
  assumes "registry_inv reg"
  shows "place_submit key side type price sz reg = (reg', r) \<Longrightarrow> registry_inv reg'"
    and "place_finish key oid answer reg = (reg', res) \<Longrightarrow> registry_inv reg'"
    and "cancel_submit oid reg = (reg', c) \<Longrightarrow> registry_inv reg'"
    and "cancel_finish oid answer reg = (reg', res) \<Longrightarrow> registry_inv reg'"
    and "waitForFill reg = (reg', out) \<Longrightarrow> registry_inv reg'"
  using assms
  by (auto simp: place_submit_def cancel_submit_def place_finish_def cancel_finish_def waitForFill_def registry_inv_def Let_def
      split: option.splits list.splits if_splits)

lemma registry_inv_consume: "registry_inv reg \<Longrightarrow> registry_inv (reg\<lparr>reg_segment := pop_slot i (reg_segment reg)\<rparr>)"
proof -
  assume inv: "registry_inv reg"
  have pop: "slot_ok (slot\<lparr>deltaQueue := fst (tryPop (deltaQueue slot))\<rparr>)" if "slot_ok slot" for slot
    using that delta_queue.pop_law [of "deltaQueue slot" "fst (tryPop (deltaQueue slot))" "snd (tryPop (deltaQueue slot))"]
    by (simp add: slot_ok_def)
  have "segment_inv (pop_slot i (reg_segment reg)) \<and> taken_slots (pop_slot i (reg_segment reg)) = taken_slots (reg_segment reg)"
    unfolding pop_slot_def using inv pop by (intro update_slot_frame) (auto simp: registry_inv_def)
  then show ?thesis by (intro registry_inv_segment [OF inv]) simp_all
qed

lemma registry_inv_step: "registry_step reg reg' \<Longrightarrow> registry_inv reg \<Longrightarrow> registry_inv reg'"
proof (induction rule: registry_step.induct)
  case (check key reg reg' result)
  then show ?case by (blast intro: registry_inv_check)
next
  case (commit p t key reg reg' res)
  then show ?case by (blast intro: registry_inv_commit)
next
  case (unsubscribe key reg reg' res)
  then show ?case by (blast intro: registry_inv_unsubscribe)
next
  case (teardown k reg)
  then show ?case by (blast intro: registry_inv_teardown)
next
  case (push k reg)
  then show ?case by (blast intro: registry_inv_push)
next
  case (push_late k reg j)
  then show ?case by (blast intro: registry_inv_push_leaving)
next
  case (session reg key en net a exc c')
  then show ?case by (blast intro: registry_inv_session)
next
  case (session_leaving k reg net a exc c')
  then show ?case by (intro registry_inv_leaving) simp_all
next
  case (work reg key en zlib net t cks parsed w)
  then show ?case by (blast intro: registry_inv_work)
next
  case (work_leaving k reg zlib net t cks parsed w)
  then show ?case by (blast intro: registry_inv_work_leaving)
next
  case (consume reg i)
  then show ?case by (rule registry_inv_consume)
qed (blast intro: registry_inv_orders)+

lemma registry_inv_new: "segment_inv seg \<Longrightarrow> taken_slots seg = {} \<Longrightarrow> registry_inv (new_registry seg)"
  by (simp add: registry_inv_def new_registry_def entry_slots_def slots_distinct_def)

text \<open>The segment a previous process left behind, if it has a valid header, is well formed.\<close>

definition usable :: "(SharedMemorySegment \<times> nat) option \<Rightarrow> bool" where
  "usable existing \<longleftrightarrow> (\<forall>layout bytes. existing = Some (layout, bytes) \<and> hasValidHeader layout bytes \<longrightarrow> segment_inv layout)"

lemma registry_reachable_inv:
  assumes "rtranclp registry_step (new_registry (open_segment existing)) reg" and "usable existing"
  shows "registry_inv reg"
  using assms(1)
proof (induction rule: rtranclp_induct)
  case base
  then show ?case using assms(2) unfolding usable_def by (intro registry_inv_new open_segment_inv)
next
  case (step reg reg')
  then show ?case by (blast intro: registry_inv_step)
qed

text \<open>The destructor releases the slot of every subscribed symbol.\<close>

lemma shutdown_releases:
  assumes "registry_inv reg" and "set keys = dom (entries reg)"
  shows "taken_slots (reg_segment (shutdown keys reg)) = en_slot ` set (reg_leaving reg)"
proof -
  define stopped where "stopped = (\<lambda>key. map_option (\<lambda>en. en\<lparr>en_client := stop (en_client en)\<rparr>) (entries reg key))"
  let ?go = "\<lambda>reg key. case entries reg key of None \<Rightarrow> reg | Some en \<Rightarrow> reg\<lparr>reg_segment := releaseSlot (en_slot en) (reg_segment reg)\<rparr>"
  have slot: "slot_for stopped k = slot_for (entries reg) k" if "k \<in> dom (entries reg)" for k
    using that by (auto simp: stopped_def slot_for_def)
  have bound: "slot_for (entries reg) k < SYMBOL_SLOT_POOL_SIZE" if "k \<in> dom (entries reg)" for k
    using that assms(1) slots.taken_bound by (fastforce simp: registry_inv_def entry_slots_def)
  have step: "segment_inv (reg_segment (foldl ?go r ks)) \<and> taken_slots (reg_segment (foldl ?go r ks))
      = taken_slots (reg_segment r) - slot_for (entries reg) ` set ks"
    if "set ks \<subseteq> dom (entries reg)" "entries r = stopped" "segment_inv (reg_segment r)" for ks r
    using that
  proof (induction ks arbitrary: r)
    case (Cons k ks)
    obtain en where en: "stopped k = Some en" using Cons.prems(1) by (auto simp: stopped_def)
    then have sl: "en_slot en = slot_for (entries reg) k" using slot [of k] Cons.prems(1) by (simp add: slot_for_def)
    let ?r1 = "r\<lparr>reg_segment := releaseSlot (en_slot en) (reg_segment r)\<rparr>"
    have lt: "en_slot en < SYMBOL_SLOT_POOL_SIZE" unfolding sl using Cons.prems(1) by (intro bound) simp
    note rel = slots.release_frees [OF Cons.prems(3) lt]
    have "?go r k = ?r1" using Cons.prems(2) en by simp
    moreover have "segment_inv (reg_segment ?r1)" using rel by simp
    ultimately show ?case using Cons.IH [of ?r1] Cons.prems(1,2) rel sl by auto
  qed simp
  have "shutdown keys reg = foldl ?go (reg\<lparr>entries := stopped\<rparr>) keys" by (simp add: shutdown_def stopped_def)
  then have "taken_slots (reg_segment (shutdown keys reg)) = taken_slots (reg_segment reg) - slot_for (entries reg) ` dom (entries reg)"
    using step [of keys "reg\<lparr>entries := stopped\<rparr>"] assms by (simp add: registry_inv_def)
  then show ?thesis using assms(1) by (auto simp: registry_inv_def entry_slots_def disjoint_iff Un_Diff Diff_triv Int_commute)
qed

text \<open>A symbol whose precision is unknown or not supported is refused, and nothing changes.\<close>

lemma subscribe_refused:
  assumes "entries reg key = None" and "check_precision (lookup key) = Some result"
  shows "subscribe lookup t key reg = (reg, result) \<and> \<not> sub_ok result"
  using assms by (auto simp: subscribe_def subscribe_check_def check_precision_def sub_failure_def split: option.splits if_splits)

section \<open>Properties\<close>

lemma demo_claim:
  obtains seg i where "claimSlot new_segment ''BTC/USD'' = (seg, Inr (Some i))"
    and "ring_items (deltaQueue (seg_slots seg ! i)) = []"
proof -
  obtain seg r where cl: "claimSlot new_segment ''BTC/USD'' = (seg, r)" by (rule prod.exhaust)
  from segment_inv_new cl show ?thesis
  proof (cases rule: claimSlot_cases)
    case full
    then have "{..<SYMBOL_SLOT_POOL_SIZE} = {}" using taken_new by simp
    then show ?thesis by (simp add: SYMBOL_SLOT_POOL_SIZE_def lessThan_empty_iff)
  next
    case (throws i)
    then show ?thesis by (simp add: SYMBOL_BYTES_def)
  next
    case (claims i)
    then show ?thesis using cl that by (auto simp: first_free_def claimed_for_def cleaned_def)
  qed
qed

definition demo_precision :: SymbolPrecision where "demo_precision = \<lparr>pairDecimals = 1, lotDecimals = 8\<rparr>"

lemma demo_precision_ok: "check_precision (Some demo_precision) = None"
  by (simp add: check_precision_def demo_precision_def priceScaleSupports_def quantityScaleSupports_def
      PRICE_SCALE_DIGITS_def QUANTITY_SCALE_DIGITS_def)

lemma demo_usable: "usable None" by (simp add: usable_def)

lemma demo_subscribed:
  obtains reg i where "registry_step (new_registry (open_segment None)) reg"
    and "entries reg = [''BTC/USD'' \<mapsto> new_entry 0 demo_precision ''BTC/USD'' i]"
    and "ring_items (deltaQueue (seg_slots (reg_segment reg) ! i)) = []"
    and "nextOrderId reg = 1" and "reg_unsent reg = []" and "reg_leaving reg = []"
proof -
  obtain seg i where cl: "claimSlot new_segment ''BTC/USD'' = (seg, Inr (Some i))"
    and q: "ring_items (deltaQueue (seg_slots seg ! i)) = []" by (rule demo_claim)
  obtain reg res where c: "subscribe_commit 0 demo_precision ''BTC/USD'' (new_registry (open_segment None)) = (reg, res)"
    by (rule prod.exhaust)
  have "reg = (new_registry (open_segment None))\<lparr>reg_segment := seg, entries := [''BTC/USD'' \<mapsto> new_entry 0 demo_precision ''BTC/USD'' i]\<rparr>"
    using c cl by (simp add: subscribe_commit_def new_registry_def open_segment_def)
  then show ?thesis using that [of reg i] q registry_step.commit [OF demo_precision_ok c] by (simp add: new_registry_def)
qed

text \<open>
  C29 (safety): slot ownership. However subscriptions, cancellations, teardowns, orders and
  worker messages interleave, two subscribed symbols never share a shared-memory slot, a slot
  is not reused while the worker that used it is still being joined, every slot in use
  is marked as claimed and every claimed slot is in use, and at most 32 entries exist.
\<close>

theorem registry_slot_ownership:
  assumes "rtranclp registry_step (new_registry (open_segment existing)) reg" and "usable existing"
  shows "inj_on (slot_for (entries reg)) (dom (entries reg))
    \<and> distinct (map en_slot (reg_leaving reg))
    \<and> slot_for (entries reg) ` dom (entries reg) \<inter> en_slot ` set (reg_leaving reg) = {}
    \<and> taken_slots (reg_segment reg) = slot_for (entries reg) ` dom (entries reg) \<union> en_slot ` set (reg_leaving reg)
    \<and> card (taken_slots (reg_segment reg)) \<le> 32"
proof -
  have inv: "registry_inv reg" using assms by (rule registry_reachable_inv)
  then have "card (taken_slots (reg_segment reg)) \<le> 32"
    using slots.taken_card [of "reg_segment reg"] by (simp add: registry_inv_def SYMBOL_SLOT_POOL_SIZE_def)
  with inv show ?thesis by (simp add: registry_inv_def entry_slots_def slots_distinct_def)
qed

theorem registry_slot_ownership_witness:
  "\<exists>reg. rtranclp registry_step (new_registry (open_segment None)) reg \<and> entries reg ''BTC/USD'' \<noteq> None
     \<and> card (taken_slots (reg_segment reg)) \<le> 32"
proof -
  obtain reg i where s: "registry_step (new_registry (open_segment None)) reg"
    and e: "entries reg = [''BTC/USD'' \<mapsto> new_entry 0 demo_precision ''BTC/USD'' i]" by (rule demo_subscribed)
  have run: "rtranclp registry_step (new_registry (open_segment None)) reg" using s by (rule r_into_rtranclp)
  have "card (taken_slots (reg_segment reg)) \<le> 32" using registry_slot_ownership [OF run demo_usable] by blast
  moreover have "entries reg ''BTC/USD'' \<noteq> None" by (simp add: e)
  ultimately show ?thesis using run by blast
qed

text \<open>
  A first subscription that succeeds, followed by its unsubscription, leaves
  the registry as it was: the symbol is not subscribed, no entry is left behind and exactly the
  same slots are taken.
\<close>

lemma subscribe_unsubscribe_roundtrip:
  assumes "registry_inv reg" and "entries reg key = None"
    and "subscribe lookup t key reg = (reg1, res1)" and "sub_ok res1"
    and "unsubscribe_begin key reg1 = (reg2, res2)"
  shows "sub_ok res2 \<and> entries (unsubscribe_finish (length (reg_leaving reg)) reg2) = entries reg
    \<and> reg_leaving (unsubscribe_finish (length (reg_leaving reg)) reg2) = reg_leaving reg
    \<and> taken_slots (reg_segment (unsubscribe_finish (length (reg_leaving reg)) reg2)) = taken_slots (reg_segment reg)"
proof -
  have inv: "segment_inv (reg_segment reg)" using assms(1) by (simp add: registry_inv_def)
  obtain seg r where c: "claimSlot (reg_segment reg) key = (seg, r)" by (rule prod.exhaust)
  have commit: "check_precision (lookup key) = None" "subscribe_commit t (the (lookup key)) key reg = (reg1, res1)"
    using assms(2-4) by (auto simp: subscribe_def subscribe_check_def check_precision_def sub_failure_def
        split: option.splits if_splits)
  then obtain i where r: "r = Inr (Some i)"
    and reg1: "reg1 = reg\<lparr>reg_segment := seg, entries := (entries reg)(key \<mapsto> new_entry t (the (lookup key)) key i)\<rparr>"
    using assms(2,4) c by (auto simp: subscribe_commit_def sub_failure_def split: sum.splits option.splits)
  note claim = slots.claim_some [OF inv c [unfolded r]] slots.claim_release [OF inv c [unfolded r]]
  have "entries reg = (entries reg)(key := None)" using assms(2) by auto
  then show ?thesis
    using assms(5) claim
    by (auto simp: reg1 unsubscribe_begin_def new_entry_def Let_def sub_success_def unsubscribe_finish_def nth_append)
qed

end
