(* ===== verification/Delta_Feed.thy ===== *)
theory Delta_Feed
  imports Client_Publication Ring_Buffer
begin

text \<open>
  What the client's callbacks and the ring buffer have in common, for the two programs that
  connect them (the symbol registry and the replayer's benchmark): which events of the client
  are deltas, the wire struct that carries one and how a consumer reads it back, and that the
  client only ever appends to its log of events.
\<close>

section \<open>Deltas on the wire\<close>

lemma is_delta_event_simps [simp]:
  "is_delta_event (OnDelta side p q s)" "\<not> is_delta_event (OnSnapshot bs as s)" "\<not> is_delta_event OnTick"
  "\<not> is_delta_event (WsWrite text)" "\<not> is_delta_event WsClose"
  by (simp_all add: is_delta_event_def)

definition wire_symbol :: "string \<Rightarrow> string" where
  "wire_symbol key = key @ replicate (SYMBOL_BYTES - length key) NUL"

definition wire_delta :: "string \<Rightarrow> u64 \<Rightarrow> BookSide \<Rightarrow> Price \<Rightarrow> Quantity \<Rightarrow> u64 \<Rightarrow> BookDelta" where
  "wire_delta key ts side p q seq = \<lparr>bd_symbol = wire_symbol key, bd_seq = seq, bd_engineTsNanos = ts,
     bd_side = toWireSide side, bd_price = p, bd_size = q\<rparr>"

definition decode_delta :: "BookDelta \<Rightarrow> client_event" where
  "decode_delta d = OnDelta (if bd_side d = 0 then Bid else Ask) (bd_price d) (bd_size d) (bd_seq d)"

lemma decode_wire_delta [simp]: "decode_delta (wire_delta key ts side p q seq) = OnDelta side p q seq"
  by (cases side) (simp_all add: decode_delta_def wire_delta_def)

lemma setSymbol_zero:
  "setSymbol zero_delta symbol = Inr delta \<Longrightarrow>
    delta\<lparr>bd_seq := seq, bd_side := toWireSide side, bd_price := p, bd_size := q\<rparr> = wire_delta symbol 0 side p q seq"
  by (auto simp: setSymbol_def wire_delta_def wire_symbol_def memcpy_memset zero_delta_def split: if_splits)

section \<open>The log of the client\<close>

lemma new_events_append [simp]: "cl_log c' = cl_log c @ evs \<Longrightarrow> new_events c c' = evs"
  by (simp add: new_events_def)

lemma applyMessage_log:
  assumes "applyMessage zlib net t msg c = (exc, c')"
  shows "\<exists>evs. cl_log c' = cl_log c @ evs"
proof (cases "msg_symbol msg = cl_symbol c")
  case True
  have "\<exists>evs. cl_log (applied zlib msg c) = cl_log c @ evs" by (simp add: applied_def)
  then show ?thesis
    using assms True
    by (auto simp: applyMessage_eq resubscribe_eq publishSnapshot_def maybePublishSnapshot_def emit_def Let_def split: if_splits)
next
  case False
  then show ?thesis using assms by (simp add: applyMessage_def)
qed

lemma handleMessage_log:
  assumes "handleMessage js zlib net t payload c = (exc, c')"
  shows "cl_log c' = cl_log c @ new_events c c'"
proof -
  obtain x c1 where m: "(case parseBookMessage js payload of Inl e \<Rightarrow> (Some e, c) | Inr None \<Rightarrow> (None, c)
      | Inr (Some message) \<Rightarrow> applyMessage zlib net t message c) = (x, c1)" by (rule prod.exhaust)
  obtain evs where "cl_log c1 = cl_log c @ evs"
    using m by (auto split: sum.splits option.splits dest: applyMessage_log)
  then have "\<exists>evs. cl_log c' = cl_log c @ evs"
    using assms by (auto simp: handleMessage_def handle_parsed_def and_then_def m emit_def split: option.splits if_splits)
  then show ?thesis by auto
qed

end
