(* ===== verification/Registry_Requests.thy ===== *)
theory Registry_Requests
  imports Registry_Slots Delta_Feed
begin

text \<open>
  What the workers of the symbol registry do with their input: the requests of an inbox are
  answered one by one, and the deltas of a message are put on the symbol's ring buffer. The
  operations are those of the theory of the registry.
\<close>

section \<open>Lemmas\<close>

lemma drain_answers:
  "drain book nows rqs e = (e', fs, answers) \<Longrightarrow> map fst answers = rqs"
  by (induction book nows rqs e arbitrary: e' fs answers rule: drain.induct) (auto split: prod.splits)

text \<open>The engine after a queue of requests, one request at a time.\<close>

lemma drain_answer_nth:
  "snd (snd (snd (drain book nows (rqs @ rq # rest) e)) ! length rqs) =
     snd (snd (serve book (nows (length rqs)) rq (fst (drain book nows rqs e))))"
proof (induction rqs arbitrary: nows e)
  case (Cons r rqs)
  show ?case using Cons.IH [of "\<lambda>i. nows (Suc i)"] by (simp add: Let_def case_prod_unfold)
qed (simp add: Let_def case_prod_unfold)

lemma serve_inv:
  assumes "engine_inv e" and "book_pos book" and "rq_kind rq = Place \<longrightarrow> rq_orderId rq \<notin> fst ` set (restingOrders e)"
    and "in_s64 (qty_ticks (rq_size rq))" and "serve book now rq e = (e', fs, res)"
  shows "engine_inv e'"
proof (cases "rq_kind rq")
  case Place
  then show ?thesis
    using assms placeOrder_inv [OF assms(1,2) _ assms(4), of "rq_orderId rq" now "rq_side rq" "rq_type rq" "rq_price rq" e' fs res]
    by (simp add: serve_def)
next
  case Cancel
  then show ?thesis using assms(1,5) cancelOrder_inv by (auto simp: serve_def split: prod.splits)
qed

text \<open>The wire structs of a symbol that fits its field.\<close>

definition wire_snapshot :: "string \<Rightarrow> u64 \<Rightarrow> PriceLevel list \<Rightarrow> PriceLevel list \<Rightarrow> u64 \<Rightarrow> BookSnapshot" where
  "wire_snapshot key ts bs as seq = \<lparr>sn_symbol = wire_symbol key, sn_seq = seq, sn_engineTsNanos = ts,
     sn_numBidLevels = of_nat (length bs), sn_numAskLevels = of_nat (length as),
     sn_bids = bs @ replicate (BOOK_DEPTH - length bs) zero_level, sn_asks = as @ replicate (BOOK_DEPTH - length as) zero_level\<rparr>"

lemma make_delta_eq:
  "length key < SYMBOL_BYTES \<Longrightarrow> make_delta key ts side p q seq = Inr (wire_delta key ts side p q seq)"
  by (simp add: make_delta_def setSymbol_def wire_delta_def wire_symbol_def memcpy_memset zero_delta_def)

lemma make_snapshot_eq:
  assumes "length key < SYMBOL_BYTES" and "length bs \<le> BOOK_DEPTH" and "length as \<le> BOOK_DEPTH"
  shows "make_snapshot key ts bs as seq = Inr (wire_snapshot key ts bs as seq)"
proof -
  have u: "unat (of_nat (length xs) :: u16) = length xs" if "length xs \<le> BOOK_DEPTH" for xs :: "PriceLevel list"
    using that by (simp add: unat_of_nat BOOK_DEPTH_def)
  have f: "fill_array (replicate BOOK_DEPTH zero_level) (length xs) xs = xs @ replicate (BOOK_DEPTH - length xs) zero_level"
    for xs by (simp add: fill_array_def)
  show ?thesis
    using assms by (simp add: make_snapshot_def setSnapshotSymbol_def wire_snapshot_def wire_symbol_def memcpy_memset
        zero_snapshot_def Let_def u f min_absorb1)
qed

text \<open>The deltas a run of events puts on the wire.\<close>

fun wires :: "(nat \<Rightarrow> clocks) \<Rightarrow> string \<Rightarrow> client_event list \<Rightarrow> BookDelta list" where
  "wires cks key [] = []"
| "wires cks key (OnDelta side p q seq # evs) =
     wire_delta key (ck_ts (cks 0)) side p q seq # wires (\<lambda>i. cks (Suc i)) key evs"
| "wires cks key (ev # evs) = wires (\<lambda>i. cks (Suc i)) key evs"

lemma decode_wires: "map decode_delta (wires cks key evs) = filter is_delta_event evs"
  by (induction cks key evs rule: wires.induct) simp_all

definition own_queue :: "Worker \<Rightarrow> RingBuffer" where
  "own_queue w = deltaQueue (seg_slots (wk_segment w) ! en_slot (wk_entry w))"

definition push_all :: "RingBuffer \<Rightarrow> BookDelta list \<Rightarrow> RingBuffer" where
  "push_all = foldl (\<lambda>q d. fst (tryPush q d))"

lemma push_all_items:
  "ring_inv q \<Longrightarrow> length (ring_items q) + length ds \<le> 4096 \<Longrightarrow> ring_items (push_all q ds) = ring_items q @ ds"
proof (induction ds arbitrary: q)
  case Nil
  then show ?case by (simp add: push_all_def)
next
  case (Cons d ds)
  obtain q1 ok where p: "tryPush q d = (q1, ok)" by (rule prod.exhaust)
  have "ring_inv q1" "ring_items q1 = ring_items q @ [d]" using tryPush_law [OF Cons.prems(1) p] Cons.prems(2) by auto
  with Cons.IH [of q1] Cons.prems(2) show ?case by (simp add: push_all_def p)
qed

text \<open>What one callback does to the worker's own queue.\<close>

lemma dispatch_queue:
  assumes "length key < SYMBOL_BYTES" and "en_slot (wk_entry w) < length (seg_slots (wk_segment w))"
    and "dispatch ck key ev w = Inr w'"
  shows "own_queue w' = push_all (own_queue w) (wires (\<lambda>_. ck) key [ev])"
    and "length (seg_slots (wk_segment w')) = length (seg_slots (wk_segment w))"
    and "en_slot (wk_entry w') = en_slot (wk_entry w)"
proof -
  have "own_queue w' = push_all (own_queue w) (wires (\<lambda>_. ck) key [ev])
      \<and> length (seg_slots (wk_segment w')) = length (seg_slots (wk_segment w))
      \<and> en_slot (wk_entry w') = en_slot (wk_entry w)"
  proof (cases ev)
    case (OnDelta side p q seq)
    then show ?thesis
      using assms by (auto simp: onDelta_def make_delta_eq Let_def own_queue_def push_all_def update_slot_def case_prod_unfold)
  next
    case (OnSnapshot bs as seq)
    then show ?thesis
      using assms by (auto simp: onSnapshot_def bind_result_Inr_iff own_queue_def push_all_def update_slot_def)
  next
    case OnTick
    then show ?thesis
      using assms by (auto simp: drainInbox_def own_queue_def push_all_def Let_def case_prod_unfold)
  qed (use assms in \<open>auto simp: push_all_def\<close>)
  then show "own_queue w' = push_all (own_queue w) (wires (\<lambda>_. ck) key [ev])"
    "length (seg_slots (wk_segment w')) = length (seg_slots (wk_segment w))"
    "en_slot (wk_entry w') = en_slot (wk_entry w)" by simp_all
qed

lemma wires_Cons: "wires cks key (ev # evs) = wires (\<lambda>_. cks 0) key [ev] @ wires (\<lambda>i. cks (Suc i)) key evs"
  by (cases ev) simp_all

lemma dispatch_all_total: "length key < SYMBOL_BYTES \<Longrightarrow> \<exists>w'. dispatch_all cks key evs w = Inr w'"
proof (induction evs arbitrary: cks w)
  case (Cons ev evs)
  obtain w1 where "dispatch (cks 0) key ev w = Inr w1"
    using Cons.prems by (cases ev)
      (auto simp: onDelta_def onSnapshot_def make_delta_eq make_snapshot_def setSnapshotSymbol_def Let_def case_prod_unfold)
  then show ?case using Cons by simp
qed simp

lemma dispatch_all_queue:
  assumes "length key < SYMBOL_BYTES" and "en_slot (wk_entry w) < length (seg_slots (wk_segment w))"
    and "dispatch_all cks key evs w = Inr w'"
  shows "own_queue w' = push_all (own_queue w) (wires cks key evs)"
  using assms
proof (induction evs arbitrary: cks w)
  case Nil
  then show ?case by (simp add: push_all_def)
next
  case (Cons ev evs)
  obtain w1 where d: "dispatch (cks 0) key ev w = Inr w1" and r: "dispatch_all (\<lambda>i. cks (Suc i)) key evs w1 = Inr w'"
    using Cons.prems(3) by (auto simp: bind_result_Inr_iff)
  note q = dispatch_queue [OF Cons.prems(1,2) d]
  have "own_queue w' = push_all (own_queue w1) (wires (\<lambda>i. cks (Suc i)) key evs)"
    using Cons.prems(1,2) q(2,3) r by (intro Cons.IH) simp_all
  then show ?case unfolding wires_Cons [of cks] by (simp add: q(1) push_all_def)
qed

section \<open>Properties\<close>


definition demo_cancel :: "u64 \<Rightarrow> OrderRequest" where
  "demo_cancel oid = \<lparr>rq_kind = Cancel, rq_side = Bid, rq_type = Market, rq_price = Price 0, rq_size = Quantity 0, rq_orderId = oid\<rparr>"

definition demo_worker :: Worker where
  "demo_worker = start_worker ((new_entry 0 demo_precision ''BTC/USD'' 0)\<lparr>en_inbox := [demo_cancel 5, demo_cancel 6]\<rparr>)
     (new_registry new_segment)"

definition demo_clocks :: clocks where
  "demo_clocks = \<lparr>ck_ts = 0, ck_fill = demo_now, ck_orders = (\<lambda>_. demo_now)\<rparr>"


lemma worker_queue:
  assumes "length key < SYMBOL_BYTES" and "segment_inv (reg_segment reg)" and "en_slot en < SYMBOL_SLOT_POOL_SIZE"
    and "handle_parsed zlib net t parsed (en_client en) = (exc, c')"
    and "worker_parsed zlib net t cks key parsed (start_worker en reg) = Inr w"
    and "length (ring_items (deltaQueue (seg_slots (reg_segment reg) ! en_slot en)))
      + length (filter is_delta_event (new_events (en_client en) c')) \<le> 4096"
  shows "ring_items (own_queue w) = ring_items (deltaQueue (seg_slots (reg_segment reg) ! en_slot en))
    @ wires cks key (new_events (en_client en) c')"
proof -
  let ?w0 = "(start_worker en reg)\<lparr>wk_entry := en\<lparr>en_client := c'\<rparr>\<rparr>"
  let ?q = "deltaQueue (seg_slots (reg_segment reg) ! en_slot en)"
  have slot: "en_slot (wk_entry ?w0) < length (seg_slots (wk_segment ?w0))"
    using assms(2,3) by (simp add: start_worker_def segment_inv_def)
  have run: "dispatch_all cks key (new_events (en_client en) c') ?w0 = Inr w"
    using assms(4,5) by (simp add: worker_parsed_def start_worker_def)
  have q0: "own_queue ?w0 = ?q" by (simp add: own_queue_def start_worker_def)
  have inv: "ring_inv ?q" using slot_ok_nth [OF assms(2,3)] by (simp add: slot_ok_def)
  have "length (wires cks key (new_events (en_client en) c')) = length (filter is_delta_event (new_events (en_client en) c'))"
    using decode_wires [of cks key "new_events (en_client en) c'"] by (metis length_map)
  then show ?thesis
    unfolding dispatch_all_queue [OF assms(1) slot run] q0 using assms(6) by (intro push_all_items [OF inv]) simp
qed

lemma wires_symbol: "d \<in> set (wires cks key evs) \<Longrightarrow> bd_symbol d = wire_symbol key"
  by (induction cks key evs rule: wires.induct) (auto simp: wire_delta_def)

text \<open>
  As long as the ring buffer has room, the deltas a message announces are
  appended to the symbol's ring buffer completely and in order: reading them back gives
  exactly the side, price, quantity and sequence number of every delta event, under the
  symbol's name.
\<close>

lemma worker_publishes_deltas:
  assumes "length key < SYMBOL_BYTES" and "segment_inv (reg_segment reg)" and "en_slot en < SYMBOL_SLOT_POOL_SIZE"
    and "handle_parsed zlib net t parsed (en_client en) = (exc, c')"
    and "worker_parsed zlib net t cks key parsed (start_worker en reg) = Inr w"
    and "length (ring_items (deltaQueue (seg_slots (reg_segment reg) ! en_slot en)))
      + length (filter is_delta_event (new_events (en_client en) c')) \<le> 4096"
  shows "\<exists>ds. ring_items (deltaQueue (seg_slots (wk_segment w) ! en_slot en)) =
        ring_items (deltaQueue (seg_slots (reg_segment reg) ! en_slot en)) @ ds
      \<and> map decode_delta ds = filter is_delta_event (new_events (en_client en) c')
      \<and> list_all (\<lambda>d. bd_symbol d = wire_symbol key) ds"
proof -
  have "en_slot (wk_entry w) = en_slot en" using assms(2,5) by (intro worker_parsed_frame(1))
  then show ?thesis
    using worker_queue [OF assms] decode_wires [of cks key "new_events (en_client en) c'"] wires_symbol
    by (intro exI [of _ "wires cks key (new_events (en_client en) c')"]) (auto simp: own_queue_def list_all_iff)
qed

end
