(* ===== verification/Registry_Entries.thy ===== *)
theory Registry_Entries
  imports Registry_Slots
begin

text \<open>
  What a step of the symbol registry does to the entries of the symbols, seen one entry at a
  time. An entry is live while it is in the map or its worker has not been joined. Every live
  entry is new, or comes from a live one by one of the few changes of \<open>entry_change\<close>; so an
  invariant of the entries has to be proved for these changes only. The locale
  \<open>entry_invariant\<close> is that contract, and the theories of the components interpret it.
\<close>

section \<open>Live entries\<close>

definition live :: "SymbolRegistry \<Rightarrow> Entry set" where
  "live reg = ran (entries reg) \<union> set (reg_leaving reg)"

definition request_ok :: "OrderRequest \<Rightarrow> bool" where
  "request_ok rq \<longleftrightarrow> price_ok (rq_price rq) \<and> qty_ok (rq_size rq)"

definition requests_ok :: "SymbolRegistry \<Rightarrow> bool" where
  "requests_ok reg \<longleftrightarrow> (\<forall>rq \<in> snd ` set (reg_unsent reg). request_ok rq)"

text \<open>\<open>Q\<close> are the requests that a step may push.\<close>

inductive entry_change :: "OrderRequest set \<Rightarrow> SymbolRegistry \<Rightarrow> Entry \<Rightarrow> Entry \<Rightarrow> bool"
  for Q :: "OrderRequest set" and reg :: SymbolRegistry where
  same: "entry_change Q reg en en"
| counted: "entry_change Q reg en (en\<lparr>refcount := n\<rparr>)"
| stopped: "entry_change Q reg en (en\<lparr>refcount := n, en_client := stop (en_client en)\<rparr>)"
| pushed: "rq \<in> Q \<Longrightarrow> entry_change Q reg en (push_inbox rq en)"
| connected: "start_session net a (en_client en) = (exc, c') \<Longrightarrow> entry_change Q reg en (en\<lparr>en_client := c'\<rparr>)"
| worked: "worker_parsed zlib net t cks key parsed (start_worker en reg) = Inr w \<Longrightarrow>
     parsed_in_range parsed \<Longrightarrow> entry_change Q reg en (wk_entry w)"

definition pushed_by :: "SymbolRegistry \<Rightarrow> SymbolRegistry \<Rightarrow> OrderRequest set" where
  "pushed_by reg reg' = (if length (reg_unsent reg') < length (reg_unsent reg) then snd ` set (reg_unsent reg) else {})"

definition fresh_entry :: "Entry \<Rightarrow> bool" where
  "fresh_entry en \<longleftrightarrow> (\<exists>t p key slot. en = new_entry t p key slot \<and> length key < SYMBOL_BYTES)"

lemma live_entry: "entries reg key = Some en \<Longrightarrow> en \<in> live reg"
  by (auto simp: live_def intro: ranI)

lemma live_leaving: "k < length (reg_leaving reg) \<Longrightarrow> reg_leaving reg ! k \<in> live reg"
  by (simp add: live_def)

lemma live_cases:
  assumes "en \<in> live reg"
  obtains (entry) key where "entries reg key = Some en" | (leaving) "en \<in> set (reg_leaving reg)"
  using assms by (auto simp: live_def ran_def)

lemma claim_from_fits: "claim_from key i slots = (slots', Inr (Some j)) \<Longrightarrow> length key < SYMBOL_BYTES"
  by (induction key i slots arbitrary: slots' rule: claim_from.induct)
    (auto simp: setSlotSymbol_def Let_def split: if_splits prod.splits sum.splits)

lemma claim_fits: "claimSlot seg key = (seg', Inr (Some i)) \<Longrightarrow> length key < SYMBOL_BYTES"
  by (auto simp: claimSlot_def dest: claim_from_fits split: prod.splits)

text \<open>How a live entry after a step is accounted for by the entries before it.\<close>

definition accounted :: "OrderRequest set \<Rightarrow> SymbolRegistry \<Rightarrow> Entry \<Rightarrow> bool" where
  "accounted Q reg en' \<longleftrightarrow> fresh_entry en' \<or> (\<exists>en \<in> live reg. entry_change Q reg en en')"

lemma accountedI: "en \<in> live reg \<Longrightarrow> entry_change Q reg en en' \<Longrightarrow> accounted Q reg en'"
  by (auto simp: accounted_def)

lemma accounted_live: "en \<in> live reg \<Longrightarrow> accounted Q reg en"
  by (rule accountedI [OF _ entry_change.same])

lemma accounted_entry:
  assumes "en' \<in> live reg'" and "entries reg' = (entries reg)(key := x)" and "reg_leaving reg' = reg_leaving reg"
    and "\<And>en. x = Some en \<Longrightarrow> accounted Q reg en"
  shows "accounted Q reg en'"
  using assms accounted_live [of en' reg Q] by (auto simp: live_def ran_def split: if_splits)

lemma accounted_leaving:
  assumes "en' \<in> live reg'" and "entries reg' = entries reg" and "reg_leaving reg' = (reg_leaving reg)[k := en]"
    and "accounted Q reg en"
  shows "accounted Q reg en'"
proof -
  have "set ((reg_leaving reg)[k := en]) \<subseteq> insert en (set (reg_leaving reg))" by (rule set_update_subset_insert)
  then have "en' = en \<or> en' \<in> live reg" using assms(1) unfolding live_def assms(2,3) by auto
  then show ?thesis using assms(4) accounted_live by auto
qed

lemma live_finish_worker [simp]: "live (finish_worker w reg) = live reg"
  by (simp add: live_def)

text \<open>The one case analysis over the steps of the registry.\<close>

lemma live_commit:
  assumes "subscribe_commit t p key reg = (reg', res)" and "en' \<in> live reg'"
  shows "accounted Q reg en'"
proof (cases "entries reg key")
  case (Some en)
  have "accounted Q reg (en\<lparr>refcount := refcount en + 1\<rparr>)"
    using Some by (intro accountedI [OF live_entry entry_change.counted])
  moreover have "reg' = reg\<lparr>entries := (entries reg)(key \<mapsto> en\<lparr>refcount := refcount en + 1\<rparr>)\<rparr>"
    using assms(1) Some by (simp add: subscribe_commit_def)
  ultimately show ?thesis by (intro accounted_entry [OF assms(2), where key = key]) auto
next
  case None
  obtain seg r where cl: "claimSlot (reg_segment reg) key = (seg, r)" by (rule prod.exhaust)
  have new: "accounted Q reg (new_entry t p key i)" if "r = Inr (Some i)" for i
    using that cl claim_fits unfolding accounted_def fresh_entry_def by blast
  show ?thesis
  proof (cases "\<exists>i. r = Inr (Some i)")
    case True
    then obtain i where i: "r = Inr (Some i)" by blast
    then have "reg' = reg\<lparr>reg_segment := seg, entries := (entries reg)(key \<mapsto> new_entry t p key i)\<rparr>"
      using assms(1) None cl by (simp add: subscribe_commit_def)
    then show ?thesis using new [OF i] by (intro accounted_entry [OF assms(2), where key = key]) auto
  next
    case False
    then have "live reg' = live reg"
      using assms(1) None cl by (auto simp: subscribe_commit_def live_def split: sum.splits option.splits)
    then show ?thesis using assms(2) by (simp add: accounted_live)
  qed
qed

lemma live_unsubscribe:
  assumes "unsubscribe_begin key reg = (reg', res)" and "en' \<in> live reg'"
  shows "accounted Q reg en'"
proof (cases "entries reg key")
  case None
  then show ?thesis using assms by (auto simp: unsubscribe_begin_def intro: accounted_live)
next
  case (Some en)
  let ?down = "en\<lparr>refcount := refcount en - 1\<rparr>"
  have down: "accounted Q reg ?down" "accounted Q reg (?down\<lparr>en_client := stop (en_client en)\<rparr>)"
    using entry_change.counted [of Q reg en] entry_change.stopped [of Q reg en] by (auto intro: accountedI [OF live_entry [OF Some]])
  have "en' = ?down \<or> en' = ?down\<lparr>en_client := stop (en_client en)\<rparr> \<or> en' \<in> live reg"
    using assms Some by (auto simp: unsubscribe_begin_def Let_def live_def ran_def split: if_splits)
  then show ?thesis using down accounted_live by auto
qed

lemma live_check:
  assumes "subscribe_check key reg = (reg', result)" and "en' \<in> live reg'"
  shows "accounted Q reg en'"
proof (cases "entries reg key")
  case None
  then show ?thesis using assms by (auto simp: subscribe_check_def intro: accounted_live)
next
  case (Some en)
  then have "reg' = reg\<lparr>entries := (entries reg)(key \<mapsto> en\<lparr>refcount := refcount en + 1\<rparr>)\<rparr>"
    using assms(1) by (simp add: subscribe_check_def)
  then show ?thesis
    using accountedI [OF live_entry [OF Some] entry_change.counted] by (intro accounted_entry [OF assms(2), where key = key]) auto
qed

lemma live_push:
  assumes "k < length (reg_unsent reg)"
  shows "en' \<in> live (push_request k reg) \<Longrightarrow> accounted (pushed_by reg (push_request k reg)) reg en'"
    and "j < length (reg_leaving reg) \<Longrightarrow> en' \<in> live (push_leaving k j reg) \<Longrightarrow> accounted (pushed_by reg (push_leaving k j reg)) reg en'"
proof -
  obtain key rq where kr: "reg_unsent reg ! k = (key, rq)" by (rule prod.exhaust)
  have rq: "rq \<in> snd ` set (reg_unsent reg)" using assms nth_mem kr by force
  show "accounted (pushed_by reg (push_request k reg)) reg en'" if en': "en' \<in> live (push_request k reg)"
  proof -
    have "rq \<in> pushed_by reg (push_request k reg)" using rq assms by (simp add: pushed_by_def push_request_def kr unsent_without_def)
    then show ?thesis
      by (intro accounted_entry [OF en', where key = key]) (auto simp: push_request_def kr intro: accountedI [OF live_entry entry_change.pushed])
  qed
  show "accounted (pushed_by reg (push_leaving k j reg)) reg en'" if j: "j < length (reg_leaving reg)" and en': "en' \<in> live (push_leaving k j reg)"
  proof -
    have "rq \<in> pushed_by reg (push_leaving k j reg)" using rq assms by (simp add: pushed_by_def push_leaving_def kr unsent_without_def)
    then show ?thesis
      by (intro accounted_leaving [OF en', where k = j and en = "push_inbox rq (reg_leaving reg ! j)"])
        (auto simp: push_leaving_def kr intro: accountedI [OF live_leaving [OF j] entry_change.pushed])
  qed
qed

lemma live_step: "registry_step reg reg' \<Longrightarrow> en' \<in> live reg' \<Longrightarrow> accounted (pushed_by reg reg') reg en'"
proof (induction rule: registry_step.induct)
  case (check key reg reg' result)
  then show ?case by (blast intro: live_check)
next
  case (commit p t key reg reg' res)
  then show ?case by (blast intro: live_commit)
next
  case (unsubscribe key reg reg' res)
  then show ?case by (blast intro: live_unsubscribe)
next
  case (teardown k reg)
  then show ?case
    by (auto simp: unsubscribe_finish_def live_def intro!: accounted_live dest: in_set_takeD in_set_dropD)
next
  case (push k reg)
  then show ?case by (rule live_push)
next
  case (push_late k reg j)
  then show ?case by (rule live_push)
next
  case (session reg key en net a exc c')
  then show ?case
    by (intro accounted_entry [OF session(3), where key = key]) (auto intro: accountedI [OF live_entry entry_change.connected])
next
  case (session_leaving k reg net a exc c')
  then show ?case
    by (intro accounted_leaving [OF session_leaving(3), where k = k]) (auto intro: accountedI [OF live_leaving entry_change.connected])
next
  case (work reg key en zlib net t cks parsed w)
  have "accounted Q reg (wk_entry w)" for Q using work(1-3) by (blast intro: accountedI live_entry entry_change.worked)
  then show ?case by (intro accounted_entry [OF work(4), where key = key]) auto
next
  case (work_leaving k reg zlib net t cks parsed w)
  then have "accounted Q reg (wk_entry w)" for Q by (blast intro: accountedI live_leaving entry_change.worked)
  then show ?case by (intro accounted_leaving [OF work_leaving(4), where k = k and en = "wk_entry w"]) auto
qed (auto simp: place_submit_def place_finish_def cancel_submit_def cancel_finish_def waitForFill_def live_def Let_def
      intro!: accounted_live split: option.splits list.splits if_splits)

lemma requests_ok_step: "registry_step reg reg' \<Longrightarrow> requests_ok reg \<Longrightarrow> requests_ok reg'"
  by (induction rule: registry_step.induct)
    (auto simp: requests_ok_def subscribe_check_def subscribe_commit_def unsubscribe_begin_def unsubscribe_finish_def
      place_submit_def place_finish_def cancel_submit_def cancel_finish_def waitForFill_def push_request_def push_leaving_def
      unsent_without_def request_ok_def price_ok_def qty_ok_def in_s64_def Let_def case_prod_unfold
      dest: in_set_takeD in_set_dropD split: option.splits list.splits if_splits prod.splits sum.splits)

section \<open>Invariants of entries\<close>

definition holds :: "(Entry \<Rightarrow> bool) \<Rightarrow> SymbolRegistry \<Rightarrow> bool" where
  "holds P reg \<longleftrightarrow> requests_ok reg \<and> (\<forall>en \<in> live reg. P en)"

lemma holdsD: "holds P reg \<Longrightarrow> entries reg key = Some en \<Longrightarrow> P en"
  by (simp add: holds_def live_entry)

text \<open>
  The contract of an invariant: a new entry has it, and it survives the changes. A worker may
  rely on a guard, a relation between the entry before and after its step.
\<close>

locale entry_invariant =
  fixes guard :: "Entry \<Rightarrow> Entry \<Rightarrow> bool" and P :: "Entry \<Rightarrow> bool"
  assumes new_law: "length key < SYMBOL_BYTES \<Longrightarrow> P (new_entry t0 p key slot)"
    and count_law: "P en \<Longrightarrow> P (en\<lparr>refcount := n\<rparr>)"
    and stop_law: "P en \<Longrightarrow> P (en\<lparr>en_client := stop (en_client en)\<rparr>)"
    and push_law: "P en \<Longrightarrow> request_ok rq \<Longrightarrow> P (push_inbox rq en)"
    and connect_law: "P en \<Longrightarrow> start_session net a (en_client en) = (exc, c') \<Longrightarrow> P (en\<lparr>en_client := c'\<rparr>)"
    and work_law: "P en \<Longrightarrow> worker_parsed zlib net t cks key parsed (start_worker en reg) = Inr w \<Longrightarrow>
      parsed_in_range parsed \<Longrightarrow> guard en (wk_entry w) \<Longrightarrow> P (wk_entry w)"
begin

lemma change_law:
  assumes "entry_change Q reg en en'" and "P en" and "\<forall>rq \<in> Q. request_ok rq" and "guard en en'"
  shows "P en'"
  using assms(1)
proof cases
  case (stopped n)
  have "P (en\<lparr>refcount := n\<rparr>)" using assms(2) by (rule count_law)
  from stop_law [OF this] show ?thesis using stopped by simp
next
  case (worked zlib net t cks parsed w)
  then show ?thesis using assms(2,4) by (blast intro: work_law)
qed (use assms(2,3) in \<open>auto intro: count_law push_law connect_law\<close>)

lemma preserved:
  assumes "registry_step reg reg'" and "holds P reg"
    and "\<And>en en'. en \<in> live reg \<Longrightarrow> en' \<in> live reg' \<Longrightarrow> guard en en'"
  shows "holds P reg'"
proof -
  have "P en'" if "en' \<in> live reg'" for en'
    using live_step [OF assms(1) that] unfolding accounted_def
  proof (elim disjE bexE)
    assume "fresh_entry en'"
    then show ?thesis by (auto simp: fresh_entry_def new_law)
  next
    fix en assume "en \<in> live reg" "entry_change (pushed_by reg reg') reg en en'"
    moreover have "\<forall>rq \<in> pushed_by reg reg'. request_ok rq" using assms(2) by (simp add: pushed_by_def holds_def requests_ok_def)
    ultimately show ?thesis using assms(2,3) that by (auto simp: holds_def intro: change_law)
  qed
  then show ?thesis using assms(1,2) requests_ok_step by (auto simp: holds_def)
qed

lemma initially: "holds P (new_registry seg)"
  by (simp add: holds_def requests_ok_def live_def new_registry_def)

end

text \<open>Invariants that hold without a guard hold in every reachable registry.\<close>

locale unguarded_invariant = entry_invariant "\<lambda>_ _. True" P
  for P :: "Entry \<Rightarrow> bool"
begin

lemma reachable: "rtranclp registry_step (new_registry seg) reg \<Longrightarrow> holds P reg"
proof (induction rule: rtranclp_induct)
  case base
  show ?case by (rule initially)
next
  case (step reg reg')
  then show ?case by (intro preserved [of reg reg']) simp_all
qed

end

end
