(* ===== verification/Registry_Ids.thy ===== *)
theory Registry_Ids
  imports Registry_Requests Registry_Entries
begin

text \<open>
  Order ids: the counter of the symbol registry, the requests that carry an id to a symbol's
  inbox, and the resting orders of its matching engine. No id is ever in two of these places.
\<close>

section \<open>Lemmas\<close>

definition resting_ids :: "MatchingEngine \<Rightarrow> u64 list" where
  "resting_ids e = map fst (restingOrders e)"

definition place_ids :: "OrderRequest list \<Rightarrow> u64 list" where
  "place_ids rqs = map rq_orderId (filter (\<lambda>rq. rq_kind rq = Place) rqs)"

text \<open>The ids an entry knows: of its resting orders and of its waiting place requests.\<close>

definition entry_ids :: "Entry \<Rightarrow> u64 list" where
  "entry_ids en = resting_ids (en_engine en) @ place_ids (en_inbox en)"

definition ids_ok :: "u64 \<Rightarrow> Entry \<Rightarrow> bool" where
  "ids_ok bound en \<longleftrightarrow> distinct (entry_ids en) \<and> (\<forall>i \<in> set (entry_ids en). unat i < unat bound)"

lemma placeOrder_ids:
  assumes "placeOrder book now e oid side type price sz = (e', fs, res)"
  shows "resting_ids e' = resting_ids e \<or> oid \<notin> set (resting_ids e) \<and> resting_ids e' = resting_ids e @ [oid]"
  using assms by (auto simp: placeOrder_def resting_ids_def emplace_order_def map_of_eq_None_iff Let_def
      split: if_splits prod.splits)

lemma cancelOrder_ids:
  assumes "cancelOrder e oid = (e', res)"
  shows "resting_ids e' = resting_ids e \<or> resting_ids e' = filter (\<lambda>i. i \<noteq> oid) (resting_ids e)"
  using assms by (auto simp: cancelOrder_def resting_ids_def erase_order_def filter_map o_def case_prod_unfold Let_def
      split: option.splits)

lemma reduce_orders_ids: "map fst (fst (reduce_orders e now key r os fills)) = map fst os"
proof (induction os arbitrary: fills)
  case (Cons x os)
  obtain oid order where x: "x = (oid, order)" by (rule prod.exhaust)
  show ?case by (simp add: x Let_def case_prod_unfold Cons.IH)
qed simp

lemma foldl_erase_ids: "map fst (foldl (\<lambda>os oid. erase_order oid os) os ids) = filter (\<lambda>i. i \<notin> set ids) (map fst os)"
  by (simp add: foldl_erase filter_map o_def case_prod_unfold)

lemma onBookDelta_ids:
  assumes "onBookDelta now e side price q = (e', fs)"
  shows "\<exists>P. resting_ids e' = filter P (resting_ids e)"
proof (cases "lastObservedSize e (side, price)")
  case None
  then have "resting_ids e' = filter (\<lambda>_. True) (resting_ids e)" using assms by (simp add: onBookDelta_def)
  then show ?thesis by blast
next
  case (Some prev)
  let ?e1 = "e\<lparr>lastObservedSize := (lastObservedSize e)((side, price) \<mapsto> q)\<rparr>"
  obtain os fills full where r: "reduce_orders ?e1 now (side, price) (prev - q) (restingOrders ?e1) [] = (os, fills, full)"
    by (rule prod_cases3)
  have "resting_ids e' = (if qty_ticks prev \<le> qty_ticks q then resting_ids e else filter (\<lambda>i. i \<notin> set full) (resting_ids e))"
    using assms Some r reduce_orders_ids [of ?e1 now "(side, price)" "prev - q" "restingOrders ?e1" "[]"]
    by (auto simp: onBookDelta_def resting_ids_def foldl_erase_ids Let_def)
  then have "resting_ids e' = filter (\<lambda>i. qty_ticks prev \<le> qty_ticks q \<or> i \<notin> set full) (resting_ids e)"
    by (auto split: if_splits)
  then show ?thesis by blast
qed

lemma serve_ids:
  assumes "serve book now rq e = (e', fs, res)"
  shows "(\<exists>P. resting_ids e' = filter P (resting_ids e))
    \<or> rq_kind rq = Place \<and> rq_orderId rq \<notin> set (resting_ids e) \<and> resting_ids e' = resting_ids e @ [rq_orderId rq]"
proof -
  have id: "\<exists>P. resting_ids e = filter P (resting_ids e)" by (rule exI [of _ "\<lambda>_. True"]) simp
  show ?thesis
  proof (cases "rq_kind rq")
    case Place
    then have "placeOrder book now e (rq_orderId rq) (rq_side rq) (rq_type rq) (rq_price rq) (rq_size rq) = (e', fs, res)"
      using assms by (simp add: serve_def)
    from placeOrder_ids [OF this] show ?thesis using Place id by metis
  next
    case Cancel
    then have "cancelOrder e (rq_orderId rq) = (e', res)" using assms by (auto simp: serve_def split: prod.splits)
    from cancelOrder_ids [OF this] show ?thesis using id by metis
  qed
qed

lemma drain_ids_sub:
  "drain book nows rqs e = (e', fs, answers) \<Longrightarrow> set (resting_ids e') \<subseteq> set (resting_ids e) \<union> set (place_ids rqs)"
proof (induction book nows rqs e arbitrary: e' fs answers rule: drain.induct)
  case (2 book nows rq rqs e)
  obtain e1 fs1 res where s: "serve book (nows 0) rq e = (e1, fs1, res)" by (rule prod_cases3)
  obtain fs2 ans where d: "drain book (\<lambda>i. nows (Suc i)) rqs e1 = (e', fs2, ans)"
    using 2(2) s by (auto split: prod.splits)
  have "set (resting_ids e1) \<subseteq> set (resting_ids e) \<union> set (place_ids [rq])"
    using serve_ids [OF s] by (auto simp: place_ids_def)
  then show ?case using 2(1) [OF s [symmetric] refl refl d] by (auto simp: place_ids_def)
qed simp

lemma drain_ids:
  assumes "distinct (resting_ids e @ place_ids rqs)" and "drain book nows rqs e = (e', fs, answers)"
  shows "distinct (resting_ids e') \<and> set (resting_ids e') \<subseteq> set (resting_ids e @ place_ids rqs)"
  using assms
proof (induction book nows rqs e arbitrary: e' fs answers rule: drain.induct)
  case (1 book nows e)
  then show ?case by simp
next
  case (2 book nows rq rqs e)
  obtain e1 fs1 res where s: "serve book (nows 0) rq e = (e1, fs1, res)" by (rule prod_cases3)
  obtain fs2 ans where d: "drain book (\<lambda>i. nows (Suc i)) rqs e1 = (e', fs2, ans)"
    using 2(3) s by (auto split: prod.splits)
  have step: "distinct (resting_ids e1 @ place_ids rqs) \<and> set (resting_ids e1) \<subseteq> set (resting_ids e @ place_ids [rq])"
    using serve_ids [OF s] 2(2) by (elim disjE exE conjE) (auto simp: place_ids_def split: if_splits)
  have "distinct (resting_ids e') \<and> set (resting_ids e') \<subseteq> set (resting_ids e1 @ place_ids rqs)"
    using step by (intro 2(1) [OF s [symmetric] refl refl _ d]) simp
  then show ?case using step by (auto simp: place_ids_def)
qed

text \<open>What a worker does to the ids of its entry: none is new, and they stay distinct.\<close>

definition ids_from :: "Entry \<Rightarrow> Entry \<Rightarrow> bool" where
  "ids_from en en' \<longleftrightarrow> set (entry_ids en') \<subseteq> set (entry_ids en) \<and> (distinct (entry_ids en) \<longrightarrow> distinct (entry_ids en'))"

lemma ids_from_trans: "ids_from en en' \<Longrightarrow> ids_from en' en'' \<Longrightarrow> ids_from en en''"
  by (auto simp: ids_from_def)

lemma ids_from_ok: "ids_from en en' \<Longrightarrow> ids_ok bound en \<Longrightarrow> ids_ok bound en'"
  by (auto simp: ids_from_def ids_ok_def)

lemma dispatch_ids:
  assumes "dispatch ck key ev w = Inr w'"
  shows "ids_from (wk_entry w) (wk_entry w')"
proof (cases ev)
  case (OnDelta side p q seq)
  obtain e fs where o: "onBookDelta (ck_fill ck) (en_engine (wk_entry w)) side p q = (e, fs)" by (rule prod.exhaust)
  obtain P where "resting_ids e = filter P (resting_ids (en_engine (wk_entry w)))" using onBookDelta_ids [OF o] by blast
  then show ?thesis
    using assms OnDelta o by (auto simp: onDelta_def bind_result_Inr_iff Let_def ids_from_def entry_ids_def)
next
  case OnTick
  let ?en = "wk_entry w"
  obtain e' fs ans where d: "drain (cl_book (en_client ?en)) (ck_orders ck) (en_inbox ?en) (en_engine ?en) = (e', fs, ans)"
    by (rule prod_cases3)
  have "set (resting_ids e') \<subseteq> set (entry_ids ?en)" "distinct (entry_ids ?en) \<longrightarrow> distinct (resting_ids e')"
    using drain_ids_sub [OF d] drain_ids [OF _ d] by (simp_all add: entry_ids_def)
  then show ?thesis
    using assms OnTick d by (auto simp: drainInbox_def Let_def ids_from_def entry_ids_def place_ids_def)
qed (use assms in \<open>auto simp: onSnapshot_def bind_result_Inr_iff ids_from_def\<close>)

lemma dispatch_all_ids: "dispatch_all cks key evs w = Inr w' \<Longrightarrow> ids_from (wk_entry w) (wk_entry w')"
proof (induction evs arbitrary: cks w)
  case Nil
  then show ?case by (simp add: ids_from_def)
next
  case (Cons ev evs)
  obtain w1 where d: "dispatch (cks 0) key ev w = Inr w1" and r: "dispatch_all (\<lambda>i. cks (Suc i)) key evs w1 = Inr w'"
    using Cons.prems by (auto simp: bind_result_Inr_iff)
  show ?case using dispatch_ids [OF d] Cons.IH [OF r] by (rule ids_from_trans)
qed

lemma worker_ids:
  assumes "worker_parsed zlib net t cks key parsed (start_worker en reg) = Inr w"
  shows "ids_from en (wk_entry w)"
proof -
  obtain exc c' where h: "handle_parsed zlib net t parsed (en_client en) = (exc, c')" by (rule prod.exhaust)
  have "ids_from (wk_entry ((start_worker en reg)\<lparr>wk_entry := en\<lparr>en_client := c'\<rparr>\<rparr>)) (wk_entry w)"
    using assms h by (intro dispatch_all_ids) (auto simp: worker_parsed_def start_worker_def)
  then show ?thesis by (simp add: ids_from_def entry_ids_def)
qed

text \<open>The ids of the orders that are drawn and not yet pushed.\<close>

definition unsent_ids :: "SymbolRegistry \<Rightarrow> u64 list" where
  "unsent_ids reg = place_ids (map snd (reg_unsent reg))"

definition registry_ids :: "SymbolRegistry \<Rightarrow> bool" where
  "registry_ids reg \<longleftrightarrow>
     distinct (unsent_ids reg) \<and> (\<forall>i \<in> set (unsent_ids reg). unat i < unat (nextOrderId reg))
     \<and> (\<forall>en \<in> live reg. ids_ok (nextOrderId reg) en \<and> set (entry_ids en) \<inter> set (unsent_ids reg) = {})"

lemma ids_ok_new: "ids_ok bound (new_entry t p key slot)" "entry_ids (new_entry t p key slot) = []"
  by (simp_all add: ids_ok_def entry_ids_def resting_ids_def place_ids_def new_entry_def new_engine_def)

lemma entry_ids_push: "entry_ids (push_inbox rq en) = entry_ids en @ place_ids [rq]"
  by (simp add: entry_ids_def place_ids_def push_inbox_def)

lemma ids_ok_refcount [simp]: "ids_ok bound (en\<lparr>refcount := n\<rparr>) \<longleftrightarrow> ids_ok bound en"
  by (simp add: ids_ok_def entry_ids_def)

lemma entry_ids_refcount [simp]: "entry_ids (en\<lparr>refcount := n\<rparr>) = entry_ids en"
  by (simp add: entry_ids_def)

text \<open>The changes of an entry that bring no new ids, and a step that makes only such changes.\<close>

lemma ids_from_refl [simp]: "ids_from en en"
  by (simp add: ids_from_def)

lemma change_ids: "entry_change {} reg en en' \<Longrightarrow> ids_from en en'"
  by (induction rule: entry_change.induct) (auto simp: ids_from_def entry_ids_def dest!: worker_ids)

lemma fresh_ids: "fresh_entry en \<Longrightarrow> entry_ids en = []"
  by (auto simp: fresh_entry_def ids_ok_new)

lemma registry_ids_keep:
  assumes "registry_ids reg" and "unsent_ids reg' = unsent_ids reg" and "nextOrderId reg' = nextOrderId reg"
    and "\<And>en'. en' \<in> live reg' \<Longrightarrow> entry_ids en' = [] \<or> (\<exists>en \<in> live reg. ids_from en en')"
  shows "registry_ids reg'"
proof -
  have "ids_ok (nextOrderId reg) en' \<and> set (entry_ids en') \<inter> set (unsent_ids reg) = {}" if "en' \<in> live reg'" for en'
    using assms(4) [OF that]
  proof (elim disjE bexE)
    fix en
    assume "en \<in> live reg" "ids_from en en'"
    then show ?thesis using assms(1) ids_from_ok by (fastforce simp: registry_ids_def ids_from_def)
  qed (simp add: ids_ok_def)
  then show ?thesis using assms(1) unfolding registry_ids_def assms(2,3) by blast
qed

lemma registry_ids_place:
  assumes "registry_ids reg" and "place_submit key side type price sz reg = (reg', r)" and "nextOrderId reg' \<noteq> 0"
  shows "registry_ids reg'"
proof (cases "entries reg key")
  case None
  then show ?thesis using assms by (simp add: place_submit_def)
next
  case (Some en)
  then have reg': "nextOrderId reg' = nextOrderId reg + 1" "live reg' = live reg"
    "unsent_ids reg' = unsent_ids reg @ [nextOrderId reg]"
    using assms(2) by (auto simp: place_submit_def unsent_ids_def place_ids_def live_def Let_def)
  have "unat (nextOrderId reg + 1) = Suc (unat (nextOrderId reg))"
    using assms(3) reg'(1) by (simp add: unatSuc add.commute)
  then show ?thesis
    using assms(1) by (fastforce simp: registry_ids_def reg' ids_ok_def less_Suc_eq)
qed

lemma unsent_ids_split:
  assumes "k < length (reg_unsent reg)" and "reg_unsent reg ! k = (key, rq)"
  shows "distinct (unsent_ids reg) \<longleftrightarrow> distinct (place_ids [rq] @ place_ids (map snd (unsent_without k reg)))"
    and "set (unsent_ids reg) = set (place_ids [rq]) \<union> set (place_ids (map snd (unsent_without k reg)))"
proof -
  have "reg_unsent reg = take k (reg_unsent reg) @ (key, rq) # drop (Suc k) (reg_unsent reg)"
    using assms id_take_nth_drop by metis
  then have u: "unsent_ids reg = place_ids (map snd (take k (reg_unsent reg))) @ place_ids [rq]
      @ place_ids (map snd (drop (Suc k) (reg_unsent reg)))"
    unfolding unsent_ids_def place_ids_def by (metis (no_types, lifting) append_Cons append_Nil filter_append list.simps(8,9) map_append snd_conv)
  then show "distinct (unsent_ids reg) \<longleftrightarrow> distinct (place_ids [rq] @ place_ids (map snd (unsent_without k reg)))"
    "set (unsent_ids reg) = set (place_ids [rq]) \<union> set (place_ids (map snd (unsent_without k reg)))"
    unfolding u by (auto simp: unsent_without_def place_ids_def)
qed

lemma registry_idsD:
  assumes "registry_ids reg" and "en \<in> live reg"
  shows "distinct (entry_ids en)" "\<forall>i \<in> set (entry_ids en). unat i < unat (nextOrderId reg)"
    "set (entry_ids en) \<inter> set (unsent_ids reg) = {}"
  using assms by (auto simp: registry_ids_def ids_ok_def)

text \<open>A push moves the id of a request from the unsent ones to an entry.\<close>

lemma registry_ids_move:
  assumes "registry_ids reg" and "k < length (reg_unsent reg)" and "reg_unsent reg ! k = (key, rq)"
    and "reg_unsent reg' = unsent_without k reg" and "nextOrderId reg' = nextOrderId reg"
    and "\<And>en'. en' \<in> live reg' \<Longrightarrow> en' \<in> live reg \<or> (\<exists>en \<in> live reg. en' = push_inbox rq en)"
  shows "registry_ids reg'"
proof -
  note u = unsent_ids_split [OF assms(2,3)]
  have ids: "unsent_ids reg' = place_ids (map snd (unsent_without k reg))" by (simp add: unsent_ids_def assms(4))
  have "ids_ok (nextOrderId reg) en \<and> set (entry_ids en) \<inter> set (place_ids (map snd (unsent_without k reg))) = {}
      \<and> ids_ok (nextOrderId reg) (push_inbox rq en)
      \<and> set (entry_ids (push_inbox rq en)) \<inter> set (place_ids (map snd (unsent_without k reg))) = {}"
    if "en \<in> live reg" for en
    using registry_idsD [OF assms(1) that, unfolded u] assms(1) unfolding registry_ids_def u ids_ok_def entry_ids_push
    by (auto simp: disjoint_iff)
  then have "ids_ok (nextOrderId reg) en' \<and> set (entry_ids en') \<inter> set (place_ids (map snd (unsent_without k reg))) = {}"
    if "en' \<in> live reg'" for en' using assms(6) [OF that] by blast
  then show ?thesis using assms(1) unfolding registry_ids_def ids assms(5) u by auto
qed

lemma registry_ids_push:
  assumes "registry_ids reg" and "k < length (reg_unsent reg)"
  shows "registry_ids (push_request k reg)"
proof -
  obtain key rq where kr: "reg_unsent reg ! k = (key, rq)" by (rule prod.exhaust)
  have "en' \<in> live reg \<or> (\<exists>en \<in> live reg. en' = push_inbox rq en)" if "en' \<in> live (push_request k reg)" for en'
    using that by (auto simp: push_request_def kr live_def ran_def split: if_splits)
  then show ?thesis by (intro registry_ids_move [OF assms kr]) (simp_all add: push_request_def kr)
qed

lemma registry_ids_push_leaving:
  assumes "registry_ids reg" and "k < length (reg_unsent reg)" and "j < length (reg_leaving reg)"
  shows "registry_ids (push_leaving k j reg)"
proof -
  obtain key rq where kr: "reg_unsent reg ! k = (key, rq)" by (rule prod.exhaust)
  have "set ((reg_leaving reg)[j := push_inbox rq (reg_leaving reg ! j)])
      \<subseteq> insert (push_inbox rq (reg_leaving reg ! j)) (set (reg_leaving reg))" by (rule set_update_subset_insert)
  then have "en' \<in> live reg \<or> (\<exists>en \<in> live reg. en' = push_inbox rq en)" if "en' \<in> live (push_leaving k j reg)" for en'
    using that live_leaving [OF assms(3)] by (auto simp: push_leaving_def kr live_def)
  then show ?thesis by (intro registry_ids_move [OF assms(1,2) kr]) (simp_all add: push_leaving_def kr)
qed

text \<open>All other steps keep the counter and the unsent ids.\<close>

lemma step_kinds:
  assumes "registry_step reg reg'"
  obtains (place) key side type price sz r where "place_submit key side type price sz reg = (reg', r)"
  | (push) k where "k < length (reg_unsent reg)" "reg' = push_request k reg"
  | (push_late) k j where "k < length (reg_unsent reg)" "j < length (reg_leaving reg)" "reg' = push_leaving k j reg"
  | (keep) "unsent_ids reg' = unsent_ids reg" "nextOrderId reg' = nextOrderId reg" "pushed_by reg reg' = {}"
proof -
  have quiet: thesis if "reg_unsent reg' = reg_unsent reg \<and> nextOrderId reg' = nextOrderId reg"
    using that by (intro keep) (simp_all add: unsent_ids_def pushed_by_def)
  show ?thesis
    using assms
  proof cases
    case (place key side type price sz r)
    show ?thesis by (rule that(1) [OF place(1)])
  next
    case (push k)
    show ?thesis by (rule that(2) [OF push(2,1)])
  next
    case (push_late k j)
    show ?thesis by (rule that(3) [OF push_late(2,3,1)])
  next
    case (cancel oid c)
    then show ?thesis
      by (intro keep) (auto simp: cancel_submit_def unsent_ids_def place_ids_def pushed_by_def Let_def split: option.splits)
  next
    case (commit p t key res)
    show ?thesis using commit(2) by (intro quiet) (auto simp: subscribe_commit_def split: option.splits prod.splits sum.splits)
  next
    case (unsubscribe key res)
    then show ?thesis by (intro quiet) (auto simp: unsubscribe_begin_def Let_def split: option.splits if_splits)
  next
    case (placed key oid answer res)
    then show ?thesis by (intro quiet) (auto simp: place_finish_def split: option.splits)
  next
    case (cancelled oid answer res)
    then show ?thesis by (intro quiet) (auto simp: cancel_finish_def split: option.splits)
  next
    case (fill out)
    then show ?thesis by (intro quiet) (auto simp: waitForFill_def split: list.splits)
  next
    case (check key result)
    then show ?thesis by (intro quiet) (auto simp: subscribe_check_def split: option.splits)
  qed (intro quiet, simp add: unsubscribe_finish_def)+
qed

lemma registry_ids_step:
  assumes "registry_step reg reg'" and "registry_ids reg" and "nextOrderId reg' \<noteq> 0"
  shows "registry_ids reg'"
  using assms(1)
proof (cases rule: step_kinds)
  case keep
  have "entry_ids en' = [] \<or> (\<exists>en \<in> live reg. ids_from en en')" if "en' \<in> live reg'" for en'
    using live_step [OF assms(1) that] fresh_ids change_ids unfolding accounted_def keep(3) by blast
  then show ?thesis using registry_ids_keep [OF assms(2) keep(1,2)] by blast
qed (use assms(2,3) in \<open>auto intro: registry_ids_place registry_ids_push registry_ids_push_leaving\<close>)

lemma ids_reachable:
  "rtranclp (\<lambda>r r'. registry_step r r' \<and> nextOrderId r' \<noteq> 0) (new_registry seg) reg \<Longrightarrow> registry_ids reg"
proof (induction rule: rtranclp_induct)
  case base
  then show ?case by (simp add: registry_ids_def live_def new_registry_def unsent_ids_def place_ids_def)
next
  case (step reg reg')
  then show ?case by (blast intro: registry_ids_step)
qed

section \<open>Properties\<close>

text \<open>
  C31 (invariant): order ids are not reused. As long as the 64-bit counter has not wrapped
  around, however calls and workers interleave, in every subscribed symbol the ids of the
  resting orders, of the place requests waiting in its inbox and of the place requests that
  callers have drawn an id for but not yet sent are pairwise distinct and all below the
  counter, so a new order never takes the place of another.
\<close>

theorem order_ids_unique:
  assumes "rtranclp (\<lambda>r r'. registry_step r r' \<and> nextOrderId r' \<noteq> 0) (new_registry seg) reg"
    and "entries reg key = Some en"
  shows "let ids = map fst (restingOrders (en_engine en))
             @ map rq_orderId (filter (\<lambda>rq. rq_kind rq = Place) (en_inbox en))
             @ map rq_orderId (filter (\<lambda>rq. rq_kind rq = Place) (map snd (reg_unsent reg)))
    in distinct ids \<and> (\<forall>i \<in> set ids. unat i < unat (nextOrderId reg))"
proof -
  have reg: "registry_ids reg" using ids_reachable [OF assms(1)] .
  note en = registry_idsD [OF reg live_entry [OF assms(2)]]
  have "distinct (entry_ids en @ unsent_ids reg) \<and> (\<forall>i \<in> set (entry_ids en @ unsent_ids reg). unat i < unat (nextOrderId reg))"
    using en reg by (auto simp: registry_ids_def)
  then show ?thesis by (simp add: entry_ids_def resting_ids_def place_ids_def unsent_ids_def Let_def)
qed

theorem order_ids_unique_witness:
  "\<exists>reg en. rtranclp (\<lambda>r r'. registry_step r r' \<and> nextOrderId r' \<noteq> 0) (new_registry (open_segment None)) reg
     \<and> entries reg ''BTC/USD'' = Some en \<and> distinct (map rq_orderId (filter (\<lambda>rq. rq_kind rq = Place) (en_inbox en)))
     \<and> length (en_inbox en) = 1"
proof -
  let ?R = "\<lambda>r r'. registry_step r r' \<and> nextOrderId r' \<noteq> 0" and ?r0 = "new_registry (open_segment None)"
  obtain r1 i where s: "registry_step ?r0 r1" and r1: "entries r1 = [''BTC/USD'' \<mapsto> new_entry 0 demo_precision ''BTC/USD'' i]"
    "nextOrderId r1 = 1" "reg_unsent r1 = []" by (rule demo_subscribed)
  obtain r2 oid where p: "place_submit ''BTC/USD'' Bid Limit (Price 1) (Quantity 1) r1 = (r2, oid)" by (rule prod.exhaust)
  have r2: "nextOrderId r2 = 2" "length (reg_unsent r2) = 1" "fst (reg_unsent r2 ! 0) = ''BTC/USD''" "entries r2 = entries r1"
    using p r1 by (auto simp: place_submit_def Let_def)
  let ?r3 = "push_request 0 r2"
  obtain en where en: "entries ?r3 ''BTC/USD'' = Some en" "length (en_inbox en) = 1" and n: "nextOrderId ?r3 = 2"
    using r1 r2 by (auto simp: push_request_def push_inbox_def new_entry_def case_prod_unfold)
  have 1: "?R ?r0 r1" using s r1 by simp
  have 2: "?R r1 r2" using registry_step.place [OF p] r2 by (simp add: price_ok_def qty_ok_def in_s64_def)
  have 3: "?R r2 ?r3" using registry_step.push [of 0 r2] r2 n by simp
  have "rtranclp ?R ?r0 r2" by (rule rtranclp.rtrancl_into_rtrancl [where r = ?R, OF r_into_rtranclp [where r = ?R, OF 1] 2])
  then have run: "rtranclp ?R ?r0 ?r3" using 3 by (rule rtranclp.rtrancl_into_rtrancl [where r = ?R])
  show ?thesis using order_ids_unique [OF run en(1)] run en by (auto simp: Let_def)
qed

end
