(* ===== verification/Market_Feed.thy ===== *)
theory Market_Feed
  imports Registry_Ids
begin

text \<open>
  What the components guarantee together along the path of the market data: a Kraken message
  enters the client of a subscribed symbol, and its deltas arrive in the symbol's ring buffer
  in shared memory. The invariant here says that every subscribed symbol has a client with a
  well-formed book and installed callbacks, and a name that fits the fixed-width fields.
\<close>

section \<open>Lemmas\<close>

definition callbacks :: "Client \<Rightarrow> bool \<times> bool \<times> bool" where
  "callbacks c = (cl_onDelta c, cl_onSnapshot c, cl_onTick c)"

definition feeding :: "Entry \<Rightarrow> bool" where
  "feeding en \<longleftrightarrow> length (cl_symbol (en_client en)) < SYMBOL_BYTES \<and> book_inv (cl_book (en_client en))
     \<and> callbacks (en_client en) = (True, True, True) \<and> me_onFill (en_engine en)"

lemma publishSnapshot_callbacks [simp]: "callbacks (publishSnapshot now c) = callbacks c"
  by (simp add: publishSnapshot_def callbacks_def emit_def Let_def)

lemma resubscribe_callbacks: "resubscribeAndRebuild net c = (exc, c') \<Longrightarrow> callbacks c' = callbacks c"
  by (auto simp: resubscribe_eq callbacks_def emit_def Let_def split: if_splits)

lemma applied_callbacks [simp]: "callbacks (applied zlib msg c) = callbacks c"
  by (simp add: applied_def callbacks_def)

lemma applyMessage_callbacks:
  assumes "applyMessage zlib net t msg c = (exc, c')"
  shows "callbacks c' = callbacks c"
proof (cases "msg_symbol msg = cl_symbol c \<and> book_checksum zlib c (applied_book msg (cl_book c)) = msg_checksum msg")
  case True
  then show ?thesis by (cases rule: applyMessage_accepted [OF conjunct1 conjunct2 assms]) simp_all
next
  case False
  show ?thesis
  proof (cases "msg_symbol msg = cl_symbol c")
    case True
    with False assms have "resubscribeAndRebuild net (applied zlib msg c) = (exc, c')" by (simp add: applyMessage_eq)
    from resubscribe_callbacks [OF this] show ?thesis by simp
  qed (use assms in \<open>simp add: applyMessage_def\<close>)
qed

lemma tick_callbacks [simp]: "callbacks (tick c) = callbacks c"
  by (simp add: tick_def emit_def callbacks_def)

lemma handle_parsed_callbacks:
  assumes "handle_parsed zlib net t parsed c = (exc, c')"
  shows "callbacks c' = callbacks c"
  using assms by (cases rule: handle_parsed_cases) (auto dest: applyMessage_callbacks)

lemma start_session_callbacks: "start_session net a c = (exc, c') \<Longrightarrow> callbacks c' = callbacks c"
  by (auto simp: start_session_def callbacks_def and_then_def connect_def Kraken_Book_Client.subscribe_def ws_write_def emit_def
      split: connect_result.splits if_splits)

lemma worker_client:
  assumes "handle_parsed zlib net t parsed (en_client en) = (exc, c')"
    and "worker_parsed zlib net t cks key parsed (start_worker en reg) = Inr w"
  shows "en_client (wk_entry w) = c'"
proof -
  have "worker_frame ((start_worker en reg)\<lparr>wk_entry := en\<lparr>en_client := c'\<rparr>\<rparr>) w"
    using assms by (intro dispatch_all_frame) (simp add: worker_parsed_def start_worker_def)
  then show ?thesis by (simp add: worker_frame_def)
qed

lemma serve_onFill: "serve book now rq e = (e', fs, res) \<Longrightarrow> me_onFill e' = me_onFill e"
  by (auto simp: serve_def placeOrder_def cancelOrder_def Let_def split: if_splits prod.splits option.splits)

lemma drain_onFill: "drain book nows rqs e = (e', fs, answers) \<Longrightarrow> me_onFill e' = me_onFill e"
proof (induction book nows rqs e arbitrary: e' fs answers rule: drain.induct)
  case (2 book nows rq rqs e)
  obtain e1 fs1 res where s: "serve book (nows 0) rq e = (e1, fs1, res)" by (rule prod_cases3)
  obtain fs2 ans where d: "drain book (\<lambda>i. nows (Suc i)) rqs e1 = (e', fs2, ans)" using 2(2) s by (auto split: prod.splits)
  show ?case using 2(1) [OF s [symmetric] refl refl d] serve_onFill [OF s] by simp
qed simp

lemma dispatch_onFill:
  assumes "dispatch ck key ev w = Inr w'"
  shows "me_onFill (en_engine (wk_entry w')) = me_onFill (en_engine (wk_entry w))"
proof (cases ev)
  case (OnDelta side p q seq)
  then show ?thesis
    using assms onBookDelta_onFill [of "ck_fill ck" "en_engine (wk_entry w)" side p q]
    by (cases "onBookDelta (ck_fill ck) (en_engine (wk_entry w)) side p q") (auto simp: onDelta_def bind_result_Inr_iff Let_def)
next
  case OnTick
  then show ?thesis using assms drain_onFill by (auto simp: drainInbox_def Let_def split: prod.splits)
qed (use assms in \<open>auto simp: onSnapshot_def bind_result_Inr_iff\<close>)

lemma dispatch_all_onFill:
  "dispatch_all cks key evs w = Inr w' \<Longrightarrow> me_onFill (en_engine (wk_entry w')) = me_onFill (en_engine (wk_entry w))"
proof (induction evs arbitrary: cks w)
  case (Cons ev evs)
  obtain w1 where d: "dispatch (cks 0) key ev w = Inr w1" and r: "dispatch_all (\<lambda>i. cks (Suc i)) key evs w1 = Inr w'"
    using Cons.prems by (auto simp: bind_result_Inr_iff)
  show ?case using Cons.IH [OF r] dispatch_onFill [OF d] by simp
qed simp

lemma worker_onFill:
  assumes "worker_parsed zlib net t cks key parsed (start_worker en reg) = Inr w"
  shows "me_onFill (en_engine (wk_entry w)) = me_onFill (en_engine en)"
proof -
  obtain exc c' where h: "handle_parsed zlib net t parsed (en_client en) = (exc, c')" by (rule prod.exhaust)
  have "me_onFill (en_engine (wk_entry w)) = me_onFill (en_engine (wk_entry ((start_worker en reg)\<lparr>wk_entry := en\<lparr>en_client := c'\<rparr>\<rparr>)))"
    using assms h by (intro dispatch_all_onFill) (auto simp: worker_parsed_def start_worker_def)
  then show ?thesis by simp
qed

lemma worker_symbol:
  assumes "worker_parsed zlib net t cks key parsed (start_worker en reg) = Inr w"
  shows "cl_symbol (en_client (wk_entry w)) = cl_symbol (en_client en)"
proof -
  obtain exc c' where h: "handle_parsed zlib net t parsed (en_client en) = (exc, c')" by (rule prod.exhaust)
  show ?thesis using worker_client [OF h assms] handle_parsed_symbol [OF h] by simp
qed

lemma worker_feeding:
  assumes "feeding en" and "worker_parsed zlib net t cks key parsed (start_worker en reg) = Inr w"
  shows "feeding (wk_entry w)"
proof -
  obtain exc c' where h: "handle_parsed zlib net t parsed (en_client en) = (exc, c')" by (rule prod.exhaust)
  have "en_client (wk_entry w) = c'" using h assms(2) by (rule worker_client)
  then show ?thesis
    using assms(1) handle_parsed_inv [OF _ h] handle_parsed_callbacks [OF h] worker_onFill [OF assms(2)] worker_symbol [OF assms(2)]
    by (simp add: feeding_def)
qed

lemma stop_callbacks [simp]: "callbacks (stop c) = callbacks c" "cl_book (stop c) = cl_book c" "cl_symbol (stop c) = cl_symbol c"
  by (simp_all add: stop_def callbacks_def emit_def Let_def)

interpretation feed: unguarded_invariant feeding
proof unfold_locales
  fix key :: string and t0 p slot
  assume "length key < SYMBOL_BYTES"
  then show "feeding (new_entry t0 p key slot)"
    by (simp add: feeding_def callbacks_def new_entry_def new_engine_def new_client_def book_inv_def new_book_def)
next
  fix en net a exc c'
  assume "feeding en" and s: "start_session net a (en_client en) = (exc, c')"
  then show "feeding (en\<lparr>en_client := c'\<rparr>)"
    using start_session_book [OF s] start_session_callbacks [OF s] by (simp add: feeding_def)
next
  fix en zlib net t cks key parsed reg w
  assume "feeding en" "worker_parsed zlib net t cks key parsed (start_worker en reg) = Inr w"
  then show "feeding (wk_entry w)" by (rule worker_feeding)
qed (auto simp: feeding_def push_inbox_def)

lemma feed_reachable:
  assumes "rtranclp registry_step (new_registry (open_segment existing)) reg" and "usable existing"
  shows "registry_inv reg \<and> holds feeding reg"
  using registry_reachable_inv [OF assms] feed.reachable [OF assms(1)] by blast

text \<open>What the worker of a subscribed symbol can rely on.\<close>

lemma reachable_entry:
  assumes "rtranclp registry_step (new_registry (open_segment existing)) reg" and "usable existing" and "entries reg key = Some en"
  shows "feeding en" and "cl_symbol (en_client en) = key" and "segment_inv (reg_segment reg)" and "en_slot en < SYMBOL_SLOT_POOL_SIZE"
proof -
  have inv: "registry_inv reg" and "feeding en" using feed_reachable [OF assms(1,2)] holdsD [OF _ assms(3)] by auto
  then show "feeding en" "cl_symbol (en_client en) = key" and seg: "segment_inv (reg_segment reg)"
    using assms(3) by (auto simp: registry_inv_def)
  show "en_slot en < SYMBOL_SLOT_POOL_SIZE"
    using inv slots.taken_bound [OF seg] entry_slotsI [of "entries reg", OF assms(3)] by (auto simp: registry_inv_def)
qed

text \<open>The delta events of an accepted update are exactly the deltas applied to the book.\<close>

lemma applied_events_deltas: "filter is_delta_event (applied_events msg book) = applied_events msg book"
proof -
  have "\<forall>ev \<in> set (delta_events side seq ds). is_delta_event ev" for side seq ds
    by (induction side seq ds rule: delta_events.induct) (simp_all add: is_delta_event_def)
  then show ?thesis by (auto simp: applied_events_def)
qed

lemma accepted_delta_events:
  assumes "msg_symbol msg = cl_symbol c" and "book_checksum zlib c (applied_book msg (cl_book c)) = msg_checksum msg"
    and "handle_parsed zlib net t (Inr (Some msg)) c = (exc, c')" and "cl_onDelta c"
  shows "filter is_delta_event (new_events c c') = applied_events msg (cl_book c)"
    and "side_map (bids (cl_book c')) = side_map (bids (cl_book (applied zlib msg c)))"
    and "side_map (asks (cl_book c')) = side_map (asks (cl_book (applied zlib msg c)))"
    and "lastSeq (cl_book c') = lastSeq (cl_book (applied zlib msg c))"
proof -
  obtain x c1 where a: "applyMessage zlib net t msg c = (x, c1)" by (rule prod.exhaust)
  have x: "x = None" and c1: "c1 = applied zlib msg c \<or> c1 = publishSnapshot (snd t) (applied zlib msg c)"
    by (rule applyMessage_accepted [OF assms(1,2) a]; simp)+
  have c': "c' = tick c1" using assms(3) a x by (cases rule: handle_parsed_cases [OF assms(3)]) auto
  have log: "cl_log (applied zlib msg c) = cl_log c @ applied_events msg (cl_book c)" using assms(4) by (simp add: applied_def)
  show "filter is_delta_event (new_events c c') = applied_events msg (cl_book c)"
    using c1 log applied_events_deltas [of msg "cl_book c"]
    by (auto simp: c' new_events_def tick_def emit_def publishSnapshot_def Let_def is_delta_event_def)
  show "side_map (bids (cl_book c')) = side_map (bids (cl_book (applied zlib msg c)))"
    "side_map (asks (cl_book c')) = side_map (asks (cl_book (applied zlib msg c)))"
    "lastSeq (cl_book c') = lastSeq (cl_book (applied zlib msg c))"
    using c1 by (auto simp: c' publishSnapshot_def emit_def Let_def)
qed


lemma length_applied_events: "length (applied_events msg book) = delta_count msg book"
proof -
  have "length (delta_events side seq ds) = length ds" for side seq ds
    by (induction side seq ds rule: delta_events.induct) simp_all
  then show ?thesis by (simp add: applied_events_def delta_count_def)
qed

end
