(* ===== verification/Trading_System.thy ===== *)
theory Trading_System
  imports Market_Feed
begin

text \<open>
  The invariant of the whole trading path: in every subscribed symbol the client's book has
  only positive quantities and the matching engine is well formed, whatever the market sends
  and whatever the callers do. It needs what the components' own theorems assume of their
  inputs: that no delta with a negative quantity is announced and that the counter of order
  ids does not wrap around. A run that keeps these is called
  sane here.
\<close>

section \<open>Specification vocabulary\<close>

definition honest_event :: "client_event \<Rightarrow> bool" where
  "honest_event ev = (case ev of OnDelta side p q seq \<Rightarrow> nonneg_qty q | _ \<Rightarrow> True)"

definition sane :: "SymbolRegistry \<Rightarrow> bool" where
  "sane reg \<longleftrightarrow> nextOrderId reg \<noteq> 0 \<and> (\<forall>en \<in> live reg. \<forall>ev \<in> set (cl_log (en_client en)). honest_event ev)"

definition trading_ok :: "Entry \<Rightarrow> bool" where
  "trading_ok en \<longleftrightarrow> book_pos (cl_book (en_client en)) \<and> engine_inv (en_engine en) \<and> list_all request_ok (en_inbox en)"

text \<open>What a worker's step relies on.\<close>

definition trading_guard :: "Entry \<Rightarrow> Entry \<Rightarrow> bool" where
  "trading_guard en en' \<longleftrightarrow> feeding en \<and> distinct (entry_ids en) \<and> (\<forall>ev \<in> set (cl_log (en_client en')). honest_event ev)"

section \<open>Books with positive quantities\<close>

lemma honest_delta_events: "(\<forall>ev \<in> set (delta_events side seq ds). honest_event ev) \<longleftrightarrow> (\<forall>d \<in> set ds. nonneg_qty (snd d))"
  by (induction side seq ds rule: delta_events.induct) (simp_all add: honest_event_def)

lemma book_pos_clear: "book_inv b \<Longrightarrow> book_pos (clear_book b)"
  using book_inv_clear [of b] by (auto simp: book_pos_def side_pos_def clear_book_def clear_def book_inv_def)

lemma base_book_pos: "book_pos b \<Longrightarrow> book_pos (base_book msg b)"
  using book_pos_clear by (auto simp: base_book_def book_pos_def)

lemma applied_book_pos:
  assumes "book_pos book" and "\<forall>ev \<in> set (applied_events msg book). honest_event ev"
  shows "book_pos (applied_book msg book)"
proof -
  have inv: "book_inv book" and base: "book_pos (base_book msg book)" using assms(1) base_book_pos by (auto simp: book_pos_def)
  have new: "book_inv (applied_book msg book)" using inv by (rule applied_book_inv)
  have ds: "\<forall>d \<in> set (snd (bid_feed msg book)). nonneg_qty (snd d)" "\<forall>d \<in> set (snd (ask_feed msg book)). nonneg_qty (snd d)"
    using assms(2) honest_delta_events unfolding applied_events_def set_append by blast+
  have "positive_map (side_map (bids (base_book msg book)))" "positive_map (side_map (asks (base_book msg book)))"
    using base side_pos_map by (auto simp: book_pos_def side_pos_def)
  then have "positive_map (side_map (bids (applied_book msg book)))" "positive_map (side_map (asks (applied_book msg book)))"
    using applied_book_inv(2,3) [OF inv, of msg] positive_map_deltas ds by metis+
  then show ?thesis using new side_pos_map by (auto simp: book_pos_def book_inv_def)
qed

lemma book_pos_checksum [simp]: "book_pos (b\<lparr>lastCheckSum := n\<rparr>) = book_pos b"
  by (simp add: book_pos_def book_inv_def)

lemma applied_pos:
  assumes "book_pos (cl_book c)" and "cl_onDelta c" and "\<forall>ev \<in> set (cl_log (applied zlib msg c)). honest_event ev"
  shows "book_pos (cl_book (applied zlib msg c))"
  using assms applied_book_pos [of "cl_book c" msg] by (simp add: applied_def)

lemma applyMessage_pos:
  assumes "book_pos (cl_book c)" and "cl_onDelta c" and "applyMessage zlib net t msg c = (exc, c')"
    and "\<forall>ev \<in> set (cl_log c'). honest_event ev"
  shows "book_pos (cl_book c')"
proof (cases "msg_symbol msg = cl_symbol c")
  case False
  then show ?thesis using assms by (simp add: applyMessage_def)
next
  case True
  let ?a = "applied zlib msg c"
  consider "c' = ?a" | "c' = publishSnapshot (snd t) ?a" | "resubscribeAndRebuild net ?a = (exc, c')"
    using assms(3) unfolding applyMessage_eq [OF True] by (auto simp: maybePublishSnapshot_def Let_def split: if_splits)
  then show ?thesis
  proof cases
    case 1
    then show ?thesis using assms applied_pos by blast
  next
    case 2
    have "book_pos (cl_book ?a)" using assms(1,2,4) 2 by (intro applied_pos) (auto simp: publishSnapshot_def emit_def Let_def)
    then show ?thesis using 2 by (simp add: publishSnapshot_def emit_def Let_def)
  next
    case 3
    have log: "set (cl_log ?a) \<subseteq> set (cl_log c')" using 3 by (auto simp: resubscribe_eq emit_def Let_def split: if_splits)
    then have a: "book_pos (cl_book ?a)" using assms(1,2,4) by (intro applied_pos) auto
    then have "book_pos (clear_book (cl_book ?a))" by (intro book_pos_clear) (simp add: book_pos_def)
    then show ?thesis using a 3 by (auto simp: resubscribe_eq emit_def Let_def split: if_splits)
  qed
qed

lemma handle_parsed_pos:
  assumes "book_pos (cl_book c)" and "cl_onDelta c" and "handle_parsed zlib net t parsed c = (exc, c')"
    and "\<forall>ev \<in> set (cl_log c'). honest_event ev"
  shows "book_pos (cl_book c')"
  using assms(3)
proof (cases rule: handle_parsed_cases)
  case (handled msg c1)
  have "set (cl_log c1) \<subseteq> set (cl_log c')" using handled(4) by (auto simp: tick_def emit_def)
  then show ?thesis using applyMessage_pos [OF assms(1,2) handled(2)] assms(4) handled(4) by auto
next
  case (thrown msg e)
  then show ?thesis using applyMessage_pos [OF assms(1,2) thrown(2) assms(4)] by simp
qed (use assms(1) in simp_all)

section \<open>Workers\<close>

lemma drain_inv:
  assumes "engine_inv e" and "book_pos book" and "distinct (resting_ids e @ place_ids rqs)" and "list_all request_ok rqs"
    and "drain book nows rqs e = (e', fs, answers)"
  shows "engine_inv e'"
  using assms
proof (induction book nows rqs e arbitrary: e' fs answers rule: drain.induct)
  case (2 book nows rq rqs e)
  obtain e1 fs1 res where s: "serve book (nows 0) rq e = (e1, fs1, res)" by (rule prod_cases3)
  obtain fs2 ans where d: "drain book (\<lambda>i. nows (Suc i)) rqs e1 = (e', fs2, ans)" using 2(6) s by (auto split: prod.splits)
  have fresh: "rq_kind rq = Place \<longrightarrow> rq_orderId rq \<notin> fst ` set (restingOrders e)"
    using 2(4) by (auto simp: resting_ids_def place_ids_def)
  have inv: "engine_inv e1" using serve_inv [OF 2(2,3) fresh _ s] 2(5) by (simp add: request_ok_def qty_ok_def)
  have ids: "distinct (resting_ids e1 @ place_ids rqs)"
    using serve_ids [OF s] 2(4) by (elim disjE exE conjE) (auto simp: place_ids_def split: if_splits)
  show ?case using 2(5) by (intro 2(1) [OF s [symmetric] refl refl inv 2(3) ids _ d]) simp
qed simp

lemma dispatch_ok:
  assumes "trading_ok (wk_entry w)" and "distinct (entry_ids (wk_entry w))" and "honest_event ev" and "dispatch ck key ev w = Inr w'"
  shows "trading_ok (wk_entry w')"
proof (cases ev)
  case (OnDelta side p q seq)
  obtain e fs where o: "onBookDelta (ck_fill ck) (en_engine (wk_entry w)) side p q = (e, fs)" by (rule prod.exhaust)
  have "engine_inv e" using assms(1,3) OnDelta by (intro onBookDelta_inv [OF _ _ o]) (simp_all add: trading_ok_def honest_event_def)
  then show ?thesis using assms(1,4) OnDelta o by (auto simp: onDelta_def bind_result_Inr_iff Let_def trading_ok_def)
next
  case OnTick
  let ?en = "wk_entry w"
  obtain e' fs ans where d: "drain (cl_book (en_client ?en)) (ck_orders ck) (en_inbox ?en) (en_engine ?en) = (e', fs, ans)"
    by (rule prod_cases3)
  have "engine_inv e'" using assms(1,2) by (intro drain_inv [OF _ _ _ _ d]) (simp_all add: trading_ok_def entry_ids_def)
  then show ?thesis using assms(1,4) OnTick d by (auto simp: drainInbox_def Let_def trading_ok_def)
qed (use assms in \<open>auto simp: onSnapshot_def bind_result_Inr_iff trading_ok_def\<close>)

lemma dispatch_all_ok:
  assumes "trading_ok (wk_entry w)" and "distinct (entry_ids (wk_entry w))" and "\<forall>ev \<in> set evs. honest_event ev"
    and "dispatch_all cks key evs w = Inr w'"
  shows "trading_ok (wk_entry w')"
  using assms
proof (induction evs arbitrary: cks w)
  case (Cons ev evs)
  obtain w1 where d: "dispatch (cks 0) key ev w = Inr w1" and r: "dispatch_all (\<lambda>i. cks (Suc i)) key evs w1 = Inr w'"
    using Cons.prems(4) by (auto simp: bind_result_Inr_iff)
  have "distinct (entry_ids (wk_entry w1))" using dispatch_ids [OF d] Cons.prems(2) by (simp add: ids_from_def)
  then show ?case using dispatch_ok [OF Cons.prems(1,2) _ d] Cons.prems(3) by (intro Cons.IH [OF _ _ _ r]) simp_all
qed simp

lemma worker_ok:
  assumes "trading_ok en" and "distinct (entry_ids en)" and "cl_onDelta (en_client en)"
    and "worker_parsed zlib net t cks key parsed (start_worker en reg) = Inr w"
    and "\<forall>ev \<in> set (cl_log (en_client (wk_entry w))). honest_event ev"
  shows "trading_ok (wk_entry w)"
proof -
  obtain exc c' where h: "handle_parsed zlib net t parsed (en_client en) = (exc, c')" by (rule prod.exhaust)
  have c': "en_client (wk_entry w) = c'" using h assms(4) by (rule worker_client)
  have pos: "book_pos (cl_book c')"
    using assms(1,5) unfolding c' by (intro handle_parsed_pos [OF _ assms(3) h]) (simp_all add: trading_ok_def)
  have "set (new_events (en_client en) c') \<subseteq> set (cl_log c')" by (simp add: new_events_def set_drop_subset)
  then have ev: "\<forall>ev \<in> set (new_events (en_client en) c'). honest_event ev" using assms(5) unfolding c' by blast
  let ?w0 = "(start_worker en reg)\<lparr>wk_entry := en\<lparr>en_client := c'\<rparr>\<rparr>"
  have "dispatch_all cks key (new_events (en_client en) c') ?w0 = Inr w" using assms(4) h by (simp add: worker_parsed_def start_worker_def)
  moreover have "trading_ok (wk_entry ?w0)" "distinct (entry_ids (wk_entry ?w0))"
    using assms(1,2) pos by (simp_all add: trading_ok_def entry_ids_def start_worker_def)
  ultimately show ?thesis using dispatch_all_ok ev by blast
qed

section \<open>The registry\<close>

interpretation trading: entry_invariant trading_guard trading_ok
proof unfold_locales
  fix key :: string and t0 p slot
  show "trading_ok (new_entry t0 p key slot)"
    by (simp add: trading_ok_def new_entry_def new_client_def book_pos_def side_pos_def book_inv_def new_book_def new_side_def side_inv_def)
next
  fix en net a exc c'
  assume "trading_ok en" and s: "start_session net a (en_client en) = (exc, c')"
  then show "trading_ok (en\<lparr>en_client := c'\<rparr>)" using start_session_book [OF s] by (simp add: trading_ok_def)
next
  fix en zlib net t cks key parsed reg w
  assume "trading_ok en" "worker_parsed zlib net t cks key parsed (start_worker en reg) = Inr w" "trading_guard en (wk_entry w)"
  then show "trading_ok (wk_entry w)" by (intro worker_ok) (auto simp: trading_guard_def feeding_def callbacks_def)
qed (auto simp: trading_ok_def push_inbox_def)

definition sane_step :: "SymbolRegistry \<Rightarrow> SymbolRegistry \<Rightarrow> bool" where
  "sane_step reg reg' \<longleftrightarrow> registry_step reg reg' \<and> sane reg'"

lemma sane_steps: "rtranclp sane_step reg reg' \<Longrightarrow> rtranclp registry_step reg reg'"
  by (erule rtranclp_mono [THEN predicate2D, rotated]) (auto simp: sane_step_def)

lemma trading_reachable:
  "rtranclp sane_step (new_registry seg) reg \<Longrightarrow> holds trading_ok reg \<and> registry_ids reg"
proof (induction rule: rtranclp_induct)
  case base
  then show ?case using trading.initially by (simp add: registry_ids_def live_def new_registry_def unsent_ids_def place_ids_def)
next
  case (step reg reg')
  have st: "registry_step reg reg'" "sane reg'" using step(2) by (simp_all add: sane_step_def)
  have "holds feeding reg" using sane_steps [OF step(1)] by (rule feed.reachable)
  then have "trading_guard en en'" if "en \<in> live reg" "en' \<in> live reg'" for en en'
    using that st(2) registry_idsD(1) step(3) by (auto simp: trading_guard_def holds_def sane_def)
  then have "holds trading_ok reg'" using step(3) by (intro trading.preserved [OF st(1)]) blast+
  then show ?case using registry_ids_step [OF st(1)] step(3) st(2) by (auto simp: sane_def)
qed

section \<open>Evicted levels\<close>

text \<open>
  When a new level pushes the worst one beyond the depth limit, the client announces the
  eviction as a delta with quantity zero. The matching engine takes it for a removal: a paper
  order at that price with less ahead of it than the level last had is filled, although
  nothing was traded there.
\<close>

lemma eviction_fills_resting_order:
  assumes "applyDelta (get_side side (cl_book c)) (upd_price u) (upd_quantity u) = (s, Some p)" and "cl_onDelta c"
    and "engine_inv e" and "me_onFill e" and "(oid, order) \<in> set (restingOrders e)" and "key_of order = (side, p)"
    and "lastObservedSize e (side, p) = Some prev" and "qty_ticks (queueAheadSize order) < qty_ticks prev"
  shows "\<exists>seq. last (cl_log (apply_level side u c)) = OnDelta side p (Quantity 0) seq"
    and "onBookDelta now e side p (Quantity 0) = (e', fills) \<Longrightarrow> 0 < filled_of oid fills"
proof -
  show "\<exists>seq. last (cl_log (apply_level side u c)) = OnDelta side p (Quantity 0) seq"
    using assms(1,2) by (simp add: apply_level_def announce_def emit_def Let_def)
  assume d: "onBookDelta now e side p (Quantity 0) = (e', fills)"
  have ok: "order_ok (oid, order)" using assms(3,5) by (rule engine_inv_ok)
  have "nonneg_qty (Quantity 0)" by (simp add: nonneg_qty_def in_s64_def)
  from onBookDelta_order(1) [OF assms(3,4) this assms(5-7) d] show "0 < filled_of oid fills"
    using assms(8) ok by (simp add: filled_by_def order_ok_def pos_qty_def nonneg_qty_def)
qed

end
