(* ===== verification/Snapshot_Feed.thy ===== *)
theory Snapshot_Feed
  imports Market_Feed
begin

text \<open>
  The second way to the consumers of the shared memory: the snapshots that a worker writes to
  the seqlock slot of its symbol. The lemmas follow a snapshot from the client's event through
  the callback to the slot, and say how a reader of the slot gets the book back.
\<close>

section \<open>From events to the slot\<close>

definition own_slot :: "Worker \<Rightarrow> BookSnapshot SeqlockSlot" where
  "own_slot w = snapshotSlot (seg_slots (wk_segment w) ! en_slot (wk_entry w))"

fun snapped :: "(nat \<Rightarrow> clocks) \<Rightarrow> string \<Rightarrow> client_event list \<Rightarrow> BookSnapshot SeqlockSlot \<Rightarrow> BookSnapshot SeqlockSlot" where
  "snapped cks key [] s = s"
| "snapped cks key (OnSnapshot bs as seq # evs) s =
     snapped (\<lambda>i. cks (Suc i)) key evs (write_slot (wire_snapshot key (ck_ts (cks 0)) bs as seq) s)"
| "snapped cks key (ev # evs) s = snapped (\<lambda>i. cks (Suc i)) key evs s"

fun fits :: "client_event \<Rightarrow> bool" where
  "fits (OnSnapshot bs as seq) \<longleftrightarrow> length bs \<le> BOOK_DEPTH \<and> length as \<le> BOOK_DEPTH"
| "fits _ \<longleftrightarrow> True"

lemma dispatch_slot:
  assumes "length key < SYMBOL_BYTES" and "en_slot (wk_entry w) < length (seg_slots (wk_segment w))" and "fits ev"
    and "dispatch ck key ev w = Inr w'"
  shows "own_slot w' = snapped (\<lambda>_. ck) key [ev] (own_slot w)"
proof (cases ev)
  case (OnDelta side p q seq)
  then show ?thesis using assms by (auto simp: onDelta_def make_delta_eq Let_def own_slot_def update_slot_def case_prod_unfold)
next
  case (OnSnapshot bs as seq)
  then show ?thesis using assms by (auto simp: onSnapshot_def make_snapshot_eq own_slot_def update_slot_def)
next
  case OnTick
  then show ?thesis using assms by (auto simp: drainInbox_def own_slot_def Let_def case_prod_unfold)
qed (use assms in auto)

lemma snapped_Cons: "snapped cks key (ev # evs) s = snapped (\<lambda>i. cks (Suc i)) key evs (snapped (\<lambda>_. cks 0) key [ev] s)"
  by (cases ev) simp_all

lemma dispatch_all_slot:
  assumes "length key < SYMBOL_BYTES" and "en_slot (wk_entry w) < length (seg_slots (wk_segment w))" and "list_all fits evs"
    and "dispatch_all cks key evs w = Inr w'"
  shows "own_slot w' = snapped cks key evs (own_slot w)"
  using assms
proof (induction evs arbitrary: cks w)
  case (Cons ev evs)
  obtain w1 where d: "dispatch (cks 0) key ev w = Inr w1" and r: "dispatch_all (\<lambda>i. cks (Suc i)) key evs w1 = Inr w'"
    using Cons.prems(4) by (auto simp: bind_result_Inr_iff)
  have "fits ev" "list_all fits evs" using Cons.prems(3) by simp_all
  then show ?case
    unfolding snapped_Cons [of cks] dispatch_slot [OF Cons.prems(1,2) \<open>fits ev\<close> d, symmetric]
    using Cons.prems(1,2) r dispatch_queue(2,3) [OF Cons.prems(1,2) d] by (intro Cons.IH) simp_all
qed simp

lemma snapped_none: "filter is_snapshot_event evs = [] \<Longrightarrow> snapped cks key evs s = s"
  by (induction cks key evs s rule: snapped.induct) (simp_all add: is_snapshot_event_def)

lemma snapped_once:
  "filter is_snapshot_event evs = [OnSnapshot bs as seq] \<Longrightarrow> \<exists>ts. snapped cks key evs s = write_slot (wire_snapshot key ts bs as seq) s"
  by (induction cks key evs s rule: snapped.induct) (auto simp: is_snapshot_event_def snapped_none)

section \<open>The snapshots of a message\<close>

definition book_snapshot :: "OrderBook \<Rightarrow> client_event" where
  "book_snapshot book = OnSnapshot (levels_of (bids book)) (levels_of (asks book)) (lastSeq book)"

text \<open>A message publishes at most one snapshot, and only of the book as it leaves it.\<close>

lemma no_snapshot_applied: "filter is_snapshot_event (applied_events msg book) = []"
proof -
  have "filter is_snapshot_event (delta_events side seq ds) = []" for side seq ds
    by (induction side seq ds rule: delta_events.induct) (simp_all add: is_snapshot_event_def)
  then show ?thesis by (simp add: applied_events_def)
qed

lemma applyMessage_snapshots:
  assumes "applyMessage zlib net t msg c = (exc, c')" and "book_inv (cl_book c)"
  shows "filter is_snapshot_event (new_events c c') \<in> {[], [book_snapshot (cl_book c')]}"
proof (cases "msg_symbol msg = cl_symbol c")
  case True
  have inv: "book_inv (cl_book (applied zlib msg c))" using assms(2) by (rule applied_inv)
  have log: "\<exists>evs. cl_log (applied zlib msg c) = cl_log c @ evs \<and> filter is_snapshot_event evs = []"
    using no_snapshot_applied by (simp add: applied_def)
  show ?thesis
    using assms(1) True log inv depth_all
    by (auto simp: applyMessage_eq resubscribe_eq publishSnapshot_def maybePublishSnapshot_def emit_def Let_def new_events_def
        is_snapshot_event_def book_snapshot_def book_inv_def split: if_splits)
next
  case False
  then show ?thesis using assms(1) by (simp add: applyMessage_def new_events_def)
qed

lemma handle_snapshots:
  assumes "handle_parsed zlib net t parsed c = (exc, c')" and "book_inv (cl_book c)"
  shows "filter is_snapshot_event (new_events c c') \<in> {[], [book_snapshot (cl_book c')]}"
  using assms(1)
proof (cases rule: handle_parsed_cases)
  case (handled msg c1)
  have "new_events c c' = new_events c c1 @ (if cl_onTick c1 then [OnTick] else [])"
    using applyMessage_log [OF handled(2)] by (auto simp: handled(4) tick_def emit_def new_events_def)
  moreover have "cl_book c' = cl_book c1" by (simp add: handled(4))
  ultimately show ?thesis using applyMessage_snapshots [OF handled(2) assms(2)] by (auto simp: is_snapshot_event_def)
next
  case (thrown msg e)
  then show ?thesis using applyMessage_snapshots assms(2) by blast
qed (auto simp: new_events_def tick_def emit_def is_snapshot_event_def)

text \<open>An accepted snapshot message always publishes.\<close>

lemma accepted_snapshot_published:
  assumes "handle_parsed zlib net t (Inr (Some msg)) c = (exc, c')" and "msg_symbol msg = cl_symbol c" and "msg_type msg = Snapshot"
    and "book_checksum zlib c (applied_book msg (cl_book c)) = msg_checksum msg" and "cl_onSnapshot c"
  shows "list_ex is_snapshot_event (new_events c c')"
proof -
  have "applyMessage zlib net t msg c = (None, publishSnapshot (snd t) (applied zlib msg c))"
    using assms(2-4) by (simp add: applyMessage_eq)
  then have "c' = tick (publishSnapshot (snd t) (applied zlib msg c))"
    using assms(1) by (cases rule: handle_parsed_cases [OF assms(1)]) auto
  then show ?thesis
    using assms(5) by (simp add: tick_def emit_def publishSnapshot_def Let_def new_events_def applied_def is_snapshot_event_def)
qed

section \<open>Reading the slot\<close>

definition decode_snapshot :: "BookSnapshot \<Rightarrow> Mirror" where
  "decode_snapshot snap = \<lparr>mir_bids = map_of (map level_pair (take (unat (sn_numBidLevels snap)) (sn_bids snap))),
     mir_asks = map_of (map level_pair (take (unat (sn_numAskLevels snap)) (sn_asks snap))), mir_seq = sn_seq snap\<rparr>"

lemma book_lengths: "book_inv b \<Longrightarrow> length (levels_of (bids b)) \<le> BOOK_DEPTH \<and> length (levels_of (asks b)) \<le> BOOK_DEPTH"
  by (simp add: book_inv_def side_inv_def)

lemma decode_wire_snapshot:
  assumes "book_inv book"
  shows "mirrors book (decode_snapshot (wire_snapshot key ts (levels_of (bids book)) (levels_of (asks book)) (lastSeq book)))"
proof -
  have "unat (of_nat (length xs) :: u16) = length xs" if "length xs \<le> BOOK_DEPTH" for xs :: "PriceLevel list"
    using that by (simp add: unat_of_nat BOOK_DEPTH_def)
  then show ?thesis
    using book_lengths [OF assms] by (simp add: mirrors_def decode_snapshot_def wire_snapshot_def side_map_def)
qed

lemma worker_slot:
  assumes "feeding en" and "cl_symbol (en_client en) = key" and "segment_inv (reg_segment reg)" and "en_slot en < SYMBOL_SLOT_POOL_SIZE"
    and "handle_parsed zlib net t parsed (en_client en) = (exc, c')"
    and "worker_parsed zlib net t cks key parsed (start_worker en reg) = Inr w"
  shows "\<exists>ts. own_slot w = (if list_ex is_snapshot_event (new_events (en_client en) c')
      then write_slot (wire_snapshot key ts (levels_of (bids (cl_book c'))) (levels_of (asks (cl_book c'))) (lastSeq (cl_book c')))
      else id) (snapshotSlot (seg_slots (reg_segment reg) ! en_slot en))"
proof -
  let ?evs = "new_events (en_client en) c'" and ?w0 = "(start_worker en reg)\<lparr>wk_entry := en\<lparr>en_client := c'\<rparr>\<rparr>"
  have key: "length key < SYMBOL_BYTES" using assms(1,2) by (auto simp: feeding_def)
  have slot: "en_slot (wk_entry ?w0) < length (seg_slots (wk_segment ?w0))"
    using assms(3,4) by (simp add: start_worker_def segment_inv_def)
  have run: "dispatch_all cks key ?evs ?w0 = Inr w" using assms(5,6) by (simp add: worker_parsed_def start_worker_def)
  have "en_client (wk_entry w) = c'" using assms(5,6) by (rule worker_client)
  then have inv: "book_inv (cl_book c')" using worker_feeding [OF assms(1,6)] by (simp add: feeding_def)
  have snaps: "filter is_snapshot_event ?evs \<in> {[], [book_snapshot (cl_book c')]}"
    using assms(1,5) by (intro handle_snapshots) (simp_all add: feeding_def)
  have "fits ev" if "ev \<in> set ?evs" for ev
  proof (cases "is_snapshot_event ev")
    case True
    then have "ev \<in> set (filter is_snapshot_event ?evs)" using that by simp
    then have "ev = book_snapshot (cl_book c')" using snaps by (elim insertE emptyE) simp_all
    then show ?thesis using book_lengths [OF inv] by (simp add: book_snapshot_def)
  qed (cases ev; simp add: is_snapshot_event_def)
  then have "own_slot w = snapped cks key ?evs (own_slot ?w0)"
    by (intro dispatch_all_slot [OF key slot _ run]) (simp add: list_all_iff)
  moreover have "own_slot ?w0 = snapshotSlot (seg_slots (reg_segment reg) ! en_slot en)" by (simp add: own_slot_def start_worker_def)
  ultimately show ?thesis
    using snaps snapped_none [of ?evs] snapped_once [of ?evs]
    by (auto simp: list_ex_iff filter_empty_conv book_snapshot_def)
qed

end
