(* ===== verification/Value_Ranges.thy ===== *)
theory Value_Ranges
  imports Market_Feed
begin

text \<open>
  The 64-bit fields of the code are integers in the model. This theory shows that no
  operation ever leaves their range: every price and quantity in the books, the events, the
  resting orders, the fills and the answers of a reachable registry is a value of
  \<^verbatim>\<open>int64_t\<close>. Nothing is assumed of the market here; a message may announce any quantity, a
  negative one included, and the subtractions wrap around as in the code.
\<close>

section \<open>Specification vocabulary\<close>

definition level_typed :: "PriceLevel \<Rightarrow> bool" where
  "level_typed l \<longleftrightarrow> price_ok (level_price l) \<and> qty_ok (level_quantity l)"

definition book_typed :: "OrderBook \<Rightarrow> bool" where
  "book_typed b \<longleftrightarrow> list_all level_typed (levels_of (bids b)) \<and> list_all level_typed (levels_of (asks b))"

fun event_typed :: "client_event \<Rightarrow> bool" where
  "event_typed (OnDelta side p q seq) \<longleftrightarrow> price_ok p \<and> qty_ok q"
| "event_typed (OnSnapshot bs as seq) \<longleftrightarrow> list_all level_typed bs \<and> list_all level_typed as"
| "event_typed _ \<longleftrightarrow> True"

definition client_typed :: "Client \<Rightarrow> bool" where
  "client_typed c \<longleftrightarrow> book_typed (cl_book c) \<and> list_all event_typed (cl_log c)"

definition order_typed :: "PaperOrder \<Rightarrow> bool" where
  "order_typed order \<longleftrightarrow> price_ok (po_price order) \<and> qty_ok (remainingSize order) \<and> qty_ok (queueAheadSize order)"

definition engine_typed :: "MatchingEngine \<Rightarrow> bool" where
  "engine_typed e \<longleftrightarrow> list_all (\<lambda>(oid, order). order_typed order) (restingOrders e) \<and> (\<forall>k q. lastObservedSize e k = Some q \<longrightarrow> qty_ok q)"

definition fill_typed :: "Fill \<Rightarrow> bool" where
  "fill_typed f \<longleftrightarrow> price_ok (fill_price f) \<and> qty_ok (fill_size f)"

definition entry_typed :: "Entry \<Rightarrow> bool" where
  "entry_typed en \<longleftrightarrow> client_typed (en_client en) \<and> engine_typed (en_engine en) \<and> list_all request_ok (en_inbox en)"

definition output_typed :: "Fill list \<Rightarrow> (OrderRequest \<times> OrderResult) list \<Rightarrow> bool" where
  "output_typed fs answers \<longleftrightarrow> list_all fill_typed fs \<and> list_all (\<lambda>(rq, res). qty_ok (filledSize res)) answers"

section \<open>Books and clients\<close>

lemma list_all_update: "list_all P xs \<Longrightarrow> P x \<Longrightarrow> list_all P (xs[i := x])"
  using set_update_subset_insert [of xs i x] by (auto simp: list_all_iff)

lemma list_all_take_drop: "list_all P xs \<Longrightarrow> list_all P (take n xs)" "list_all P xs \<Longrightarrow> list_all P (drop n xs)"
  by (auto simp: list_all_iff dest: in_set_takeD in_set_dropD)

lemma qty_ok_simps [simp]: "qty_ok (Quantity 0)" "qty_ok (a - b)" "qty_ok a \<Longrightarrow> qty_ok b \<Longrightarrow> qty_ok (min a b)"
  by (simp_all add: qty_ok_def in_s64_def [of 0] min_def)

lemma applyDelta_typed:
  assumes "list_all level_typed (levels_of s)" and "price_ok p" and "qty_ok q" and "applyDelta s p q = (s', evicted)"
  shows "list_all level_typed (levels_of s')" and "\<And>p'. evicted = Some p' \<Longrightarrow> price_ok p'"
proof -
  let ?xs = "levels_of s" and ?it = "level_position s p"
  define xs' where "xs' = (if ?it < length ?xs \<and> level_price (?xs ! ?it) = p then ?xs[?it := (?xs ! ?it)\<lparr>level_quantity := q\<rparr>]
    else take ?it ?xs @ \<lparr>level_price = p, level_quantity = q\<rparr> # drop ?it ?xs)"
  have "level_typed ((?xs ! ?it)\<lparr>level_quantity := q\<rparr>)" if "?it < length ?xs"
    using assms(1,3) that by (simp add: list_all_length level_typed_def)
  then have xs': "list_all level_typed xs'"
    using assms(1-3) by (auto simp: xs'_def level_typed_def list_all_update list_all_take_drop)
  show "list_all level_typed (levels_of s')"
    using assms(1,4) xs' unfolding applyDelta_def Let_def xs'_def [symmetric] by (auto simp: list_all_take_drop split: if_splits)
  show "price_ok p'" if "evicted = Some p'" for p'
  proof -
    have "xs' \<noteq> []" "p' = level_price (last xs')"
      using assms(4) that unfolding applyDelta_def Let_def xs'_def [symmetric] by (auto split: if_splits)
    then show ?thesis using xs' by (simp add: list_all_iff level_typed_def)
  qed
qed

lemma announce_typed: "client_typed c \<Longrightarrow> price_ok p \<Longrightarrow> qty_ok q \<Longrightarrow> client_typed (announce side p q c)"
  by (simp add: announce_def client_typed_def emit_def book_typed_def Let_def)

lemma apply_level_typed:
  assumes "client_typed c" and "price_ok (upd_price u)" and "qty_ok (upd_quantity u)"
  shows "client_typed (apply_level side u c)"
proof -
  obtain s evicted where d: "applyDelta (get_side side (cl_book c)) (upd_price u) (upd_quantity u) = (s, evicted)" by (rule prod.exhaust)
  have "list_all level_typed (levels_of (get_side side (cl_book c)))" using assms(1) by (simp add: client_typed_def book_typed_def get_side_def)
  note t = applyDelta_typed [OF this assms(2,3) d]
  have "client_typed (c\<lparr>cl_book := set_side side s (cl_book c)\<rparr>)"
    using assms(1) t(1) by (simp add: client_typed_def book_typed_def set_side_def)
  then have c1: "client_typed (announce side (upd_price u) (upd_quantity u) (c\<lparr>cl_book := set_side side s (cl_book c)\<rparr>))"
    using assms(2,3) by (rule announce_typed)
  then show ?thesis using t(2) by (auto simp: apply_level_def d Let_def split: option.splits intro: announce_typed)
qed

lemma apply_levels_typed:
  "client_typed c \<Longrightarrow> \<forall>u \<in> set us. price_ok (upd_price u) \<and> qty_ok (upd_quantity u) \<Longrightarrow> client_typed (apply_levels side us c)"
  by (induction us arbitrary: c) (simp_all add: apply_level_typed)

lemma client_typed_clear [simp]: "client_typed c \<Longrightarrow> client_typed (c\<lparr>cl_book := clear_book (cl_book c)\<rparr>)"
  by (simp add: client_typed_def book_typed_def clear_book_def clear_def)

lemma publishSnapshot_typed: "client_typed c \<Longrightarrow> client_typed (publishSnapshot now c)"
  by (auto simp: publishSnapshot_def client_typed_def book_typed_def emit_def depth_def list_all_iff Let_def dest: in_set_takeD)

lemma ws_typed: "ws_write net text c = (exc, c') \<Longrightarrow> client_typed c \<Longrightarrow> client_typed c'"
  by (auto simp: ws_write_def client_typed_def emit_def split: if_splits)

lemma subscribe_typed: "Kraken_Book_Client.subscribe net c = (exc, c') \<Longrightarrow> client_typed c \<Longrightarrow> client_typed c'"
  by (auto simp: Kraken_Book_Client.subscribe_def split: if_splits dest: ws_typed)

lemma and_then_typed:
  assumes "and_then a b c = (exc, c')" and "client_typed c"
    and "\<And>x d. a c = (x, d) \<Longrightarrow> client_typed d" and "\<And>c x d. b c = (x, d) \<Longrightarrow> client_typed c \<Longrightarrow> client_typed d"
  shows "client_typed c'"
  using assms(1,3,4) by (auto simp: and_then_def split: prod.splits option.splits)

lemma resubscribe_typed: "resubscribeAndRebuild net c = (exc, c') \<Longrightarrow> client_typed c \<Longrightarrow> client_typed c'"
  unfolding resubscribeAndRebuild_def
  by (erule and_then_typed) (auto split: if_splits dest: ws_typed subscribe_typed)

lemma applyMessage_typed:
  assumes "applyMessage zlib net t msg c = (exc, c')" and "client_typed c" and "message_in_range msg"
  shows "client_typed c'"
proof (cases "msg_symbol msg = cl_symbol c")
  case True
  define c2 where "c2 = apply_levels Ask (msg_asks msg) (apply_levels Bid (msg_bids msg)
    (if msg_type msg = Snapshot then c\<lparr>cl_book := clear_book (cl_book c)\<rparr> else c))"
  have "client_typed c2"
    unfolding c2_def using assms(2,3) by (intro apply_levels_typed) (auto simp: message_in_range_def)
  then have c3: "client_typed (c2\<lparr>cl_book := (cl_book c2)\<lparr>lastCheckSum := n\<rparr>\<rparr>)" for n
    by (simp add: client_typed_def book_typed_def)
  then show ?thesis
    using assms(1) True unfolding applyMessage_def Let_def c2_def [symmetric]
    by (auto simp: maybePublishSnapshot_def Let_def split: if_splits intro: publishSnapshot_typed dest: resubscribe_typed)
qed (use assms in \<open>simp add: applyMessage_def\<close>)

lemma handle_parsed_typed:
  assumes "handle_parsed zlib net t parsed c = (exc, c')" and "client_typed c" and "parsed_in_range parsed"
  shows "client_typed c'"
  using assms(1,2) unfolding handle_parsed_def
proof (rule and_then_typed)
  fix x d
  assume "(case parsed of Inl e \<Rightarrow> (Some e, c) | Inr None \<Rightarrow> (None, c) | Inr (Some message) \<Rightarrow> applyMessage zlib net t message c) = (x, d)"
  then show "client_typed d"
    using assms(2,3) by (auto simp: parsed_in_range_def split: sum.splits option.splits dest: applyMessage_typed)
qed (auto simp: client_typed_def emit_def split: if_splits)

lemma start_session_typed: "start_session net a c = (exc, c') \<Longrightarrow> client_typed c \<Longrightarrow> client_typed c'"
  unfolding start_session_def
  by (erule and_then_typed) (auto simp: connect_def client_typed_def split: connect_result.splits
      dest: subscribe_typed [unfolded client_typed_def])

section \<open>Matching engines\<close>

lemma emitFill_typed: "list_all fill_typed fs \<Longrightarrow> price_ok p \<Longrightarrow> qty_ok q \<Longrightarrow> list_all fill_typed (emitFill e now fs oid p q)"
  by (simp add: emitFill_def fill_typed_def)

lemma match_levels_typed:
  assumes "match_levels e now oid side type p ls remaining fs = (remaining', fs')" and "list_all level_typed ls"
    and "qty_ok remaining" and "list_all fill_typed fs"
  shows "qty_ok remaining' \<and> list_all fill_typed fs'"
  using assms
proof (induction e now oid side type p ls remaining fs rule: match_levels.induct)
  case (2 e now oid side type p l ls remaining fs)
  then show ?case by (auto simp: level_typed_def Let_def emitFill_typed split: if_splits)
qed simp

lemma sizeAtPrice_typed: "list_all level_typed (levels_of s) \<Longrightarrow> qty_ok (sizeAtPrice s p)"
  by (auto simp: sizeAtPrice_def level_typed_def list_all_length Let_def)

lemma placeOrder_typed:
  assumes "placeOrder book now e oid side type p sz = (e', fs, res)" and "book_typed book" and "engine_typed e"
    and "price_ok p" and "qty_ok sz"
  shows "engine_typed e' \<and> list_all fill_typed fs \<and> qty_ok (filledSize res)"
proof -
  obtain rem fills where m: "match_levels e now oid side type p (depth (opposite_side book side) BOOK_DEPTH) sz [] = (rem, fills)"
    by (rule prod.exhaust)
  have "list_all level_typed (depth (opposite_side book side) BOOK_DEPTH)"
    using assms(2) by (auto simp: book_typed_def opposite_side_def depth_def list_all_iff dest: in_set_takeD)
  then have r: "qty_ok rem" "list_all fill_typed fills" using match_levels_typed [OF m] assms(5) by simp_all
  have "qty_ok (sizeAtPrice (own_side book side) p)"
    using assms(2) by (intro sizeAtPrice_typed) (simp add: book_typed_def own_side_def)
  then show ?thesis
    using assms(1,3,4) r m
    by (auto simp: placeOrder_def engine_typed_def emplace_order_def order_typed_def rejected_def Let_def split: if_splits)
qed

lemma cancelOrder_typed:
  "cancelOrder e oid = (e', res) \<Longrightarrow> engine_typed e \<Longrightarrow> engine_typed e' \<and> qty_ok (filledSize res)"
  by (auto simp: cancelOrder_def engine_typed_def rejected_def erase_order_def list_all_iff Let_def split: option.splits if_splits)

lemma reduce_orders_typed:
  assumes "reduce_orders e now key r os fs = (os', fs', full)" and "list_all (\<lambda>(oid, order). order_typed order) os"
    and "qty_ok r" and "list_all fill_typed fs"
  shows "list_all (\<lambda>(oid, order). order_typed order) os' \<and> list_all fill_typed fs'"
  using assms
proof (induction os arbitrary: os' fs fs' full)
  case (Cons x os)
  obtain oid order where x: "x = (oid, order)" by (rule prod.exhaust)
  define order1 where "order1 = order\<lparr>queueAheadSize := queueAheadSize order - min (queueAheadSize order) r\<rparr>"
  define sz where "sz = min (r - min (queueAheadSize order) r) (remainingSize order)"
  define fills where "fills = emitFill e now fs oid (po_price order) sz"
  have ok: "order_typed order" "order_typed order1" "order_typed (order1\<lparr>remainingSize := remainingSize order - sz\<rparr>)"
    using Cons.prems(2) by (simp_all add: x order_typed_def order1_def)
  have fs: "list_all fill_typed fills"
    unfolding fills_def using Cons.prems(4) ok(1) by (intro emitFill_typed) (simp_all add: order_typed_def sz_def)
  have IH: "list_all (\<lambda>(oid, order). order_typed order) os1 \<and> list_all fill_typed fs1"
    if "reduce_orders e now key r os gs = (os1, fs1, full1)" "list_all fill_typed gs" for gs os1 fs1 full1
    using Cons.IH [OF that(1) _ Cons.prems(3) that(2)] Cons.prems(2) by simp
  have tail: ?case if "reduce_orders e now key r os gs = (os1, fs', full1)" "os' = (oid, y) # os1" "order_typed y" "list_all fill_typed gs"
    for gs os1 full1 y
    using IH [OF that(1,4)] that(2,3) by simp
  consider "\<not> order_at key order"
    | "order_at key order" "0 < qty_ticks (r - min (queueAheadSize order) r) \<and> 0 < qty_ticks (remainingSize order)"
    | "order_at key order" "\<not> (0 < qty_ticks (r - min (queueAheadSize order) r) \<and> 0 < qty_ticks (remainingSize order))" by blast
  then show ?case
  proof cases
    case 1
    obtain os1 gs full1 where r: "reduce_orders e now key r os fs = (os1, gs, full1)" by (rule prod_cases3)
    have "gs = fs'" "os' = (oid, order) # os1" using Cons.prems(1) 1 r by (simp_all add: x)
    then show ?thesis using tail r ok(1) Cons.prems(4) by blast
  next
    case 2
    obtain os1 gs full1 where r: "reduce_orders e now key r os fills = (os1, gs, full1)" by (rule prod_cases3)
    have "gs = fs'" "os' = (oid, order1\<lparr>remainingSize := remainingSize order - sz\<rparr>) # os1"
      using Cons.prems(1) 2 r by (simp_all add: x Let_def order1_def sz_def fills_def del: qty_ticks_minus qty_ticks_min)
    then show ?thesis using tail r ok(3) fs by blast
  next
    case 3
    obtain os1 gs full1 where r: "reduce_orders e now key r os fs = (os1, gs, full1)" by (rule prod_cases3)
    have "gs = fs'" "os' = (oid, order1) # os1"
      using Cons.prems(1) 3 r by (simp_all add: x Let_def order1_def del: qty_ticks_minus qty_ticks_min)
    then show ?thesis using tail r ok(2) Cons.prems(4) by blast
  qed
qed simp


lemma onBookDelta_typed:
  assumes "onBookDelta now e side p q = (e', fs)" and "engine_typed e" and "qty_ok q"
  shows "engine_typed e' \<and> list_all fill_typed fs"
proof (cases "lastObservedSize e (side, p)")
  case None
  then show ?thesis using assms by (simp add: onBookDelta_def)
next
  case (Some previous)
  let ?e1 = "e\<lparr>lastObservedSize := (lastObservedSize e)((side, p) \<mapsto> q)\<rparr>"
  have e1: "engine_typed ?e1" using assms(2,3) by (simp add: engine_typed_def)
  obtain os fs' full where r: "reduce_orders ?e1 now (side, p) (previous - q) (restingOrders e) [] = (os, fs', full)"
    by (rule prod_cases3)
  have os: "list_all (\<lambda>(oid, order). order_typed order) os" "list_all fill_typed fs'"
    using reduce_orders_typed [OF r] assms(2) by (simp_all add: engine_typed_def)
  have one: "list_all P (erase_order oid xs)" if "list_all P xs" for P oid xs
    using that by (simp add: erase_order_def list_all_iff)
  have erase: "list_all (\<lambda>(oid, order). order_typed order) (foldl (\<lambda>os oid. erase_order oid os) xs full)"
    if "list_all (\<lambda>(oid, order). order_typed order) xs" for xs full
    using that by (induction full arbitrary: xs) (simp_all add: one)
  show ?thesis
  proof (cases "qty_ticks q \<ge> qty_ticks previous")
    case True
    then show ?thesis using assms(1) Some e1 by (auto simp: onBookDelta_def Let_def)
  next
    case False
    then show ?thesis
      using assms Some r os(2) erase [OF os(1)] by (auto simp: onBookDelta_def engine_typed_def Let_def split: if_splits)
  qed
qed

section \<open>Workers\<close>

lemma serve_typed:
  assumes "serve book now rq e = (e', fs, res)" and "book_typed book" and "engine_typed e" and "request_ok rq"
  shows "engine_typed e' \<and> list_all fill_typed fs \<and> qty_ok (filledSize res)"
  using assms placeOrder_typed cancelOrder_typed by (auto simp: serve_def request_ok_def split: if_splits prod.splits)

lemma drain_typed:
  "drain book nows rqs e = (e', fs, answers) \<Longrightarrow> book_typed book \<Longrightarrow> engine_typed e \<Longrightarrow> list_all request_ok rqs \<Longrightarrow>
    engine_typed e' \<and> output_typed fs answers"
proof (induction book nows rqs e arbitrary: e' fs answers rule: drain.induct)
  case (2 book nows rq rqs e)
  obtain e1 fs1 res where s: "serve book (nows 0) rq e = (e1, fs1, res)" by (rule prod_cases3)
  obtain fs2 ans where d: "drain book (\<lambda>i. nows (Suc i)) rqs e1 = (e', fs2, ans)" "fs = fs1 @ fs2" "answers = (rq, res) # ans"
    using 2(2) s by (auto split: prod.splits)
  have one: "engine_typed e1 \<and> list_all fill_typed fs1 \<and> qty_ok (filledSize res)" using serve_typed [OF s 2(3,4)] 2(5) by simp
  then have "engine_typed e' \<and> output_typed fs2 ans" using 2(3,5) by (intro 2(1) [OF s [symmetric] refl refl d(1)]) simp_all
  then show ?case using one d(2,3) by (simp add: output_typed_def)
qed (simp add: output_typed_def)

definition worker_typed :: "Worker \<Rightarrow> bool" where
  "worker_typed w \<longleftrightarrow> entry_typed (wk_entry w) \<and> output_typed (wk_fills w) (wk_answers w)"

lemma dispatch_typed:
  assumes "dispatch ck key ev w = Inr w'" and "worker_typed w" and "event_typed ev"
  shows "worker_typed w'"
proof (cases ev)
  case (OnDelta side p q seq)
  obtain e fs where o: "onBookDelta (ck_fill ck) (en_engine (wk_entry w)) side p q = (e, fs)" by (rule prod.exhaust)
  have "engine_typed e \<and> list_all fill_typed fs"
    using onBookDelta_typed [OF o] assms(2,3) OnDelta by (simp add: worker_typed_def entry_typed_def)
  then show ?thesis
    using assms(1,2) OnDelta o by (auto simp: onDelta_def bind_result_Inr_iff Let_def worker_typed_def entry_typed_def output_typed_def)
next
  case OnTick
  let ?en = "wk_entry w"
  obtain e' fs ans where d: "drain (cl_book (en_client ?en)) (ck_orders ck) (en_inbox ?en) (en_engine ?en) = (e', fs, ans)"
    by (rule prod_cases3)
  have "engine_typed e' \<and> output_typed fs ans"
    using drain_typed [OF d] assms(2) by (simp add: worker_typed_def entry_typed_def client_typed_def)
  then show ?thesis
    using assms(1,2) OnTick d by (auto simp: drainInbox_def Let_def worker_typed_def entry_typed_def output_typed_def)
qed (use assms in \<open>auto simp: onSnapshot_def bind_result_Inr_iff worker_typed_def\<close>)

lemma dispatch_all_typed:
  "dispatch_all cks key evs w = Inr w' \<Longrightarrow> worker_typed w \<Longrightarrow> list_all event_typed evs \<Longrightarrow> worker_typed w'"
proof (induction evs arbitrary: cks w)
  case (Cons ev evs)
  obtain w1 where d: "dispatch (cks 0) key ev w = Inr w1" and r: "dispatch_all (\<lambda>i. cks (Suc i)) key evs w1 = Inr w'"
    using Cons.prems(1) by (auto simp: bind_result_Inr_iff)
  show ?case using dispatch_typed [OF d Cons.prems(2)] Cons.prems(3) by (intro Cons.IH [OF r]) simp_all
qed simp

lemma worker_parsed_typed:
  assumes "entry_typed en" and "worker_parsed zlib net t cks key parsed (start_worker en reg) = Inr w" and "parsed_in_range parsed"
  shows "worker_typed w"
proof -
  obtain exc c' where h: "handle_parsed zlib net t parsed (en_client en) = (exc, c')" by (rule prod.exhaust)
  have c': "client_typed c'" using assms(1,3) by (intro handle_parsed_typed [OF h]) (simp_all add: entry_typed_def)
  let ?w0 = "(start_worker en reg)\<lparr>wk_entry := en\<lparr>en_client := c'\<rparr>\<rparr>"
  have "dispatch_all cks key (new_events (en_client en) c') ?w0 = Inr w" using assms(2) h by (simp add: worker_parsed_def start_worker_def)
  moreover have "worker_typed ?w0"
    using assms(1) c' by (simp add: worker_typed_def entry_typed_def output_typed_def start_worker_def)
  moreover have "list_all event_typed (new_events (en_client en) c')"
    using c' by (simp add: client_typed_def new_events_def list_all_take_drop)
  ultimately show ?thesis by (rule dispatch_all_typed)
qed

section \<open>The registry\<close>

interpretation typed: unguarded_invariant entry_typed
proof unfold_locales
  fix key :: string and t0 p slot
  show "entry_typed (new_entry t0 p key slot)"
    by (simp add: entry_typed_def client_typed_def book_typed_def engine_typed_def new_entry_def new_client_def new_book_def
        new_side_def new_engine_def)
next
  fix en net a exc c'
  assume "entry_typed en" and s: "start_session net a (en_client en) = (exc, c')"
  then show "entry_typed (en\<lparr>en_client := c'\<rparr>)" using start_session_typed [OF s] by (simp add: entry_typed_def)
next
  fix en zlib net t cks key parsed reg w
  assume "entry_typed en" "worker_parsed zlib net t cks key parsed (start_worker en reg) = Inr w" "parsed_in_range parsed"
  then show "entry_typed (wk_entry w)" using worker_parsed_typed by (simp add: worker_typed_def)
next
  fix en
  assume "entry_typed en"
  then show "entry_typed (en\<lparr>en_client := stop (en_client en)\<rparr>)"
    by (simp add: entry_typed_def client_typed_def stop_def emit_def Let_def)
qed (auto simp: entry_typed_def push_inbox_def)

text \<open>What the workers have sent to the callers.\<close>

definition registry_output :: "SymbolRegistry \<Rightarrow> bool" where
  "registry_output reg \<longleftrightarrow> output_typed (fillQueue reg) (reg_answers reg)"

lemma finish_worker_output: "registry_output reg \<Longrightarrow> worker_typed w \<Longrightarrow> registry_output (finish_worker w reg)"
proof -
  have "fillQueue (fold pushFill fs r) = fillQueue r @ fs" "reg_answers (fold pushFill fs r) = reg_answers r" for fs r
    by (induction fs arbitrary: r) (simp_all add: pushFill_def)
  then show "registry_output reg \<Longrightarrow> worker_typed w \<Longrightarrow> registry_output (finish_worker w reg)"
    by (simp add: registry_output_def finish_worker_def worker_typed_def output_typed_def)
qed

lemma output_step:
  "registry_step reg reg' \<Longrightarrow> holds entry_typed reg \<Longrightarrow> registry_output reg \<Longrightarrow> registry_output reg'"
proof (induction rule: registry_step.induct)
  case (work reg key en zlib net t cks parsed w)
  have "worker_typed w" using holdsD [OF work(4,1)] work(2,3) by (rule worker_parsed_typed)
  then show ?case using work(5) by (intro finish_worker_output) (simp_all add: registry_output_def)
next
  case (work_leaving k reg zlib net t cks parsed w)
  have "entry_typed (reg_leaving reg ! k)" using work_leaving(1,4) live_leaving by (auto simp: holds_def)
  then have "worker_typed w" using work_leaving(2,3) by (rule worker_parsed_typed)
  then show ?case using work_leaving(5) by (intro finish_worker_output) (simp_all add: registry_output_def)
qed (auto simp: registry_output_def output_typed_def subscribe_check_def subscribe_commit_def unsubscribe_begin_def
      unsubscribe_finish_def place_submit_def place_finish_def cancel_submit_def cancel_finish_def waitForFill_def
      push_request_def push_leaving_def Let_def case_prod_unfold split: option.splits list.splits if_splits prod.splits sum.splits)

lemma output_reachable: "rtranclp registry_step (new_registry seg) reg \<Longrightarrow> registry_output reg"
proof (induction rule: rtranclp_induct)
  case base
  then show ?case by (simp add: registry_output_def output_typed_def new_registry_def)
next
  case (step reg reg')
  then show ?case by (blast intro: output_step typed.reachable)
qed


section \<open>Properties\<close>

text \<open>
  The integers of the model are the 64-bit integers of the code. In every reachable
  registry, whatever the market sends, every price and quantity in the books, in the deltas
  and snapshots announced, in the resting orders, the observed sizes and the waiting
  requests of every symbol whose worker runs, in the queued fills and in the answers to the
  callers is in the range of \<^verbatim>\<open>int64_t\<close>.
\<close>

lemma reachable_values_typed:
  assumes "rtranclp registry_step (new_registry seg) reg"
  shows "(\<forall>en \<in> live reg. entry_typed en) \<and> list_all fill_typed (fillQueue reg)
    \<and> list_all (\<lambda>(rq, res). qty_ok (filledSize res)) (reg_answers reg)"
  using typed.reachable [OF assms] output_reachable [OF assms] by (simp add: holds_def registry_output_def output_typed_def)

end
