(* ===== verification/Recorded_Session.thy ===== *)
theory Recorded_Session
  imports Wire_Layout
begin

text \<open>
  The file format of recorded market data, \<^verbatim>\<open>engine/include/engine/replay/recorded_session.hpp\<close>:
  a header of magic and version, then one record per frame, the receive time, the length of
  the payload and the payload.

  An integer is written and read as the bytes of its object representation. The engine's
  targets are little-endian; the format lemmas use only the locale \<open>object_bytes\<close> below, that
  is, that reading the bytes of an integer gives it back. An input stream is its unread bytes
  and the \<^verbatim>\<open>eof\<close> and \<^verbatim>\<open>fail\<close> bits, with \<^verbatim>\<open>istream::read\<close> as the standard describes it: on a
  stream that is not good it only sets the fail bit, and a short read sets both bits. An
  output stream is the bytes written; its write errors, and a failing allocation of the
  payload buffer, are not modelled.
\<close>

section \<open>Definitions\<close>

definition RECORDED_SESSION_MAGIC :: u32 where "RECORDED_SESSION_MAGIC = 0x50545253"
definition RECORDED_SESSION_VERSION :: u32 where "RECORDED_SESSION_VERSION = 1"

record RecordedFrame =
  recvTsNanos :: u64
  raw :: string

subsection \<open>Object representations\<close>

fun le_bytes :: "nat \<Rightarrow> nat \<Rightarrow> string" where
  "le_bytes 0 x = []"
| "le_bytes (Suc n) x = char_of (x mod 256) # le_bytes n (x div 256)"

fun le_value :: "string \<Rightarrow> nat" where
  "le_value [] = 0"
| "le_value (c # cs) = of_char c + 256 * le_value cs"

definition bytes_u32 :: "u32 \<Rightarrow> string" where "bytes_u32 x = le_bytes 4 (unat x)"
definition value_u32 :: "string \<Rightarrow> u32" where "value_u32 bs = of_nat (le_value bs)"
definition bytes_u64 :: "u64 \<Rightarrow> string" where "bytes_u64 x = le_bytes 8 (unat x)"
definition value_u64 :: "string \<Rightarrow> u64" where "value_u64 bs = of_nat (le_value bs)"

subsection \<open>Streams\<close>

record istream =
  is_rest :: string
  is_eof :: bool
  is_fail :: bool

definition open_stream :: "string \<Rightarrow> istream" where
  "open_stream bytes = \<lparr>is_rest = bytes, is_eof = False, is_fail = False\<rparr>"

definition good :: "istream \<Rightarrow> bool" where
  "good s \<longleftrightarrow> \<not> is_eof s \<and> \<not> is_fail s"

text \<open>\<^verbatim>\<open>in.read(buf, n)\<close>: the stream, and the buffer with the bytes read at its front.\<close>

definition stream_read :: "nat \<Rightarrow> string \<Rightarrow> istream \<Rightarrow> istream \<times> string" where
  "stream_read n buf s =
     (if \<not> good s then (s\<lparr>is_fail := True\<rparr>, buf)
      else let got = take n (is_rest s); short = length got < n
           in (s\<lparr>is_rest := drop n (is_rest s), is_eof := short, is_fail := short\<rparr>, memcpy_to buf got))"

subsection \<open>Headers and frames\<close>

definition writeRecordedSessionHeader :: "string \<Rightarrow> string" where
  "writeRecordedSessionHeader out = out @ bytes_u32 RECORDED_SESSION_MAGIC @ bytes_u32 RECORDED_SESSION_VERSION"

definition readRecordedSessionHeader :: "istream \<Rightarrow> istream \<times> bool" where
  "readRecordedSessionHeader s =
     (let (s1, magic) = stream_read 4 (bytes_u32 0) s;
          (s2, version) = stream_read 4 (bytes_u32 0) s1
      in (s2, good s2 \<and> value_u32 magic = RECORDED_SESSION_MAGIC \<and> value_u32 version = RECORDED_SESSION_VERSION))"

definition writeRecordedFrame :: "string \<Rightarrow> u64 \<Rightarrow> string \<Rightarrow> string" where
  "writeRecordedFrame out ts payload =
     (let payloadBytes = (of_nat (length payload) :: u32)
      in out @ bytes_u64 ts @ bytes_u32 payloadBytes @ payload)"

definition readRecordedFrame :: "istream \<Rightarrow> istream \<times> RecordedFrame option result" where
  "readRecordedFrame s =
     (let (s1, ts) = stream_read 8 (bytes_u64 0) s
      in if is_eof s1 then (s1, Inr None)
         else
           let (s2, len) = stream_read 4 (bytes_u32 0) s1
           in if \<not> good s2 then (s2, Inl (Runtime_error ''recorded_session: truncated frame header''))
              else
                let n = unat (value_u32 len); (s3, payload) = stream_read n (replicate n NUL) s2
                in if \<not> good s3 then (s3, Inl (Runtime_error ''recorded_session: truncated frame payload''))
                   else (s3, Inr (Some \<lparr>recvTsNanos = value_u64 ts, raw = payload\<rparr>)))"

text \<open>The loop of \<^verbatim>\<open>readAllRecordedFrames\<close> ends because every frame it returns has used up bytes.\<close>

lemma stream_read_rest: "stream_read n buf s = (s', out) \<Longrightarrow> length (is_rest s') \<le> length (is_rest s)"
  by (auto simp: stream_read_def Let_def split: if_splits)

lemma stream_read_used:
  "stream_read n buf s = (s', out) \<Longrightarrow> good s' \<Longrightarrow> length (is_rest s) = n + length (is_rest s')"
  by (auto simp: stream_read_def good_def Let_def split: if_splits)

lemma readRecordedFrame_used:
  assumes "readRecordedFrame s = (s', Inr (Some frame))"
  shows "length (is_rest s') < length (is_rest s)"
proof -
  obtain s1 ts where 1: "stream_read 8 (bytes_u64 0) s = (s1, ts)" by (rule prod.exhaust)
  obtain s2 len where 2: "stream_read 4 (bytes_u32 0) s1 = (s2, len)" by (rule prod.exhaust)
  obtain s3 payload where
    3: "stream_read (unat (value_u32 len)) (replicate (unat (value_u32 len)) NUL) s2 = (s3, payload)"
    by (rule prod.exhaust)
  have "good s2" and s': "s' = s3"
    using assms by (auto simp: readRecordedFrame_def 1 2 3 Let_def split: if_splits)
  then show ?thesis
    using stream_read_rest [OF 1] stream_read_used [OF 2] stream_read_rest [OF 3] by simp
qed

function read_frames :: "istream \<Rightarrow> RecordedFrame list \<Rightarrow> RecordedFrame list result" where
  "read_frames s frames =
     (case readRecordedFrame s of
        (s', Inl e) \<Rightarrow> Inl e
      | (s', Inr None) \<Rightarrow> Inr frames
      | (s', Inr (Some frame)) \<Rightarrow> read_frames s' (frames @ [frame]))"
  by pat_completeness auto
termination
  by (relation "measure (\<lambda>(s, frames). length (is_rest s))") (auto dest: readRecordedFrame_used [OF sym])

declare read_frames.simps [simp del]

definition readAllRecordedFrames :: "istream \<Rightarrow> RecordedFrame list result" where
  "readAllRecordedFrames s =
     (case readRecordedSessionHeader s of (s1, ok) \<Rightarrow>
        if \<not> ok then Inl (Runtime_error ''recorded_session: bad magic/version'') else read_frames s1 [])"

section \<open>Specification: integers as bytes\<close>

text \<open>What the format relies on of the object representation of an integer type.\<close>

locale object_bytes =
  fixes to_bytes :: "'a \<Rightarrow> string" and of_bytes :: "string \<Rightarrow> 'a" and width :: nat
  assumes length_bytes [simp]: "length (to_bytes x) = width"
    and bytes_inverse [simp]: "of_bytes (to_bytes x) = x"
begin

text \<open>Reading an object that is there, and reading past the end.\<close>

lemma read_object:
  "stream_read width (to_bytes y) (open_stream (to_bytes x @ rest)) = (open_stream rest, to_bytes x)"
  by (simp add: stream_read_def open_stream_def good_def memcpy_to_def)

lemma read_short:
  assumes "length bytes < width"
  shows "good (fst (stream_read width (to_bytes y) (open_stream bytes))) = False"
    and "is_eof (fst (stream_read width (to_bytes y) (open_stream bytes)))"
  using assms by (simp_all add: stream_read_def open_stream_def good_def Let_def)

lemma bytes_inj: "to_bytes x = to_bytes y \<longleftrightarrow> x = y"
  by (metis bytes_inverse)

end

section \<open>Lemmas\<close>

lemma length_le_bytes [simp]: "length (le_bytes n x) = n"
  by (induction n x rule: le_bytes.induct) simp_all

lemma le_value_le_bytes: "le_value (le_bytes n x) = x mod 256 ^ n"
proof (induction n x rule: le_bytes.induct)
  case (2 n x)
  have "x mod 256 + 256 * (x div 256 mod 256 ^ n) = x mod (256 * 256 ^ n)" by (simp add: mod_mult2_eq)
  with 2 show ?case by simp
qed simp

interpretation b32: object_bytes bytes_u32 value_u32 4
proof
  fix x :: u32
  have "unat x < 256 ^ 4" using unsigned_less [of x] by simp
  then show "value_u32 (bytes_u32 x) = x" by (simp add: value_u32_def bytes_u32_def le_value_le_bytes)
qed (simp add: bytes_u32_def)

interpretation b64: object_bytes bytes_u64 value_u64 8
proof
  fix x :: u64
  have "unat x < 256 ^ 8" using unsigned_less [of x] by simp
  then show "value_u64 (bytes_u64 x) = x" by (simp add: value_u64_def bytes_u64_def le_value_le_bytes)
qed (simp add: bytes_u64_def)

text \<open>A frame whose payload length fits the length field, its record, and a whole session.\<close>

definition frame_ok :: "RecordedFrame \<Rightarrow> bool" where
  "frame_ok frame \<longleftrightarrow> length (raw frame) < 2 ^ 32"

definition frame_record :: "RecordedFrame \<Rightarrow> string" where
  "frame_record frame = writeRecordedFrame [] (recvTsNanos frame) (raw frame)"

definition write_frames :: "string \<Rightarrow> RecordedFrame list \<Rightarrow> string" where
  "write_frames = foldl (\<lambda>out frame. writeRecordedFrame out (recvTsNanos frame) (raw frame))"

lemma write_frames_eq: "write_frames out frames = out @ concat (map frame_record frames)"
  by (induction frames arbitrary: out) (simp_all add: write_frames_def frame_record_def writeRecordedFrame_def Let_def)

lemma good_open [simp]: "good (open_stream bytes)" and eof_open [simp]: "\<not> is_eof (open_stream bytes)"
  by (simp_all add: good_def open_stream_def)

lemma read_header_written:
  "readRecordedSessionHeader (open_stream (writeRecordedSessionHeader [] @ rest)) = (open_stream rest, True)"
  by (simp add: readRecordedSessionHeader_def writeRecordedSessionHeader_def b32.read_object)

lemma read_frame_record:
  assumes "frame_ok frame"
  shows "readRecordedFrame (open_stream (frame_record frame @ rest)) = (open_stream rest, Inr (Some frame))"
proof -
  have len: "unat (of_nat (length (raw frame)) :: u32) = length (raw frame)"
    using assms by (simp add: frame_ok_def unat_of_nat)
  have "stream_read (length (raw frame)) (replicate (length (raw frame)) NUL) (open_stream (raw frame @ rest))
      = (open_stream rest, raw frame)"
    by (simp add: stream_read_def open_stream_def good_def memcpy_to_def)
  then show ?thesis
    by (simp add: readRecordedFrame_def frame_record_def writeRecordedFrame_def Let_def b64.read_object b32.read_object len)
qed

lemma read_frames_records:
  "list_all frame_ok frames \<Longrightarrow>
     read_frames (open_stream (concat (map frame_record frames) @ rest)) acc = read_frames (open_stream rest) (acc @ frames)"
  by (induction frames arbitrary: acc) (simp_all add: read_frames.simps [of "open_stream (frame_record _ @ _)"] read_frame_record)

lemma read_frames_at_end: "read_frames (open_stream []) acc = Inr acc"
  using b64.read_short(2) [of "[]" 0] by (subst read_frames.simps) (simp add: readRecordedFrame_def case_prod_unfold Let_def)

text \<open>What is left of a record that was cut off.\<close>

lemma read_frame_cut:
  assumes "frame_ok frame" and "k < length (frame_record frame)"
  shows "snd (readRecordedFrame (open_stream (take k (frame_record frame)))) =
    (if k < 8 then Inr None
     else if k < 12 then Inl (Runtime_error ''recorded_session: truncated frame header'')
     else Inl (Runtime_error ''recorded_session: truncated frame payload''))"
proof -
  let ?len = "bytes_u32 (of_nat (length (raw frame)))"
  have rec: "frame_record frame = bytes_u64 (recvTsNanos frame) @ ?len @ raw frame"
    by (simp add: frame_record_def writeRecordedFrame_def Let_def)
  have len: "unat (of_nat (length (raw frame)) :: u32) = length (raw frame)"
    using assms(1) by (simp add: frame_ok_def unat_of_nat)
  consider "k < 8" | "8 \<le> k" "k < 12" | "12 \<le> k" by linarith
  then show ?thesis
  proof cases
    case 1
    then show ?thesis
      using b64.read_short(2) [of "take k (frame_record frame)" 0] by (simp add: readRecordedFrame_def case_prod_unfold Let_def)
  next
    case 2
    then have t: "take k (frame_record frame) = bytes_u64 (recvTsNanos frame) @ take (k - 8) ?len" by (simp add: rec)
    show ?thesis
      using 2 b32.read_short(1) [of "take (k - 8) ?len" 0]
      by (simp add: t readRecordedFrame_def b64.read_object case_prod_unfold Let_def)
  next
    case 3
    then have t: "take k (frame_record frame) = bytes_u64 (recvTsNanos frame) @ ?len @ take (k - 12) (raw frame)"
      by (simp add: rec)
    have "k - 12 < length (raw frame)" using assms(2) 3 by (simp add: rec)
    then have "\<not> good (fst (stream_read (length (raw frame)) buf (open_stream (take (k - 12) (raw frame)))))" for buf
      by (simp add: stream_read_def good_def open_stream_def Let_def)
    then show ?thesis
      using 3 by (simp add: t readRecordedFrame_def b64.read_object b32.read_object len case_prod_unfold Let_def)
  qed
qed

lemma read_header_cut:
  assumes "length bytes < 8"
  shows "\<not> snd (readRecordedSessionHeader (open_stream bytes))"
proof -
  obtain s1 magic where 1: "stream_read 4 (bytes_u32 0) (open_stream bytes) = (s1, magic)" by (rule prod.exhaust)
  obtain s2 version where 2: "stream_read 4 (bytes_u32 0) s1 = (s2, version)" by (rule prod.exhaust)
  have "good s2 \<Longrightarrow> good s1" using 2 by (auto simp: stream_read_def good_def Let_def split: if_splits)
  then have "good s2 \<Longrightarrow> length bytes = 8 + length (is_rest s2)"
    using stream_read_used [OF 1] stream_read_used [OF 2] by (simp add: open_stream_def)
  then show ?thesis using assms by (auto simp: readRecordedSessionHeader_def 1 2)
qed

text \<open>
  Reading a recording gives back the recorded frames, empty payloads included, as long as
  each payload is shorter than the length field allows.
\<close>

lemma session_written:
  "list_all frame_ok frames \<Longrightarrow>
     readAllRecordedFrames (open_stream (write_frames (writeRecordedSessionHeader []) frames)) = Inr frames"
  using read_frames_records [of frames "[]" "[]"]
  by (simp add: readAllRecordedFrames_def write_frames_eq read_header_written read_frames_at_end)

section \<open>Properties\<close>

definition demo_frames :: "RecordedFrame list" where
  "demo_frames = [\<lparr>recvTsNanos = 5, raw = ''abc''\<rparr>, \<lparr>recvTsNanos = 9, raw = []\<rparr>]"

lemma demo_frames_ok: "list_all frame_ok demo_frames"
  by (simp add: demo_frames_def frame_ok_def)

lemma read_cut_session:
  assumes "list_all frame_ok frames" and "frame_ok frame" and "k < length (frame_record frame)"
  shows "readAllRecordedFrames (open_stream (write_frames (writeRecordedSessionHeader []) frames @ take k (frame_record frame))) =
      (if k < 8 then Inr frames
       else if k < 12 then Inl (Runtime_error ''recorded_session: truncated frame header'')
       else Inl (Runtime_error ''recorded_session: truncated frame payload''))"
proof -
  let ?cut = "open_stream (take k (frame_record frame))"
  have "read_frames ?cut acc = (case snd (readRecordedFrame ?cut) of Inl e \<Rightarrow> Inl e | Inr _ \<Rightarrow> Inr acc)" for acc
    using read_frame_cut [OF assms(2,3)] by (subst read_frames.simps) (auto split: prod.splits option.splits sum.splits if_splits)
  then show ?thesis
    using read_frames_records [OF assms(1), of "take k (frame_record frame)" "[]"] read_frame_cut [OF assms(2,3)]
    by (simp add: readAllRecordedFrames_def write_frames_eq read_header_written)
qed

text \<open>
  A record cut inside its 8-byte timestamp is taken for the clean end of the stream: it is
  dropped without an exception, although the header announces one for every truncated record.
\<close>

lemma timestamp_cut_dropped:
  assumes "list_all frame_ok frames" and "frame_ok frame" and "0 < k" and "k < 8"
  shows "readAllRecordedFrames (open_stream (write_frames (writeRecordedSessionHeader []) frames @ take k (frame_record frame))) = Inr frames"
proof -
  have "k < length (frame_record frame)" using assms(4) by (simp add: frame_record_def writeRecordedFrame_def)
  then show ?thesis using read_cut_session [OF assms(1,2), of k] assms(4) by simp
qed

text \<open>
  C36 (error): a recording that ends early. Where the file ends between two records, the frames
  before the end are returned, all of them and in order; where it ends inside the length or the
  payload of a record, reading throws, with a message that says which of the two; where it ends
  inside its 8-byte header it is rejected. (The one other place, inside the timestamp of a
  record, is not covered: there the code does not do what its comment says, see
  \<open>timestamp_cut_dropped\<close>.)
\<close>

theorem truncated_session:
  assumes "list_all frame_ok frames" and "frame_ok frame" and "k < length (frame_record frame)" and "k = 0 \<or> 8 \<le> k" and "j < 8"
  shows "readAllRecordedFrames (open_stream (write_frames (writeRecordedSessionHeader []) frames @ take k (frame_record frame))) =
      (if k = 0 then Inr frames
       else if k < 12 then Inl (Runtime_error ''recorded_session: truncated frame header'')
       else Inl (Runtime_error ''recorded_session: truncated frame payload''))
    \<and> readAllRecordedFrames (open_stream (take j (writeRecordedSessionHeader []))) =
      Inl (Runtime_error ''recorded_session: bad magic/version'')"
proof
  show "readAllRecordedFrames (open_stream (write_frames (writeRecordedSessionHeader []) frames @ take k (frame_record frame))) =
      (if k = 0 then Inr frames
       else if k < 12 then Inl (Runtime_error ''recorded_session: truncated frame header'')
       else Inl (Runtime_error ''recorded_session: truncated frame payload''))"
    using read_cut_session [OF assms(1-3)] assms(4) by auto
  show "readAllRecordedFrames (open_stream (take j (writeRecordedSessionHeader []))) =
      Inl (Runtime_error ''recorded_session: bad magic/version'')"
    using read_header_cut [of "take j (writeRecordedSessionHeader [])"] assms(5)
    by (simp add: readAllRecordedFrames_def case_prod_unfold)
qed

theorem truncated_session_witness:
  "readAllRecordedFrames (open_stream (write_frames (writeRecordedSessionHeader []) demo_frames
       @ take 13 (frame_record \<lparr>recvTsNanos = 12, raw = ''xyz''\<rparr>)))
     = Inl (Runtime_error ''recorded_session: truncated frame payload'')"
  using truncated_session [OF demo_frames_ok, of "\<lparr>recvTsNanos = 12, raw = ''xyz''\<rparr>" 13 0]
  by (simp add: frame_ok_def frame_record_def writeRecordedFrame_def)

end
