(* ===== verification/Replay_Tools.thy ===== *)
theory Replay_Tools
  imports Recorded_Session Client_Publication
begin

text \<open>
  Recording and replaying market data: the recorder and the replayer of
  \<^verbatim>\<open>engine/tools/replay/\<close>, and the replay thread of \<^verbatim>\<open>engine/src/symbol/symbol_registry.cpp\<close>.

  The file system is a map from paths to contents, a path can be opened for writing if it
  is writable, and a run ends with an exit code, or by \<^verbatim>\<open>std::terminate\<close> because of an
  uncaught exception. The messages of the tools on the console are left out, except the report
  of the benchmark, which is in the theory of the benchmark together with the replayer's
  \<^verbatim>\<open>main\<close>. The recorder's connection is the list of what its read loop meets.
\<close>

section \<open>Definitions\<close>

type_synonym files = "string \<rightharpoonup> string"

datatype 'a outcome = Exit int | Terminate cpp_exception | Continue 'a

text \<open>\<^verbatim>\<open>std::atoi\<close> for values in the range of \<^verbatim>\<open>int\<close>.\<close>

definition is_space :: "char \<Rightarrow> bool" where
  "is_space c \<longleftrightarrow> (let n = (of_char c :: nat) in n = 32 \<or> 9 \<le> n \<and> n \<le> 13)"

definition atoi_digits :: "string \<Rightarrow> int" where
  "atoi_digits s = foldl (\<lambda>v c. 10 * v + char_digit c) 0 (takeWhile is_digit s)"

definition atoi :: "string \<Rightarrow> int" where
  "atoi s = (case dropWhile is_space s of
       [] \<Rightarrow> 0
     | c # cs \<Rightarrow> if c = CHR ''-'' then - atoi_digits cs else if c = CHR ''+'' then atoi_digits cs else atoi_digits (c # cs))"

subsection \<open>Recorder\<close>

record RecorderArgs =
  ra_symbol :: string
  ra_outPath :: string
  ra_durationSeconds :: int

definition default_recorder_args :: RecorderArgs where
  "default_recorder_args = \<lparr>ra_symbol = ''BTC/USD'', ra_outPath = [], ra_durationSeconds = 300\<rparr>"

text \<open>The loop over \<^verbatim>\<open>argv\<close>, from the current argument on.\<close>

fun recorder_args :: "string list \<Rightarrow> RecorderArgs \<Rightarrow> RecorderArgs" where
  "recorder_args (arg # value # rest) args =
     (if arg = ''--symbol'' then recorder_args rest (args\<lparr>ra_symbol := value\<rparr>)
      else if arg = ''--out'' then recorder_args rest (args\<lparr>ra_outPath := value\<rparr>)
      else if arg = ''--duration'' then recorder_args rest (args\<lparr>ra_durationSeconds := atoi value\<rparr>)
      else recorder_args (value # rest) args)"
| "recorder_args _ args = args"

definition recorder_parseArgs :: "string list \<Rightarrow> RecorderArgs outcome" where
  "recorder_parseArgs argv =
     (let args = recorder_args argv default_recorder_args
      in if ra_outPath args = [] then Exit 2 else Continue args)"

definition recorder_subscribe_text :: "string \<Rightarrow> string" where
  "recorder_subscribe_text symbol = ''{\"method\":\"subscribe\",\"params\":{\"channel\":\"book\",\"symbol\":[\"''
     @ symbol @ ''\"],\"depth\":100}}''"

text \<open>
  One turn of the read loop: whether a signal has asked to stop, the steady clock in
  seconds at the test of the condition, and the frame read with its receive time, or the
  exception of the read.
\<close>

record turn =
  tn_stop :: bool
  tn_now :: int
  tn_read :: "(u64 \<times> string) result"

fun record_loop :: "int \<Rightarrow> turn list \<Rightarrow> string \<Rightarrow> string" where
  "record_loop deadline [] out = out"
| "record_loop deadline (tn # tns) out =
     (if tn_stop tn \<or> \<not> tn_now tn < deadline then out
      else case tn_read tn of
             Inl e \<Rightarrow> out
           | Inr (ts, payload) \<Rightarrow> record_loop deadline tns (writeRecordedFrame out ts payload))"

text \<open>
  \<^verbatim>\<open>main\<close> of the recorder, from \<^verbatim>\<open>argv[1]\<close> on: \<open>connected\<close> is the outcome of connecting and
  subscribing, \<open>Inr False\<close> for a failure to set the TLS host name. An exception there is not
  caught, and the header in the buffer of the truncated file is not flushed.
\<close>

definition recorder_main :: "string list \<Rightarrow> (string \<Rightarrow> bool) \<Rightarrow> bool result \<Rightarrow> int \<Rightarrow> turn list \<Rightarrow> files
    \<Rightarrow> files \<times> unit outcome" where
  "recorder_main argv writable connected now turns fs =
     (case recorder_parseArgs argv of
        Exit n \<Rightarrow> (fs, Exit n)
      | Terminate e \<Rightarrow> (fs, Terminate e)
      | Continue args \<Rightarrow>
          if \<not> writable (ra_outPath args) then (fs, Exit 1)
          else
            let header = writeRecordedSessionHeader []
            in case connected of
                 Inl e \<Rightarrow> (fs(ra_outPath args \<mapsto> []), Terminate e)
               | Inr False \<Rightarrow> (fs(ra_outPath args \<mapsto> header), Exit 1)
               | Inr True \<Rightarrow> (fs(ra_outPath args \<mapsto> record_loop (now + ra_durationSeconds args) turns header), Exit 0))"

subsection \<open>Replaying into a client\<close>

text \<open>
  The pause before a frame: the difference of the two 64-bit timestamps, which wraps around
  when they go back, read as the signed count of a duration.
\<close>

definition pause :: "u64 \<Rightarrow> u64 \<Rightarrow> int list" where
  "pause prev ts = (let gapNanos = ts - prev in if gapNanos > 0 then [sint gapNanos] else [])"

fun replay_loop :: "'v simdjson \<Rightarrow> zlib_crc32 \<Rightarrow> network \<Rightarrow> (nat \<Rightarrow> readings) \<Rightarrow> u64 option \<Rightarrow> RecordedFrame list \<Rightarrow> Client
    \<Rightarrow> cpp_exception option \<times> int list \<times> Client" where
  "replay_loop js zlib net ts prev [] c = (None, [], c)"
| "replay_loop js zlib net ts prev (frame # frames) c =
     (let slept = (case prev of None \<Rightarrow> [] | Some p \<Rightarrow> pause p (recvTsNanos frame))
      in case handleMessage js zlib net (ts 0) (raw frame) c of
           (Some e, c1) \<Rightarrow> (Some e, slept, c1)
         | (None, c1) \<Rightarrow>
             let (exc, more, c2) = replay_loop js zlib net (\<lambda>i. ts (Suc i)) (Some (recvTsNanos frame)) frames c1
             in (exc, slept @ more, c2))"

text \<open>\<^verbatim>\<open>replaySessionIntoClient\<close>: the uncaught exception, if any, the pauses, and the client.\<close>

definition replaySessionIntoClient :: "'v simdjson \<Rightarrow> zlib_crc32 \<Rightarrow> network \<Rightarrow> (nat \<Rightarrow> readings) \<Rightarrow> files \<Rightarrow> string \<Rightarrow> Client
    \<Rightarrow> cpp_exception option \<times> int list \<times> Client" where
  "replaySessionIntoClient js zlib net ts fs path c =
     (case fs path of
        None \<Rightarrow> (None, [], c)
      | Some bytes \<Rightarrow>
          (case readAllRecordedFrames (open_stream bytes) of
             Inl e \<Rightarrow> (None, [], c)
           | Inr frames \<Rightarrow> replay_loop js zlib net ts None frames c))"

subsection \<open>Replayer\<close>

record ReplayerArgs =
  rp_mode :: string
  rp_inPath :: string
  rp_speed :: string
  rp_factor :: int
  rp_measurePop :: bool
  rp_goldenPath :: string
  rp_updateGolden :: bool
  rp_priceDecimals :: int
  rp_quantityDecimals :: int
  rp_symbol :: string

definition default_replayer_args :: ReplayerArgs where
  "default_replayer_args = \<lparr>rp_mode = [], rp_inPath = [], rp_speed = ''real'', rp_factor = 1, rp_measurePop = False,
     rp_goldenPath = [], rp_updateGolden = False, rp_priceDecimals = 1, rp_quantityDecimals = 8, rp_symbol = ''BTC/USD''\<rparr>"

text \<open>
  The loop over \<^verbatim>\<open>argv\<close>. An option that needs a value and is the last argument makes a
  \<^verbatim>\<open>std::string\<close> from the null pointer behind the arguments; the standard library throws
  \<^verbatim>\<open>std::logic_error\<close> for it, here a runtime error.
\<close>

definition null_argument :: "'a outcome" where
  "null_argument = Terminate (Runtime_error ''basic_string: construction from null is not valid'')"

fun replayer_args :: "string list \<Rightarrow> ReplayerArgs \<Rightarrow> ReplayerArgs outcome" where
  "replayer_args [] args = Continue args"
| "replayer_args (arg # rest) args =
     (if arg = ''--measure-pop'' then replayer_args rest (args\<lparr>rp_measurePop := True\<rparr>)
      else if arg = ''--update-golden'' then replayer_args rest (args\<lparr>rp_updateGolden := True\<rparr>)
      else if arg \<in> {''--in'', ''--speed'', ''--factor'', ''--golden'', ''--symbol''} then
        (case rest of
           [] \<Rightarrow> null_argument
         | value # rest' \<Rightarrow>
             replayer_args rest'
               (if arg = ''--in'' then args\<lparr>rp_inPath := value\<rparr>
                else if arg = ''--speed'' then args\<lparr>rp_speed := value\<rparr>
                else if arg = ''--factor'' then args\<lparr>rp_factor := atoi value\<rparr>
                else if arg = ''--golden'' then args\<lparr>rp_goldenPath := value\<rparr>
                else args\<lparr>rp_symbol := value\<rparr>))
      else replayer_args rest args)"

definition replayer_parseArgs :: "string list \<Rightarrow> ReplayerArgs outcome" where
  "replayer_parseArgs argv =
     (case argv of
        [] \<Rightarrow> Exit 2
      | mode # rest \<Rightarrow>
          (case replayer_args rest (default_replayer_args\<lparr>rp_mode := mode\<rparr>) of
             Continue args \<Rightarrow> if rp_inPath args = [] then Exit 2 else Continue args
           | other \<Rightarrow> other))"

definition loadFrames :: "files \<Rightarrow> string \<Rightarrow> RecordedFrame list outcome" where
  "loadFrames fs path =
     (case fs path of
        None \<Rightarrow> Exit 1
      | Some bytes \<Rightarrow> (case readAllRecordedFrames (open_stream bytes) of Inl e \<Rightarrow> Terminate e | Inr frames \<Rightarrow> Continue frames))"

text \<open>The client of the tools: an empty book, all callbacks set.\<close>

definition tool_client :: "ReplayerArgs \<Rightarrow> int \<Rightarrow> Client" where
  "tool_client args t = new_client (rp_symbol args) new_book True True (rp_priceDecimals args) (rp_quantityDecimals args) True t"

definition verify_line :: "OrderBook \<Rightarrow> string" where
  "verify_line book = to_string (unat (lastSeq book)) @ '' '' @ to_string (unat (lastCheckSum book)) @ [char_of (10 :: nat)]"

fun verify_loop :: "'v simdjson \<Rightarrow> zlib_crc32 \<Rightarrow> network \<Rightarrow> (nat \<Rightarrow> readings) \<Rightarrow> RecordedFrame list \<Rightarrow> Client \<Rightarrow> string \<Rightarrow> string outcome" where
  "verify_loop js zlib net ts [] c actual = Continue actual"
| "verify_loop js zlib net ts (frame # frames) c actual =
     (case handleMessage js zlib net (ts 0) (raw frame) c of
        (Some e, c1) \<Rightarrow> Terminate e
      | (None, c1) \<Rightarrow> verify_loop js zlib net (\<lambda>i. ts (Suc i)) frames c1 (actual @ verify_line (cl_book c1)))"

definition runVerify :: "'v simdjson \<Rightarrow> zlib_crc32 \<Rightarrow> network \<Rightarrow> (string \<Rightarrow> bool) \<Rightarrow> ReplayerArgs \<Rightarrow> int \<Rightarrow> (nat \<Rightarrow> readings) \<Rightarrow> files
    \<Rightarrow> files \<times> unit outcome" where
  "runVerify js zlib net writable args t ts fs =
     (case loadFrames fs (rp_inPath args) of
        Exit n \<Rightarrow> (fs, Exit n)
      | Terminate e \<Rightarrow> (fs, Terminate e)
      | Continue frames \<Rightarrow>
          (case verify_loop js zlib net ts frames (tool_client args t) [] of
             Exit n \<Rightarrow> (fs, Exit n)
           | Terminate e \<Rightarrow> (fs, Terminate e)
           | Continue actual \<Rightarrow>
               if rp_updateGolden args
               then (if writable (rp_goldenPath args) then fs(rp_goldenPath args \<mapsto> actual) else fs, Exit 0)
               else (case fs (rp_goldenPath args) of
                       None \<Rightarrow> (fs, Exit 1)
                     | Some golden \<Rightarrow> if actual \<noteq> golden then (fs, Exit 1) else (fs, Exit 0))))"

section \<open>Lemmas\<close>

text \<open>The frames a recording captures.\<close>

fun captured :: "int \<Rightarrow> turn list \<Rightarrow> RecordedFrame list" where
  "captured deadline [] = []"
| "captured deadline (tn # tns) =
     (if tn_stop tn \<or> \<not> tn_now tn < deadline then []
      else case tn_read tn of Inl e \<Rightarrow> [] | Inr (ts, payload) \<Rightarrow> \<lparr>recvTsNanos = ts, raw = payload\<rparr> # captured deadline tns)"

lemma record_loop_captured: "record_loop deadline turns out = write_frames out (captured deadline turns)"
  by (induction deadline turns out rule: record_loop.induct) (auto simp: write_frames_def split: sum.splits)

lemma recorder_subscribes_like_client: "recorder_subscribe_text symbol = subscribe_text symbol"
proof -
  have "to_string 100 = ''100''" by code_simp
  then show ?thesis by (simp add: recorder_subscribe_text_def subscribe_text_def BOOK_DEPTH_def)
qed

text \<open>What the client does to its book does not depend on the clock.\<close>

definition timeless :: "Client \<Rightarrow> Client" where
  "timeless c = c\<lparr>deltasSinceSnapshot := 0, lastSnapshotTime := 0, cl_log := []\<rparr>"

lemma timeless_simps [simp]:
  "cl_book (timeless c) = cl_book c" "cl_symbol (timeless c) = cl_symbol c" "cl_ws (timeless c) = cl_ws c"
  "timeless (publishSnapshot now c) = timeless c" "timeless (maybePublishSnapshot t c) = timeless c"
  "timeless (emit ev c) = timeless c" "timeless (tick c) = timeless c"
  by (simp_all add: timeless_def publishSnapshot_def maybePublishSnapshot_def emit_def tick_def Let_def)

lemma book_checksum_timeless: "timeless c = timeless d \<Longrightarrow> book_checksum zlib c = book_checksum zlib d"
  by (intro ext) (cases c; cases d; simp add: timeless_def book_checksum_def)

lemma applied_timeless: "timeless c = timeless d \<Longrightarrow> timeless (applied zlib msg c) = timeless (applied zlib msg d)"
proof -
  assume eq: "timeless c = timeless d"
  have "cl_book c = cl_book d" using eq timeless_simps(1) by metis
  then show ?thesis using eq book_checksum_timeless [OF eq] by (cases c; cases d) (simp add: timeless_def applied_def)
qed

lemma resubscribe_timeless:
  assumes "timeless c = timeless d"
  shows "fst (resubscribeAndRebuild net c) = fst (resubscribeAndRebuild net d)
    \<and> timeless (snd (resubscribeAndRebuild net c)) = timeless (snd (resubscribeAndRebuild net d))"
proof -
  have "cl_ws c = cl_ws d" "cl_symbol c = cl_symbol d" "cl_book c = cl_book d" using assms timeless_simps(1-3) by metis+
  moreover have "timeless (c\<lparr>cl_book := b\<rparr>) = timeless (d\<lparr>cl_book := b\<rparr>)" for b using assms by (cases c; cases d) (simp add: timeless_def)
  ultimately show ?thesis using assms by (simp add: resubscribe_eq Let_def)
qed

lemma applyMessage_timeless:
  assumes "timeless c = timeless d"
  shows "fst (applyMessage zlib net t msg c) = fst (applyMessage zlib net t' msg d)
    \<and> timeless (snd (applyMessage zlib net t msg c)) = timeless (snd (applyMessage zlib net t' msg d))"
proof -
  have sym: "cl_symbol c = cl_symbol d" and book: "cl_book c = cl_book d" using assms timeless_simps(1,2) by metis+
  show ?thesis
  proof (cases "msg_symbol msg = cl_symbol c")
    case True
    then show ?thesis
      using sym book book_checksum_timeless [OF assms] applied_timeless [OF assms]
        resubscribe_timeless [OF applied_timeless [OF assms]]
      by (simp add: applyMessage_eq)
  next
    case False
    then show ?thesis using sym assms by (simp add: applyMessage_def)
  qed
qed

lemma handle_timeless:
  assumes "timeless c = timeless d"
  shows "fst (handle_parsed zlib net t parsed c) = fst (handle_parsed zlib net t' parsed d)
    \<and> timeless (snd (handle_parsed zlib net t parsed c)) = timeless (snd (handle_parsed zlib net t' parsed d))"
proof -
  have h: "handle_parsed zlib net t parsed c = (case parsed of Inl e \<Rightarrow> (Some e, c) | Inr None \<Rightarrow> (None, tick c)
      | Inr (Some msg) \<Rightarrow> (case applyMessage zlib net t msg c of (None, c1) \<Rightarrow> (None, tick c1) | (Some e, c1) \<Rightarrow> (Some e, c1)))" for t c
    by (auto simp: handle_parsed_def and_then_def tick_def split: sum.splits option.splits prod.splits)
  show ?thesis
    using assms applyMessage_timeless [OF assms, of zlib net t _ t']
    unfolding h by (auto split: sum.splits option.splits prod.splits) (metis fst_conv snd_conv option.distinct(1) option.inject)+
qed

lemma verify_timeless:
  "timeless c = timeless d \<Longrightarrow> verify_loop js zlib net ts frames c actual = verify_loop js zlib net ts' frames d actual"
proof (induction frames arbitrary: ts ts' c d actual)
  case (Cons frame frames)
  obtain exc c1 where c1: "handleMessage js zlib net (ts 0) (raw frame) c = (exc, c1)" by (rule prod.exhaust)
  obtain exc' d1 where d1: "handleMessage js zlib net (ts' 0) (raw frame) d = (exc', d1)" by (rule prod.exhaust)
  have e: "exc = exc'" and eq: "timeless c1 = timeless d1"
    using handle_timeless [OF Cons.prems, of zlib net "ts 0" "parseBookMessage js (raw frame)" "ts' 0"] c1 d1
    by (simp_all add: handleMessage_def)
  have "cl_book c1 = cl_book d1" using eq timeless_simps(1) by metis
  then show ?case using Cons.IH [OF eq] by (simp add: c1 d1 e split: option.splits)
qed simp

lemma verify_never_exits: "verify_loop js zlib net ts frames c actual \<noteq> Exit n"
  by (induction js zlib net ts frames c actual rule: verify_loop.induct) (auto split: prod.splits option.splits)

text \<open>Replaying a recording feeds the client the recorded texts in order, whatever the pauses.\<close>

lemma replay_loop_reads:
  "(case replay_loop js zlib net ts prev frames c of (exc, slept, c') \<Rightarrow> exc = None) \<Longrightarrow>
     snd (snd (replay_loop js zlib net ts prev frames c))
       = read_loop js zlib net (zip (map raw frames) (map ts [0..<length frames])) c"
proof (induction js zlib net ts prev frames c rule: replay_loop.induct)
  case (2 js zlib net ts prev frame frames c)
  obtain exc c1 where h: "handleMessage js zlib net (ts 0) (raw frame) c = (exc, c1)" by (rule prod.exhaust)
  have "exc = None" using 2(2) h by (cases exc) (simp_all add: Let_def)
  moreover have "map ts [0..<length (frame # frames)] = ts 0 # map (\<lambda>i. ts (Suc i)) [0..<length frames]"
    by (simp add: upt_conv_Cons map_Suc_upt [symmetric] o_def del: upt_Suc)
  ultimately show ?case
    using 2(1) [OF refl h [symmetric]] 2(2) by (simp add: h case_prod_unfold Let_def)
qed simp

section \<open>Properties\<close>

definition demo_turns :: "turn list" where
  "demo_turns = [\<lparr>tn_stop = False, tn_now = 0, tn_read = Inr (5, ''a'')\<rparr>, \<lparr>tn_stop = True, tn_now = 1, tn_read = Inr (6, ''b'')\<rparr>]"

text \<open>
  What the recorder writes the replayer reads. After a recording that ends
  with exit code 0, by a stop signal, by its deadline or by a connection error, the file
  at the output path loads as exactly the frames that were received until then, with their
  times; and the recorder subscribes with the same text as the engine's client.
\<close>

lemma recording_loads_back:
  assumes "recorder_parseArgs argv = Continue args"
    and "recorder_main argv writable (Inr True) now turns fs = (fs', Exit 0)"
    and "list_all frame_ok (captured (now + ra_durationSeconds args) turns)"
  shows "loadFrames fs' (ra_outPath args) = Continue (captured (now + ra_durationSeconds args) turns)
    \<and> recorder_subscribe_text (ra_symbol args) = subscribe_text (ra_symbol args)"
proof -
  have "fs' = fs(ra_outPath args \<mapsto> write_frames (writeRecordedSessionHeader []) (captured (now + ra_durationSeconds args) turns))"
    using assms(1,2) by (auto simp: recorder_main_def record_loop_captured split: if_splits)
  then show ?thesis
    using session_written [OF assms(3)] recorder_subscribes_like_client by (simp add: loadFrames_def)
qed

text \<open>
  C34 (equivalence): the golden-file check is reproducible. If a run that updates the golden
  file ends with exit code 0, every later verification of the same recording against that
  file succeeds, although the two runs read different clock values; and against a file with
  any other content it fails with exit code 1.
\<close>

theorem verify_reproducible:
  assumes "runVerify js zlib net writable (args\<lparr>rp_updateGolden := True\<rparr>) t ts fs = (fs', Exit 0)"
    and "writable (rp_goldenPath args)" and "rp_goldenPath args \<noteq> rp_inPath args" and "loadFrames fs (rp_inPath args) = Continue frames"
  shows "runVerify js zlib net writable (args\<lparr>rp_updateGolden := False\<rparr>) t' ts' fs' = (fs', Exit 0)
    \<and> (\<forall>other. Some other \<noteq> fs' (rp_goldenPath args) \<longrightarrow>
         runVerify js zlib net writable (args\<lparr>rp_updateGolden := False\<rparr>) t' ts' (fs'(rp_goldenPath args \<mapsto> other))
           = (fs'(rp_goldenPath args \<mapsto> other), Exit 1))"
proof -
  let ?run = "\<lambda>ts t. verify_loop js zlib net ts frames (tool_client args t) []"
  have cl: "tool_client (args\<lparr>rp_updateGolden := b\<rparr>) t = tool_client args t" for b t by (simp add: tool_client_def)
  have "timeless (tool_client args t) = timeless (tool_client args t')" by (simp add: timeless_def tool_client_def new_client_def)
  then have same: "?run ts' t' = ?run ts t" by (rule verify_timeless [symmetric])
  obtain actual where a: "?run ts t = Continue actual" and fs': "fs' = fs(rp_goldenPath args \<mapsto> actual)"
    using assms(1,2,4) by (cases "?run ts t") (auto simp: runVerify_def cl verify_never_exits)
  have "loadFrames (fs(rp_goldenPath args \<mapsto> x)) (rp_inPath args) = Continue frames" for x
    using assms(3,4) by (simp add: loadFrames_def)
  then show ?thesis using a same by (auto simp: runVerify_def cl fs')
qed

definition demo_args :: ReplayerArgs where
  "demo_args = default_replayer_args\<lparr>rp_mode := ''verify'', rp_inPath := ''in'', rp_goldenPath := ''golden''\<rparr>"

definition demo_files :: files where
  "demo_files = [''in'' \<mapsto> write_frames (writeRecordedSessionHeader []) [\<lparr>recvTsNanos = 5, raw = ''{}''\<rparr>]]"

theorem verify_reproducible_witness:
  "\<exists>fs'. runVerify (tree_js (Obj [])) demo_zlib (\<lambda>_. True) (\<lambda>_. True) (demo_args\<lparr>rp_updateGolden := True\<rparr>) 0 (\<lambda>_. (0, 0)) demo_files = (fs', Exit 0)
     \<and> runVerify (tree_js (Obj [])) demo_zlib (\<lambda>_. True) (\<lambda>_. True) (demo_args\<lparr>rp_updateGolden := False\<rparr>) 9 (\<lambda>_. (10, 11)) fs' = (fs', Exit 0)"
proof -
  let ?js = "tree_js (Obj [])" and ?net = "\<lambda>_ :: string. True"
  let ?f = "\<lparr>recvTsNanos = 5, raw = ''{}''\<rparr>"
  have l: "loadFrames demo_files (rp_inPath demo_args) = Continue [?f]"
    using session_written [of "[?f]"] by (simp add: loadFrames_def demo_files_def demo_args_def frame_ok_def)
  have h: "fst (handleMessage ?js demo_zlib ?net t ''{}'' c) = None" for t c
    by (simp add: handleMessage_def handle_parsed_def and_then_def parseBookMessage_def tree_js_def field_string_def bind_result_def)
  have v: "verify_loop ?js demo_zlib ?net (\<lambda>_. (0, 0)) [?f] c [] = Continue (verify_line (cl_book (snd (handleMessage ?js demo_zlib ?net (0, 0) ''{}'' c))))" for c
    using h [of "(0, 0)" c] by (cases "handleMessage ?js demo_zlib ?net (0, 0) ''{}'' c") simp
  obtain fs' where r: "runVerify ?js demo_zlib ?net ?net (demo_args\<lparr>rp_updateGolden := True\<rparr>) 0 (\<lambda>_. (0, 0)) demo_files = (fs', Exit 0)"
    using l v by (simp add: runVerify_def)
  show ?thesis using verify_reproducible [OF r _ _ l] r by (simp add: demo_args_def)
qed

end
