(* ===== verification/Worker_Threads.thy ===== *)
theory Worker_Threads
  imports Market_Feed Replay_Tools
begin

text \<open>
  The thread that the symbol registry starts for a symbol: \<^verbatim>\<open>clientPtr->run()\<close>, or
  \<^verbatim>\<open>replaySessionIntoClient\<close> when a recording is replayed, at the end of
  \<^verbatim>\<open>SymbolRegistry::subscribe\<close> in \<^verbatim>\<open>engine/src/symbol/symbol_registry.cpp\<close>.

  The messages of a live connection are steps of the registry, one by one, in any number and
  any order with the other steps; the loop of \<^verbatim>\<open>run\<close> itself is in the theory of the client. The
  loop of the replay thread is written out here over the registry: every message runs the
  callbacks, which publish to shared memory and feed the matching engine. The lemmas show that
  such a thread takes steps of the registry only, and does to its client exactly what the replay
  does without a registry. Clock readings of a callback are numbered by the frame and the event.
\<close>

section \<open>Definitions\<close>

text \<open>
  One message. An exception of a callback (a symbol that is too long, which a subscribed one
  is not) would leave the message unfinished; the state is then not followed any further.
\<close>

definition thread_message :: "'v simdjson \<Rightarrow> zlib_crc32 \<Rightarrow> network \<Rightarrow> readings \<Rightarrow> (nat \<Rightarrow> clocks) \<Rightarrow> string \<Rightarrow> string
    \<Rightarrow> SymbolRegistry \<Rightarrow> cpp_exception option \<times> SymbolRegistry" where
  "thread_message js zlib net t cks key payload reg =
     (case entries reg key of
        None \<Rightarrow> (None, reg)
      | Some en \<Rightarrow>
          (case worker_message js zlib net t cks key payload (start_worker en reg) of
             Inl e \<Rightarrow> (Some e, reg)
           | Inr w \<Rightarrow> (fst (handleMessage js zlib net t payload (en_client en)),
                        finish_worker w (reg\<lparr>entries := (entries reg)(key \<mapsto> wk_entry w)\<rparr>))))"

text \<open>The replay thread, over the frames of a recording; an exception of a message is not caught.\<close>

fun thread_replay_loop :: "'v simdjson \<Rightarrow> zlib_crc32 \<Rightarrow> network \<Rightarrow> (nat \<Rightarrow> readings) \<Rightarrow> (nat \<Rightarrow> nat \<Rightarrow> clocks) \<Rightarrow> string \<Rightarrow> nat
    \<Rightarrow> u64 option \<Rightarrow> RecordedFrame list \<Rightarrow> SymbolRegistry \<Rightarrow> cpp_exception option \<times> int list \<times> SymbolRegistry" where
  "thread_replay_loop js zlib net ts cks key n prev [] reg = (None, [], reg)"
| "thread_replay_loop js zlib net ts cks key n prev (frame # frames) reg =
     (let slept = (case prev of None \<Rightarrow> [] | Some p \<Rightarrow> pause p (recvTsNanos frame))
      in case thread_message js zlib net (ts n) (cks n) key (raw frame) reg of
           (Some e, reg1) \<Rightarrow> (Some e, slept, reg1)
         | (None, reg1) \<Rightarrow>
             let (exc, more, reg2) = thread_replay_loop js zlib net ts cks key (Suc n) (Some (recvTsNanos frame)) frames reg1
             in (exc, slept @ more, reg2))"

definition thread_replay :: "'v simdjson \<Rightarrow> zlib_crc32 \<Rightarrow> network \<Rightarrow> (nat \<Rightarrow> readings) \<Rightarrow> (nat \<Rightarrow> nat \<Rightarrow> clocks) \<Rightarrow> files \<Rightarrow> string
    \<Rightarrow> string \<Rightarrow> SymbolRegistry \<Rightarrow> cpp_exception option \<times> int list \<times> SymbolRegistry" where
  "thread_replay js zlib net ts cks fs path key reg =
     (case fs path of
        None \<Rightarrow> (None, [], reg)
      | Some bytes \<Rightarrow>
          (case readAllRecordedFrames (open_stream bytes) of
             Inl e \<Rightarrow> (None, [], reg)
           | Inr frames \<Rightarrow> thread_replay_loop js zlib net ts cks key 0 None frames reg))"

section \<open>Lemmas\<close>

text \<open>The thread of a symbol whose client is \<open>c\<close>.\<close>

definition serves :: "string \<Rightarrow> Client \<Rightarrow> SymbolRegistry \<Rightarrow> bool" where
  "serves key c reg \<longleftrightarrow> (\<exists>en. entries reg key = Some en \<and> en_client en = c \<and> feeding en \<and> cl_symbol c = key)"

lemma thread_message_client:
  assumes "serves key c reg" and "thread_message js zlib net t cks key payload reg = (exc, reg')"
  obtains c' where "handleMessage js zlib net t payload c = (exc, c')" and "serves key c' reg'" and "registry_step reg reg'"
proof -
  obtain en where en: "entries reg key = Some en" "en_client en = c" "feeding en" "cl_symbol c = key"
    using assms(1) by (auto simp: serves_def)
  obtain x c' where h: "handleMessage js zlib net t payload c = (x, c')" by (rule prod.exhaust)
  have "length key < SYMBOL_BYTES" using en by (auto simp: feeding_def)
  then obtain w where w: "worker_message js zlib net t cks key payload (start_worker en reg) = Inr w"
    using dispatch_all_total by (force simp: worker_message_def worker_parsed_def Let_def case_prod_unfold)
  then have wp: "worker_parsed zlib net t cks key (parseBookMessage js payload) (start_worker en reg) = Inr w" by (simp add: worker_message_def)
  have reg': "exc = x" "reg' = finish_worker w (reg\<lparr>entries := (entries reg)(key \<mapsto> wk_entry w)\<rparr>)"
    using assms(2) en w h by (simp_all add: thread_message_def)
  have "en_client (wk_entry w) = c'" using h wp en(2) unfolding handleMessage_def by (blast intro: worker_client)
  then have "serves key c' reg'"
    using worker_feeding [OF en(3) wp] worker_symbol [OF wp] en(2,4) by (auto simp: serves_def reg'(2))
  moreover have "registry_step reg reg'" unfolding reg'(2) using en(1) wp parse_in_range by (rule registry_step.work)
  ultimately show ?thesis using that h reg'(1) by blast
qed

lemma thread_replay_loop_client:
  assumes "serves key c reg" and "thread_replay_loop js zlib net ts cks key n prev frames reg = (exc, slept, reg')"
  shows "\<exists>c'. replay_loop js zlib net (\<lambda>i. ts (n + i)) prev frames c = (exc, slept, c') \<and> serves key c' reg' \<and> rtranclp registry_step reg reg'"
  using assms
proof (induction frames arbitrary: c reg n prev slept)
  case (Cons frame frames)
  obtain x reg1 where m: "thread_message js zlib net (ts n) (cks n) key (raw frame) reg = (x, reg1)" by (rule prod.exhaust)
  obtain c1 where c1: "handleMessage js zlib net (ts n) (raw frame) c = (x, c1)" "serves key c1 reg1" "registry_step reg reg1"
    using Cons.prems(1) m by (rule thread_message_client)
  show ?case
  proof (cases x)
    case (Some e)
    then show ?thesis using Cons.prems(2) m c1 by (auto simp: Let_def)
  next
    case None
    obtain more where r: "thread_replay_loop js zlib net ts cks key (Suc n) (Some (recvTsNanos frame)) frames reg1 = (exc, more, reg')"
      "slept = (case prev of None \<Rightarrow> [] | Some p \<Rightarrow> pause p (recvTsNanos frame)) @ more"
      using Cons.prems(2) m None by (auto simp: Let_def split: prod.splits)
    obtain c' where c': "replay_loop js zlib net (\<lambda>i. ts (Suc n + i)) (Some (recvTsNanos frame)) frames c1 = (exc, more, c')"
      "serves key c' reg'" "rtranclp registry_step reg1 reg'"
      using Cons.IH [OF c1(2) r(1)] by blast
    have "replay_loop js zlib net (\<lambda>i. ts (n + i)) prev (frame # frames) c = (exc, slept, c')"
      using c1(1) None c'(1) r(2) by simp
    then show ?thesis using c'(2,3) c1(3) by (auto intro: converse_rtranclp_into_rtranclp)
  qed
qed simp


text \<open>Every subscribed symbol of a reachable registry is served by such a thread.\<close>

lemma reachable_serves:
  assumes "rtranclp registry_step (new_registry (open_segment existing)) reg" and "usable existing" and "entries reg key = Some en"
  shows "serves key (en_client en) reg"
  using feed_reachable [OF assms(1,2)] holdsD [OF _ assms(3)] assms(3) by (auto simp: serves_def registry_inv_def)

section \<open>Properties\<close>

text \<open>
  C33 (round trip): a recording replays into the engine. What the recorder wrote until it ended
  with exit code 0, the replay thread of a subscribed symbol handles frame by frame, with the
  recorded pauses: its client ends exactly as if the captured frames had been given to it
  directly, and the registry has taken only its own steps.
\<close>

theorem recording_replays_into_engine:
  assumes "recorder_parseArgs argv = Continue args"
    and "recorder_main argv writable (Inr True) now turns fs = (fs', Exit 0)"
    and "list_all frame_ok (captured (now + ra_durationSeconds args) turns)"
    and "rtranclp registry_step (new_registry (open_segment existing)) reg" and "usable existing" and "entries reg key = Some en"
    and "thread_replay js zlib net ts cks fs' (ra_outPath args) key reg = (exc, slept, reg')"
  shows "\<exists>en'. entries reg' key = Some en' \<and> rtranclp registry_step reg reg'
    \<and> replay_loop js zlib net ts None (captured (now + ra_durationSeconds args) turns) (en_client en) = (exc, slept, en_client en')"
proof -
  let ?frames = "captured (now + ra_durationSeconds args) turns"
  have "loadFrames fs' (ra_outPath args) = Continue ?frames" using recording_loads_back [OF assms(1-3)] by simp
  then have "thread_replay_loop js zlib net ts cks key 0 None ?frames reg = (exc, slept, reg')"
    using assms(7) by (auto simp: thread_replay_def loadFrames_def split: option.splits sum.splits)
  from thread_replay_loop_client [OF reachable_serves [OF assms(4-6)] this] show ?thesis by (auto simp: serves_def)
qed

theorem recording_replays_into_engine_witness:
  "\<exists>fs' reg en reg' en' exc slept. recorder_main [''--out'', ''f''] (\<lambda>_. True) (Inr True) 0 demo_turns Map.empty = (fs', Exit 0)
     \<and> entries reg ''BTC/USD'' = Some en
     \<and> thread_replay (tree_js demo_tree) demo_zlib (\<lambda>_. True) (\<lambda>_. (1, 1)) (\<lambda>_ _. demo_clocks) fs' ''f'' ''BTC/USD'' reg = (exc, slept, reg')
     \<and> entries reg' ''BTC/USD'' = Some en'
     \<and> replay_loop (tree_js demo_tree) demo_zlib (\<lambda>_. True) (\<lambda>_. (1, 1)) None [\<lparr>recvTsNanos = 5, raw = ''a''\<rparr>] (en_client en)
         = (exc, slept, en_client en')"
proof -
  let ?args = "default_recorder_args\<lparr>ra_outPath := ''f''\<rparr>" and ?key = "''BTC/USD''"
  have a: "recorder_parseArgs [''--out'', ''f''] = Continue ?args" by (simp add: recorder_parseArgs_def Let_def)
  have c: "captured (0 + ra_durationSeconds ?args) demo_turns = [\<lparr>recvTsNanos = 5, raw = ''a''\<rparr>]"
    by (simp add: demo_turns_def default_recorder_args_def)
  obtain fs' where m: "recorder_main [''--out'', ''f''] (\<lambda>_. True) (Inr True) 0 demo_turns Map.empty = (fs', Exit 0)"
    by (simp add: recorder_main_def a)
  have ok: "list_all frame_ok (captured (0 + ra_durationSeconds ?args) demo_turns)" unfolding c by (simp add: frame_ok_def)
  obtain reg i where s: "registry_step (new_registry (open_segment None)) reg"
    and e: "entries reg = [?key \<mapsto> new_entry 0 demo_precision ?key i]" by (rule demo_subscribed)
  have en: "entries reg ?key = Some (new_entry 0 demo_precision ?key i)" by (simp add: e)
  obtain exc slept reg' where
    t: "thread_replay (tree_js demo_tree) demo_zlib (\<lambda>_. True) (\<lambda>_. (1, 1)) (\<lambda>_ _. demo_clocks) fs' (ra_outPath ?args) ?key reg = (exc, slept, reg')"
    by (rule prod_cases3)
  from recording_replays_into_engine [OF a m ok r_into_rtranclp [of registry_step, OF s] demo_usable en t]
  obtain en' where "entries reg' ?key = Some en'"
    and "replay_loop (tree_js demo_tree) demo_zlib (\<lambda>_. True) (\<lambda>_. (1, 1)) None [\<lparr>recvTsNanos = 5, raw = ''a''\<rparr>]
      (en_client (new_entry 0 demo_precision ?key i)) = (exc, slept, en_client en')"
    unfolding c by blast
  moreover have "ra_outPath ?args = ''f''" by simp
  ultimately show ?thesis using m en t by metis
qed

end
