(* ===== verification/Control_Server.thy ===== *)
theory Control_Server
  imports Market_Feed
begin

text \<open>
  The gRPC service of the engine, \<^verbatim>\<open>engine/include/engine/control/control_server.hpp\<close> and
  \<^verbatim>\<open>engine/src/control/control_server.cpp\<close>: each handler translates a request, calls the
  symbol registry and translates the result.

  The messages are those of \<^verbatim>\<open>engine/proto/paper_trader.proto\<close>, with its open enumerations as
  integers. A handler is one call that no other call interrupts, except that
  \<^verbatim>\<open>PlaceOrder\<close> and \<^verbatim>\<open>CancelOrder\<close> wait for a worker: what happens meanwhile is the parameter
  \<open>meanwhile\<close>, which gives the registry when the wait ends and the answer, or no answer after
  the timeout. The environment of \<^verbatim>\<open>WatchFills\<close> is the list of its polls. One watcher is followed:
  the code allows several calls at a time, which share the fills of the queue between them, each
  fill going to one.
\<close>

section \<open>Definitions\<close>

definition kWatchFillsPollInterval :: int where "kWatchFillsPollInterval = 500"

definition ASK :: int where "ASK = 1"
definition LIMIT :: int where "LIMIT = 1"

record PlaceOrderRequest =
  pr_symbol :: string
  pr_side :: int
  pr_type :: int
  pr_price_ticks :: int
  pr_size_ticks :: int
  pr_client_request_id :: string

record SubscribeReply =
  sr_ok :: bool
  sr_reason :: string

record OrderReply =
  or_accepted :: bool
  or_engine_order_id :: u64
  or_reject_reason :: string
  or_filled_size_ticks :: int

record FillEvent =
  fe_engine_order_id :: u64
  fe_price_ticks :: int
  fe_size_ticks :: int
  fe_ts :: u64

record ControlService =
  cs_registry :: SymbolRegistry
  instanceId :: u64

definition toBookSide :: "int \<Rightarrow> BookSide" where
  "toBookSide side = (if side = ASK then Ask else Bid)"

definition toOrderType :: "int \<Rightarrow> OrderType" where
  "toOrderType type = (if type = LIMIT then Limit else Market)"

definition fillOrderReply :: "OrderResult \<Rightarrow> OrderReply" where
  "fillOrderReply result = \<lparr>or_accepted = accepted result, or_engine_order_id = result_orderId result,
     or_reject_reason = rejectReason result, or_filled_size_ticks = qty_ticks (filledSize result)\<rparr>"

definition subscribe_reply :: "SubscribeResult \<Rightarrow> SubscribeReply" where
  "subscribe_reply result = \<lparr>sr_ok = sub_ok result, sr_reason = sub_reason result\<rparr>"

definition SubscribeBook :: "(string \<Rightarrow> SymbolPrecision option) \<Rightarrow> int \<Rightarrow> string \<Rightarrow> ControlService \<Rightarrow> ControlService \<times> SubscribeReply" where
  "SubscribeBook precisionLookup t symbol svc =
     (let (reg, result) = Symbol_Registry.subscribe precisionLookup t symbol (cs_registry svc)
      in (svc\<lparr>cs_registry := reg\<rparr>, subscribe_reply result))"

text \<open>\<^verbatim>\<open>unsubscribe\<close> with the teardown of an entry it removed.\<close>

definition unsubscribe :: "string \<Rightarrow> SymbolRegistry \<Rightarrow> SymbolRegistry \<times> SubscribeResult" where
  "unsubscribe symbol reg =
     (let (reg1, result) = unsubscribe_begin symbol reg; shouldTeardown = length (reg_leaving reg) < length (reg_leaving reg1)
      in (if shouldTeardown then unsubscribe_finish (length (reg_leaving reg)) reg1 else reg1, result))"

definition UnsubscribeBook :: "string \<Rightarrow> ControlService \<Rightarrow> ControlService \<times> SubscribeReply" where
  "UnsubscribeBook symbol svc =
     (let (reg, result) = unsubscribe symbol (cs_registry svc) in (svc\<lparr>cs_registry := reg\<rparr>, subscribe_reply result))"

type_synonym waiting = "string \<Rightarrow> OrderRequest \<Rightarrow> SymbolRegistry \<Rightarrow> SymbolRegistry \<times> OrderResult option"

text \<open>The registry's two calls around the wait: the request is pushed to the inbox before it.\<close>

definition registry_placeOrder :: "waiting \<Rightarrow> string \<Rightarrow> BookSide \<Rightarrow> OrderType \<Rightarrow> Price \<Rightarrow> Quantity \<Rightarrow> SymbolRegistry
    \<Rightarrow> SymbolRegistry \<times> OrderResult" where
  "registry_placeOrder meanwhile key side type price sz reg =
     (case place_submit key side type price sz reg of
        (reg1, Inl result) \<Rightarrow> (reg1, result)
      | (reg1, Inr orderId) \<Rightarrow>
          let rq = snd (last (reg_unsent reg1));
              (reg2, answer) = meanwhile key rq (push_request (length (reg_unsent reg)) reg1)
          in place_finish key orderId answer reg2)"

definition registry_cancelOrder :: "waiting \<Rightarrow> u64 \<Rightarrow> SymbolRegistry \<Rightarrow> SymbolRegistry \<times> OrderResult" where
  "registry_cancelOrder meanwhile engineOrderId reg =
     (case cancel_submit engineOrderId reg of
        (reg1, Inl result) \<Rightarrow> (reg1, result)
      | (reg1, Inr key) \<Rightarrow>
          let rq = snd (last (reg_unsent reg1));
              (reg2, answer) = meanwhile key rq (push_request (length (reg_unsent reg)) reg1)
          in cancel_finish engineOrderId answer reg2)"

definition PlaceOrder :: "waiting \<Rightarrow> PlaceOrderRequest \<Rightarrow> ControlService \<Rightarrow> ControlService \<times> OrderReply" where
  "PlaceOrder meanwhile request svc =
     (let (reg, result) = registry_placeOrder meanwhile (pr_symbol request) (toBookSide (pr_side request))
            (toOrderType (pr_type request)) (Price (pr_price_ticks request)) (Quantity (pr_size_ticks request)) (cs_registry svc)
      in (svc\<lparr>cs_registry := reg\<rparr>, fillOrderReply result))"

definition CancelOrder :: "waiting \<Rightarrow> u64 \<Rightarrow> ControlService \<Rightarrow> ControlService \<times> OrderReply" where
  "CancelOrder meanwhile engine_order_id svc =
     (let (reg, result) = registry_cancelOrder meanwhile engine_order_id (cs_registry svc)
      in (svc\<lparr>cs_registry := reg\<rparr>, fillOrderReply result))"

definition GetEngineInfo :: "ControlService \<Rightarrow> u64" where
  "GetEngineInfo svc = instanceId svc"

subsection \<open>The stream of fills\<close>

text \<open>One poll: whether the call was cancelled, the fills pushed while it waits, whether the write succeeds.\<close>

record poll =
  pl_cancelled :: bool
  pl_arrivals :: "Fill list"
  pl_write_ok :: bool

definition fill_event :: "Fill \<Rightarrow> FillEvent" where
  "fill_event fill = \<lparr>fe_engine_order_id = fill_orderId fill, fe_price_ticks = price_ticks (fill_price fill),
     fe_size_ticks = qty_ticks (fill_size fill), fe_ts = fill_timestamp fill\<rparr>"

text \<open>The loop of \<^verbatim>\<open>WatchFills\<close>: the registry, the events written, and the polls not reached.\<close>

fun WatchFills :: "poll list \<Rightarrow> SymbolRegistry \<Rightarrow> SymbolRegistry \<times> FillEvent list \<times> poll list" where
  "WatchFills [] reg = (reg, [], [])"
| "WatchFills (p # ps) reg =
     (if pl_cancelled p then (reg, [], p # ps)
      else case waitForFill (fold pushFill (pl_arrivals p) reg) of
             (reg1, None) \<Rightarrow> WatchFills ps reg1
           | (reg1, Some fill) \<Rightarrow>
               if \<not> pl_write_ok p then (reg1, [], ps)
               else let (reg2, events, rest) = WatchFills ps reg1 in (reg2, fill_event fill # events, rest))"

text \<open>
  A wait during which the worker of the symbol handles one heartbeat: a message without
  book data, after which the client's tick drains the inbox.
\<close>

definition answer_for :: "OrderRequest \<Rightarrow> SymbolRegistry \<Rightarrow> OrderResult option" where
  "answer_for rq reg = map_of (rev (reg_answers reg)) rq"

definition heartbeat :: "zlib_crc32 \<Rightarrow> network \<Rightarrow> readings \<Rightarrow> (nat \<Rightarrow> clocks) \<Rightarrow> waiting" where
  "heartbeat zlib net t cks key rq reg =
     (case entries reg key of
        None \<Rightarrow> (reg, None)
      | Some en \<Rightarrow>
          (case worker_parsed zlib net t cks key (Inr None) (start_worker en reg) of
             Inl e \<Rightarrow> (reg, None)
           | Inr w \<Rightarrow>
               let reg' = finish_worker w (reg\<lparr>entries := (entries reg)(key \<mapsto> wk_entry w)\<rparr>) in (reg', answer_for rq reg')))"

section \<open>Lemmas\<close>

lemma fold_pushFill: "fold pushFill fs reg = reg\<lparr>fillQueue := fillQueue reg @ fs\<rparr>"
  by (induction fs arbitrary: reg) (simp_all add: pushFill_def)

definition used_polls :: "poll list \<Rightarrow> poll list \<Rightarrow> poll list" where
  "used_polls ps rest = take (length ps - length rest) ps"

lemma watch_rest: "WatchFills ps reg = (reg', events, rest) \<Longrightarrow> length rest \<le> length ps"
proof (induction ps reg arbitrary: reg' events rest rule: WatchFills.induct)
  case (2 p ps reg)
  then show ?case by (auto split: if_splits prod.splits option.splits) fastforce+
qed simp

lemma used_polls_Cons: "length rest \<le> length ps \<Longrightarrow> used_polls (p # ps) rest = p # used_polls ps rest"
  by (simp add: used_polls_def Suc_diff_le)

text \<open>Fills leave the queue in order; only the one of a failed write is lost.\<close>

lemma watch_fills_conserved:
  assumes "WatchFills ps reg = (reg', events, rest)"
  shows "\<exists>sent lost. fillQueue reg @ concat (map pl_arrivals (used_polls ps rest)) = sent @ lost @ fillQueue reg'
    \<and> events = map fill_event sent \<and> length lost \<le> 1 \<and> (list_all pl_write_ok ps \<longrightarrow> lost = [])"
  using assms
proof (induction ps reg arbitrary: reg' events rest rule: WatchFills.induct)
  case (1 reg)
  then show ?case by (auto simp: used_polls_def)
next
  case (2 p ps reg)
  show ?case
  proof (cases "pl_cancelled p")
    case True
    then show ?thesis using 2(3) by (auto simp: used_polls_def)
  next
    case False
    let ?reg0 = "fold pushFill (pl_arrivals p) reg"
    obtain reg1 out where w: "waitForFill ?reg0 = (reg1, out)" by (rule prod.exhaust)
    have q0: "fillQueue ?reg0 = fillQueue reg @ pl_arrivals p" by (simp add: fold_pushFill)
    show ?thesis
    proof (cases out)
      case None
      then have q: "fillQueue reg1 = fillQueue reg @ pl_arrivals p" using w q0 by (auto simp: waitForFill_def split: list.splits)
      have r: "WatchFills ps reg1 = (reg', events, rest)" using 2(3) False w None by simp
      show ?thesis
        using 2(1) [OF False w [symmetric] None r] q used_polls_Cons [OF watch_rest [OF r]] by auto
    next
      case (Some fill)
      then have q: "fillQueue reg @ pl_arrivals p = fill # fillQueue reg1" using w q0 by (auto simp: waitForFill_def split: list.splits)
      show ?thesis
      proof (cases "pl_write_ok p")
        case True
        obtain events' where r: "WatchFills ps reg1 = (reg', events', rest)" and e: "events = fill_event fill # events'"
          using 2(3) False w Some True by (auto split: prod.splits)
        obtain sent lost where IH: "fillQueue reg1 @ concat (map pl_arrivals (used_polls ps rest)) = sent @ lost @ fillQueue reg'"
          "events' = map fill_event sent" "length lost \<le> 1" "list_all pl_write_ok ps \<longrightarrow> lost = []"
          using 2(2) [OF False w [symmetric] Some _ r] True by blast
        have "fillQueue reg @ concat (map pl_arrivals (used_polls (p # ps) rest)) = (fill # sent) @ lost @ fillQueue reg'"
          using q IH(1) used_polls_Cons [OF watch_rest [OF r]] by (metis append.assoc append_Cons concat.simps(2) list.simps(9))
        then show ?thesis using e IH(2-4) by (intro exI [of _ "fill # sent"] exI [of _ lost]) simp
      next
        case no: False
        then have "reg' = reg1" "events = []" "rest = ps" using 2(3) False w Some by simp_all
        then show ?thesis using q no by (intro exI [of _ "[]"] exI [of _ "[fill]"]) (simp add: used_polls_def)
      qed
    qed
  qed
qed

subsection \<open>Orders answered at a heartbeat\<close>

lemma heartbeat_worker:
  assumes "cl_onTick (en_client en)"
  shows "worker_parsed zlib net t cks key (Inr None) (start_worker en reg)
    = Inr (drainInbox (cks 0) (start_worker (en\<lparr>en_client := emit OnTick (en_client en)\<rparr>) reg))"
proof -
  have "handle_parsed zlib net t (Inr None) (en_client en) = (None, emit OnTick (en_client en))"
    using assms by (simp add: handle_parsed_def and_then_def)
  then show ?thesis by (simp add: worker_parsed_def start_worker_def new_events_def emit_def bind_result_def Let_def)
qed

lemma finish_worker_answers [simp]: "reg_answers (finish_worker w reg) = reg_answers reg @ wk_answers w"
  "orderIdToSymbol (finish_worker w reg) = orderIdToSymbol reg"
  by (simp_all add: finish_worker_def fold_pushFill)

lemma drain_snoc:
  "drain book nows rqs e = (e1, fs1, answers) \<Longrightarrow> serve book (nows (length rqs)) rq e1 = (e', fs, res) \<Longrightarrow>
     drain book nows (rqs @ [rq]) e = (e', fs1 @ fs, answers @ [(rq, res)])"
  by (induction rqs arbitrary: nows e fs1 answers) (auto simp: Let_def split: prod.splits)

text \<open>The last request of the inbox is answered at a heartbeat, after those before it.\<close>

lemma heartbeat_serves:
  assumes "entries reg key = Some en" and "cl_onTick (en_client en)" and "en_inbox en = rqs @ [rq]"
    and "drain (cl_book (en_client en)) (ck_orders (cks 0)) rqs (en_engine en) = (e1, fs1, answers)"
    and "serve (cl_book (en_client en)) (ck_orders (cks 0) (length rqs)) rq e1 = (e', fs, res)"
    and "heartbeat zlib net t cks key rq reg = (reg', answer)"
  shows "answer = Some res" and "fillQueue reg' = fillQueue reg @ fs1 @ fs" and "orderIdToSymbol reg' = orderIdToSymbol reg"
    and "\<exists>en'. entries reg' = (entries reg)(key \<mapsto> en') \<and> en_engine en' = e' \<and> en_inbox en' = [] \<and> cl_onTick (en_client en')"
proof -
  let ?w = "drainInbox (cks 0) (start_worker (en\<lparr>en_client := emit OnTick (en_client en)\<rparr>) reg)"
  have book: "cl_book (emit OnTick (en_client en)) = cl_book (en_client en)" "cl_onTick (emit OnTick (en_client en))"
    using assms(2) by (simp_all add: emit_def)
  have w: "wk_fills ?w = fs1 @ fs" "wk_answers ?w = answers @ [(rq, res)]" "en_engine (wk_entry ?w) = e'" "en_inbox (wk_entry ?w) = []"
    "cl_onTick (en_client (wk_entry ?w))"
    using assms(3) drain_snoc [OF assms(4,5)] book by (simp_all add: drainInbox_def start_worker_def Let_def)
  have reg': "reg' = finish_worker ?w (reg\<lparr>entries := (entries reg)(key \<mapsto> wk_entry ?w)\<rparr>)" "answer = answer_for rq reg'"
    using assms(1,6) heartbeat_worker [OF assms(2)] by (auto simp: heartbeat_def Let_def)
  show "answer = Some res" unfolding reg'(2) answer_for_def reg'(1) by (simp add: w)
  show "fillQueue reg' = fillQueue reg @ fs1 @ fs" "orderIdToSymbol reg' = orderIdToSymbol reg" unfolding reg'(1) by (simp_all add: w)
  show "\<exists>en'. entries reg' = (entries reg)(key \<mapsto> en') \<and> en_engine en' = e' \<and> en_inbox en' = [] \<and> cl_onTick (en_client en')"
    unfolding reg'(1) using w by (intro exI [of _ "wk_entry ?w"]) simp
qed

text \<open>The request that was just built is the one that is pushed.\<close>

lemma push_last:
  assumes "reg_unsent reg1 = us @ [(key, rq)]" and "entries reg1 key = Some en"
  shows "entries (push_request (length us) reg1) key = Some (push_inbox rq en)"
    and "fillQueue (push_request (length us) reg1) = fillQueue reg1"
    and "orderIdToSymbol (push_request (length us) reg1) = orderIdToSymbol reg1"
  using assms by (simp_all add: push_request_def nth_append)

lemma placeOrder_at_heartbeat:
  assumes "entries reg key = Some en" and "cl_onTick (en_client en)"
    and "drain (cl_book (en_client en)) (ck_orders (cks 0)) (en_inbox en) (en_engine en) = (e1, fs1, answers)"
    and "placeOrder (cl_book (en_client en)) (ck_orders (cks 0) (length (en_inbox en))) e1 (nextOrderId reg) side type price sz = (e', fs, res)"
    and "registry_placeOrder (heartbeat zlib net t cks) key side type price sz reg = (reg', result)"
  shows "result = res" and "fillQueue reg' = fillQueue reg @ fs1 @ fs"
    and "orderIdToSymbol reg' = (if accepted res then (orderIdToSymbol reg)(nextOrderId reg \<mapsto> key) else orderIdToSymbol reg)"
    and "\<exists>en'. entries reg' key = Some en' \<and> en_engine en' = e' \<and> en_inbox en' = [] \<and> cl_onTick (en_client en')"
proof -
  let ?rq = "\<lparr>rq_kind = Place, rq_side = side, rq_type = type, rq_price = price, rq_size = sz, rq_orderId = nextOrderId reg\<rparr>"
  let ?reg1 = "reg\<lparr>nextOrderId := nextOrderId reg + 1, reg_unsent := reg_unsent reg @ [(key, ?rq)]\<rparr>"
  let ?reg2 = "push_request (length (reg_unsent reg)) ?reg1"
  have sub: "place_submit key side type price sz reg = (?reg1, Inr (nextOrderId reg))"
    using assms(1) by (simp add: place_submit_def Let_def)
  have un: "reg_unsent ?reg1 = reg_unsent reg @ [(key, ?rq)]" and e1: "entries ?reg1 key = Some en" using assms(1) by simp_all
  note pushed = push_last [OF un e1]
  obtain reg3 answer where h: "heartbeat zlib net t cks key ?rq ?reg2 = (reg3, answer)" by (rule prod.exhaust)
  have en: "cl_onTick (en_client (push_inbox ?rq en))" "en_inbox (push_inbox ?rq en) = en_inbox en @ [?rq]"
    "drain (cl_book (en_client (push_inbox ?rq en))) (ck_orders (cks 0)) (en_inbox en) (en_engine (push_inbox ?rq en)) = (e1, fs1, answers)"
    "serve (cl_book (en_client (push_inbox ?rq en))) (ck_orders (cks 0) (length (en_inbox en))) ?rq e1 = (e', fs, res)"
    using assms(2-4) by (simp_all add: push_inbox_def serve_def)
  note served = heartbeat_serves [OF pushed(1) en h]
  have fin: "place_finish key (nextOrderId reg) (Some res) reg3 = (reg', result)"
    using assms(5) h served(1) by (simp add: registry_placeOrder_def sub)
  show "result = res" using fin by (simp add: place_finish_def)
  show "fillQueue reg' = fillQueue reg @ fs1 @ fs" using fin served(2) pushed(2) by (auto simp: place_finish_def split: if_splits)
  show "orderIdToSymbol reg' = (if accepted res then (orderIdToSymbol reg)(nextOrderId reg \<mapsto> key) else orderIdToSymbol reg)"
    using fin served(3) pushed(3) by (auto simp: place_finish_def split: if_splits)
  show "\<exists>en'. entries reg' key = Some en' \<and> en_engine en' = e' \<and> en_inbox en' = [] \<and> cl_onTick (en_client en')"
    using fin served(4) by (auto simp: place_finish_def split: if_splits)
qed

lemma cancelOrder_at_heartbeat:
  assumes "orderIdToSymbol reg oid = Some key" and "entries reg key = Some en" and "cl_onTick (en_client en)" and "en_inbox en = []"
    and "Matching_Engine.cancelOrder (en_engine en) oid = (e', res)"
    and "registry_cancelOrder (heartbeat zlib net t cks) oid reg = (reg', result)"
  shows "result = res" and "\<exists>en'. entries reg' key = Some en' \<and> en_engine en' = e'"
proof -
  let ?rq = "\<lparr>rq_kind = Cancel, rq_side = Bid, rq_type = Market, rq_price = Price 0, rq_size = Quantity 0, rq_orderId = oid\<rparr>"
  let ?reg1 = "reg\<lparr>reg_unsent := reg_unsent reg @ [(key, ?rq)]\<rparr>"
  let ?reg2 = "push_request (length (reg_unsent reg)) ?reg1"
  have sub: "cancel_submit oid reg = (?reg1, Inr key)" using assms(1,2) by (simp add: cancel_submit_def Let_def)
  have un: "reg_unsent ?reg1 = reg_unsent reg @ [(key, ?rq)]" and e1: "entries ?reg1 key = Some en" using assms(2) by simp_all
  note pushed = push_last [OF un e1]
  obtain reg3 answer where h: "heartbeat zlib net t cks key ?rq ?reg2 = (reg3, answer)" by (rule prod.exhaust)
  have en: "cl_onTick (en_client (push_inbox ?rq en))" "en_inbox (push_inbox ?rq en) = [] @ [?rq]"
    "drain (cl_book (en_client (push_inbox ?rq en))) (ck_orders (cks 0)) [] (en_engine (push_inbox ?rq en)) = (en_engine en, [], [])"
    "serve (cl_book (en_client (push_inbox ?rq en))) (ck_orders (cks 0) (length [])) ?rq (en_engine en) = (e', [], res)"
    using assms(3-5) by (simp_all add: push_inbox_def serve_def)
  note served = heartbeat_serves [OF pushed(1) en h]
  have fin: "cancel_finish oid (Some res) reg3 = (reg', result)" using assms(6) h served(1) by (simp add: registry_cancelOrder_def sub)
  show "result = res" using fin by (simp add: cancel_finish_def)
  show "\<exists>en'. entries reg' key = Some en' \<and> en_engine en' = e'"
    using fin served(4) by (auto simp: cancel_finish_def split: if_splits)
qed

text \<open>The fills of a drained inbox belong to its place requests.\<close>

lemma serve_fill_ids:
  assumes "serve book now rq e = (e', fs, res)" and "book_pos book" and "me_onFill e" and "request_ok rq"
  shows "\<forall>f \<in> set fs. fill_orderId f \<in> set (place_ids [rq])"
proof (cases "rq_kind rq = Place \<and> 0 < qty_ticks (rq_size rq) \<and> (rq_type rq = Limit \<longrightarrow> 0 < price_ticks (rq_price rq))")
  case True
  then have p: "placeOrder book now e (rq_orderId rq) (rq_side rq) (rq_type rq) (rq_price rq) (rq_size rq) = (e', fs, res)"
    using assms(1) by (simp add: serve_def)
  have "pos_qty (rq_size rq)" using True assms(4) by (simp add: pos_qty_def request_ok_def qty_ok_def)
  from placeOrder_filled [OF assms(2) this _ assms(3) p] show ?thesis using True by (simp add: place_ids_def)
next
  case False
  then show ?thesis
    using assms(1) by (cases "rq_kind rq") (auto simp: serve_def placeOrder_def Let_def split: if_splits prod.splits)
qed

lemma drain_fill_ids:
  assumes "drain book nows rqs e = (e', fs, answers)" and "book_pos book" and "me_onFill e" and "list_all request_ok rqs"
  shows "\<forall>f \<in> set fs. fill_orderId f \<in> set (place_ids rqs)"
  using assms
proof (induction book nows rqs e arbitrary: e' fs answers rule: drain.induct)
  case (2 book nows rq rqs e)
  obtain e1 fs1 res where sv: "serve book (nows 0) rq e = (e1, fs1, res)" by (rule prod_cases3)
  obtain fs2 ans where d: "drain book (\<lambda>i. nows (Suc i)) rqs e1 = (e', fs2, ans)" and fs: "fs = fs1 @ fs2"
    using 2(2) sv by (auto split: prod.splits)
  have "me_onFill e1" using serve_onFill [OF sv] 2(4) by simp
  then have "\<forall>f \<in> set fs2. fill_orderId f \<in> set (place_ids rqs)" using 2(1) [OF sv [symmetric] refl refl d 2(3)] 2(5) by simp
  then show ?case using serve_fill_ids [OF sv 2(3,4)] 2(5) by (auto simp: fs place_ids_def split: if_splits)
qed simp

text \<open>
  A request that nobody answers in time is refused to its caller but stays in the inbox: the
  next heartbeat executes it all the same, its fills are streamed out, and because its id was
  never registered it cannot be cancelled.
\<close>

lemma timed_out_order_executes:
  assumes "entries reg key = Some en" and "cl_onTick (en_client en)" and "en_inbox en = []"
    and "placeOrder (cl_book (en_client en)) (ck_orders (cks 0) 0) (en_engine en) (nextOrderId reg) side type price sz = (e', fs, res)"
    and "registry_placeOrder (\<lambda>key rq reg. (reg, None)) key side type price sz reg = (reg1, result)"
    and "heartbeat zlib net t cks key (snd (last (reg_unsent (fst (place_submit key side type price sz reg))))) reg1 = (reg2, answer)"
    and "orderIdToSymbol reg (nextOrderId reg) = None"
  shows "\<not> accepted result" and "answer = Some res" and "fillQueue reg2 = fillQueue reg @ fs"
    and "\<exists>en'. entries reg2 key = Some en' \<and> en_engine en' = e'"
    and "snd (cancel_submit (nextOrderId reg) reg2) = Inl (rejected ''order not found'')"
proof -
  let ?rq = "\<lparr>rq_kind = Place, rq_side = side, rq_type = type, rq_price = price, rq_size = sz, rq_orderId = nextOrderId reg\<rparr>"
  let ?sent = "reg\<lparr>nextOrderId := nextOrderId reg + 1, reg_unsent := reg_unsent reg @ [(key, ?rq)]\<rparr>"
  have sub: "place_submit key side type price sz reg = (?sent, Inr (nextOrderId reg))"
    using assms(1) by (simp add: place_submit_def Let_def)
  have un: "reg_unsent ?sent = reg_unsent reg @ [(key, ?rq)]" and e1: "entries ?sent key = Some en" using assms(1) by simp_all
  note pushed = push_last [OF un e1]
  have reg1: "reg1 = push_request (length (reg_unsent reg)) ?sent" and "\<not> accepted result"
    using assms(5) by (auto simp: registry_placeOrder_def sub place_finish_def rejected_def)
  then show "\<not> accepted result" by simp
  have en: "cl_onTick (en_client (push_inbox ?rq en))" "en_inbox (push_inbox ?rq en) = [] @ [?rq]"
    "drain (cl_book (en_client (push_inbox ?rq en))) (ck_orders (cks 0)) [] (en_engine (push_inbox ?rq en)) = (en_engine en, [], [])"
    "serve (cl_book (en_client (push_inbox ?rq en))) (ck_orders (cks 0) (length [])) ?rq (en_engine en) = (e', fs, res)"
    using assms(2-4) by (simp_all add: push_inbox_def serve_def)
  have "heartbeat zlib net t cks key ?rq (push_request (length (reg_unsent reg)) ?sent) = (reg2, answer)"
    using assms(6) by (simp add: sub reg1)
  note served = heartbeat_serves [OF pushed(1) en this]
  show "answer = Some res" "fillQueue reg2 = fillQueue reg @ fs" "\<exists>en'. entries reg2 key = Some en' \<and> en_engine en' = e'"
    using served pushed(2) by auto
  show "snd (cancel_submit (nextOrderId reg) reg2) = Inl (rejected ''order not found'')"
    using served(3) pushed(3) assms(7) by (simp add: cancel_submit_def)
qed

subsection \<open>Handlers are runs of the registry\<close>

text \<open>
  Every handler only takes steps of the registry, so that its invariants hold for the
  service; for the two calls that wait, as long as what happens meanwhile does.
\<close>

lemma SubscribeBook_steps:
  assumes "SubscribeBook lookup t symbol svc = (svc', reply)"
  shows "rtranclp registry_step (cs_registry svc) (cs_registry svc')"
proof -
  let ?reg = "cs_registry svc"
  obtain reg1 r1 where c: "subscribe_check symbol ?reg = (reg1, r1)" by (rule prod.exhaust)
  have 1: "registry_step ?reg reg1" using c by (rule registry_step.check)
  obtain reg2 res where s: "Symbol_Registry.subscribe lookup t symbol ?reg = (reg2, res)" by (rule prod.exhaust)
  have svc': "cs_registry svc' = reg2" using assms s by (auto simp: SubscribeBook_def)
  have "reg2 = reg1 \<or> registry_step reg1 reg2"
  proof (cases r1)
    case (Some r)
    then show ?thesis using s c by (simp add: subscribe_def)
  next
    case None
    show ?thesis
    proof (cases "check_precision (lookup symbol)")
      case (Some r)
      then show ?thesis using s c None by (simp add: subscribe_def)
    next
      case ok: None
      then obtain p where p: "lookup symbol = Some p" by (cases "lookup symbol") (simp_all add: check_precision_def)
      then have "subscribe_commit t p symbol reg1 = (reg2, res)" using s c None ok by (simp add: subscribe_def)
      then show ?thesis using registry_step.commit [of p] ok p by metis
    qed
  qed
  then show ?thesis unfolding svc' using 1 by (auto intro: rtranclp.rtrancl_into_rtrancl)
qed

lemma UnsubscribeBook_steps:
  assumes "UnsubscribeBook symbol svc = (svc', reply)"
  shows "rtranclp registry_step (cs_registry svc) (cs_registry svc')"
proof -
  let ?reg = "cs_registry svc"
  obtain reg1 res where b: "unsubscribe_begin symbol ?reg = (reg1, res)" by (rule prod.exhaust)
  have 1: "registry_step ?reg reg1" using b by (rule registry_step.unsubscribe)
  have "cs_registry svc' = (if length (reg_leaving ?reg) < length (reg_leaving reg1)
      then unsubscribe_finish (length (reg_leaving ?reg)) reg1 else reg1)"
    using assms b by (auto simp: UnsubscribeBook_def unsubscribe_def Let_def)
  then have "cs_registry svc' = reg1 \<or> registry_step reg1 (cs_registry svc')"
    using registry_step.teardown by (auto split: if_splits)
  then show ?thesis using 1 by (auto intro: rtranclp.rtrancl_into_rtrancl)
qed

text \<open>Submitting a request, pushing it, waiting for the answer and finishing the call.\<close>

lemma request_steps:
  assumes "registry_step reg reg1" and "length (reg_unsent reg) < length (reg_unsent reg1)"
    and "rtranclp registry_step (push_request (length (reg_unsent reg)) reg1) reg2" and "registry_step reg2 reg'"
  shows "rtranclp registry_step reg reg'"
  using assms registry_step.push [OF assms(2)]
  by (meson converse_rtranclp_into_rtranclp rtranclp.rtrancl_into_rtrancl)

text \<open>The fields of a request are 64-bit integers on the wire.\<close>

definition wire_request :: "PlaceOrderRequest \<Rightarrow> bool" where
  "wire_request r \<longleftrightarrow> in_s64 (pr_price_ticks r) \<and> in_s64 (pr_size_ticks r)"

lemma PlaceOrder_steps:
  assumes "PlaceOrder meanwhile request svc = (svc', reply)" and "wire_request request"
    and "\<And>key rq reg reg' answer. meanwhile key rq reg = (reg', answer) \<Longrightarrow> rtranclp registry_step reg reg'"
  shows "rtranclp registry_step (cs_registry svc) (cs_registry svc')"
proof -
  let ?reg = "cs_registry svc" and ?side = "toBookSide (pr_side request)" and ?type = "toOrderType (pr_type request)"
  let ?price = "Price (pr_price_ticks request)" and ?sz = "Quantity (pr_size_ticks request)" and ?key = "pr_symbol request"
  obtain reg1 r where p: "place_submit ?key ?side ?type ?price ?sz ?reg = (reg1, r)" by (rule prod.exhaust)
  have 1: "registry_step ?reg reg1" using assms(2) by (intro registry_step.place [OF p]) (simp_all add: wire_request_def price_ok_def qty_ok_def)
  show ?thesis
  proof (cases r)
    case (Inl res)
    then show ?thesis using assms(1) p 1 by (auto simp: PlaceOrder_def registry_placeOrder_def)
  next
    case (Inr oid)
    let ?rq = "snd (last (reg_unsent reg1))" and ?reg2 = "push_request (length (reg_unsent ?reg)) reg1"
    obtain reg3 answer where m: "meanwhile ?key ?rq ?reg2 = (reg3, answer)" by (rule prod.exhaust)
    obtain reg4 res where f: "place_finish ?key oid answer reg3 = (reg4, res)" by (rule prod.exhaust)
    have 2: "length (reg_unsent ?reg) < length (reg_unsent reg1)"
      using p Inr by (auto simp: place_submit_def Let_def split: option.splits)
    have 3: "registry_step reg3 reg4" using f by (rule registry_step.placed)
    have "cs_registry svc' = reg4" using assms(1) p Inr m f by (auto simp: PlaceOrder_def registry_placeOrder_def)
    then show ?thesis using request_steps [OF 1 2 assms(3) [OF m] 3] by simp
  qed
qed

lemma CancelOrder_steps:
  assumes "CancelOrder meanwhile oid svc = (svc', reply)"
    and "\<And>key rq reg reg' answer. meanwhile key rq reg = (reg', answer) \<Longrightarrow> rtranclp registry_step reg reg'"
  shows "rtranclp registry_step (cs_registry svc) (cs_registry svc')"
proof -
  let ?reg = "cs_registry svc"
  obtain reg1 r where c: "cancel_submit oid ?reg = (reg1, r)" by (rule prod.exhaust)
  have 1: "registry_step ?reg reg1" using c by (rule registry_step.cancel)
  show ?thesis
  proof (cases r)
    case (Inl res)
    then show ?thesis using assms(1) c 1 by (auto simp: CancelOrder_def registry_cancelOrder_def)
  next
    case (Inr key)
    let ?rq = "snd (last (reg_unsent reg1))" and ?reg2 = "push_request (length (reg_unsent ?reg)) reg1"
    obtain reg3 answer where m: "meanwhile key ?rq ?reg2 = (reg3, answer)" by (rule prod.exhaust)
    obtain reg4 res where f: "cancel_finish oid answer reg3 = (reg4, res)" by (rule prod.exhaust)
    have 2: "length (reg_unsent ?reg) < length (reg_unsent reg1)"
      using c Inr by (auto simp: cancel_submit_def Let_def split: option.splits)
    have 3: "registry_step reg3 reg4" using f by (rule registry_step.cancelled)
    have "cs_registry svc' = reg4" using assms(1) c Inr m f by (auto simp: CancelOrder_def registry_cancelOrder_def)
    then show ?thesis using request_steps [OF 1 2 assms(2) [OF m] 3] by simp
  qed
qed

lemma heartbeat_steps: "heartbeat zlib net t cks key rq reg = (reg', answer) \<Longrightarrow> rtranclp registry_step reg reg'"
  by (auto simp: heartbeat_def Let_def split: option.splits sum.splits intro!: registry_step.work r_into_rtranclp)
    (simp add: parsed_in_range_def)

section \<open>Properties\<close>

text \<open>An order placed through the service and answered at the next heartbeat of its symbol's worker.\<close>

definition rests_at :: "OrderBook \<Rightarrow> PlaceOrderRequest \<Rightarrow> bool" where
  "rests_at book r \<longleftrightarrow> toOrderType (pr_type r) = Limit \<and>
     levels_total (crossing_levels book (toBookSide (pr_side r)) Limit (Price (pr_price_ticks r))) < pr_size_ticks r"

lemma place_order_reply:
  assumes en: "entries (cs_registry svc) (pr_symbol r) = Some en" "cl_onTick (en_client en)" "book_pos (cl_book (en_client en))"
      "me_onFill (en_engine en)" "list_all request_ok (en_inbox en)"
    and fresh: "nextOrderId (cs_registry svc) \<notin> set (entry_ids en)"
    and req: "pos_qty (Quantity (pr_size_ticks r))" "toOrderType (pr_type r) = Limit \<longrightarrow> 0 < pr_price_ticks r"
    and call: "PlaceOrder (heartbeat zlib net t cks) r svc = (svc', reply)"
  shows "or_accepted reply \<and> or_engine_order_id reply = nextOrderId (cs_registry svc)
    \<and> or_filled_size_ticks reply = min (pr_size_ticks r) (levels_total (crossing_levels (cl_book (en_client en))
        (toBookSide (pr_side r)) (toOrderType (pr_type r)) (Price (pr_price_ticks r))))"
    and "\<exists>fs. fillQueue (cs_registry svc') = fillQueue (cs_registry svc) @ fs
        \<and> fills_total (filter (\<lambda>f. fill_orderId f = or_engine_order_id reply) fs) = or_filled_size_ticks reply"
    and "orderIdToSymbol (cs_registry svc') (or_engine_order_id reply) = Some (pr_symbol r)"
    and "\<exists>en'. entries (cs_registry svc') (pr_symbol r) = Some en' \<and> en_inbox en' = [] \<and> cl_onTick (en_client en')
        \<and> (or_engine_order_id reply \<in> fst ` set (restingOrders (en_engine en')) \<longleftrightarrow> rests_at (cl_book (en_client en)) r)"
proof -
  let ?reg = "cs_registry svc" and ?side = "toBookSide (pr_side r)" and ?type = "toOrderType (pr_type r)"
  let ?price = "Price (pr_price_ticks r)" and ?sz = "Quantity (pr_size_ticks r)" and ?book = "cl_book (en_client en)"
  obtain e1 fs1 answers where d: "drain ?book (ck_orders (cks 0)) (en_inbox en) (en_engine en) = (e1, fs1, answers)" by (rule prod_cases3)
  obtain e' fs res where
    p: "placeOrder ?book (ck_orders (cks 0) (length (en_inbox en))) e1 (nextOrderId ?reg) ?side ?type ?price ?sz = (e', fs, res)"
    by (rule prod_cases3)
  obtain reg' result where
    c: "registry_placeOrder (heartbeat zlib net t cks) (pr_symbol r) ?side ?type ?price ?sz ?reg = (reg', result)" by (rule prod.exhaust)
  have reply: "reply = fillOrderReply result" "cs_registry svc' = reg'" using call c by (auto simp: PlaceOrder_def)
  note ended = placeOrder_at_heartbeat [OF en(1,2) d p c]
  have on: "me_onFill e1" using drain_onFill [OF d] en(4) by simp
  have filled: "accepted res" "result_orderId res = nextOrderId ?reg"
    "qty_ticks (filledSize res) = min (pr_size_ticks r) (levels_total (crossing_levels ?book ?side ?type ?price))"
    "fills_total fs = qty_ticks (filledSize res)" "\<forall>f \<in> set fs. fill_orderId f = nextOrderId ?reg"
    using placeOrder_filled [OF en(3) req(1) _ on p] req(2) by simp_all
  show "or_accepted reply \<and> or_engine_order_id reply = nextOrderId ?reg
      \<and> or_filled_size_ticks reply = min (pr_size_ticks r) (levels_total (crossing_levels ?book ?side ?type ?price))"
    using ended(1) filled by (simp add: reply fillOrderReply_def)
  have others: "filter (\<lambda>f. fill_orderId f = nextOrderId ?reg) fs1 = []"
    using drain_fill_ids [OF d en(3-5)] fresh by (force simp: filter_empty_conv entry_ids_def)
  have mine: "filter (\<lambda>f. fill_orderId f = nextOrderId ?reg) fs = fs" using filled(5) by (simp add: filter_True)
  show "\<exists>fs. fillQueue (cs_registry svc') = fillQueue ?reg @ fs
      \<and> fills_total (filter (\<lambda>f. fill_orderId f = or_engine_order_id reply) fs) = or_filled_size_ticks reply"
    using ended(1,2) filled(2,4) others mine by (intro exI [of _ "fs1 @ fs"]) (simp add: reply fillOrderReply_def)
  show "orderIdToSymbol (cs_registry svc') (or_engine_order_id reply) = Some (pr_symbol r)"
    using ended(1,3) filled(1,2) by (simp add: reply fillOrderReply_def)
  have new: "nextOrderId ?reg \<notin> fst ` set (restingOrders e1)"
    using drain_ids_sub [OF d] fresh by (auto simp: entry_ids_def resting_ids_def)
  have "e' = (if rests_at ?book r then rest_order ?book e1 (nextOrderId ?reg) ?side ?price
      (Quantity (pr_size_ticks r - levels_total (crossing_levels ?book ?side ?type ?price))) else e1)"
    using placeOrder_accept [OF en(3) req(1), of ?type ?price] req(2) p by (auto simp: rests_at_def)
  then have "nextOrderId ?reg \<in> fst ` set (restingOrders e') \<longleftrightarrow> rests_at ?book r"
    using new by (simp add: rest_order_mem)
  then show "\<exists>en'. entries (cs_registry svc') (pr_symbol r) = Some en' \<and> en_inbox en' = [] \<and> cl_onTick (en_client en')
      \<and> (or_engine_order_id reply \<in> fst ` set (restingOrders (en_engine en')) \<longleftrightarrow> rests_at ?book r)"
    using ended(1,4) filled(2) by (auto simp: reply fillOrderReply_def)
qed

lemma cancel_order_reply:
  assumes "orderIdToSymbol (cs_registry svc) oid = Some key" and "entries (cs_registry svc) key = Some en"
    and "cl_onTick (en_client en)" and "en_inbox en = []" and "CancelOrder (heartbeat zlib net t cks) oid svc = (svc', reply)"
  shows "if oid \<in> fst ` set (restingOrders (en_engine en))
    then or_accepted reply \<and> (\<exists>en'. entries (cs_registry svc') key = Some en'
      \<and> restingOrders (en_engine en') = filter (\<lambda>x. fst x \<noteq> oid) (restingOrders (en_engine en)))
    else \<not> or_accepted reply \<and> or_reject_reason reply = ''order not found''"
proof -
  obtain e' res where c: "Matching_Engine.cancelOrder (en_engine en) oid = (e', res)" by (rule prod.exhaust)
  obtain reg' result where r: "registry_cancelOrder (heartbeat zlib net t cks) oid (cs_registry svc) = (reg', result)" by (rule prod.exhaust)
  have reply: "reply = fillOrderReply result" "cs_registry svc' = reg'" using assms(5) r by (auto simp: CancelOrder_def)
  note ended = cancelOrder_at_heartbeat [OF assms(1-4) c r]
  show ?thesis
    using cancelOrder_behaviour [where e = "en_engine en" and oid = oid] ended
    by (cases "oid \<in> fst ` set (restingOrders (en_engine en))")
      (simp_all only: c prod.case if_True if_False reply, auto simp: fillOrderReply_def rejected_def)
qed

definition demo_fill :: "u64 \<Rightarrow> Fill" where
  "demo_fill oid = \<lparr>fill_orderId = oid, fill_price = Price 100, fill_size = Quantity 1, fill_timestamp = 0\<rparr>"

definition demo_request :: PlaceOrderRequest where
  "demo_request = \<lparr>pr_symbol = ''BTC/USD'', pr_side = 0, pr_type = 1, pr_price_ticks = 100, pr_size_ticks = 8, pr_client_request_id = []\<rparr>"

text \<open>
  C32 (safety): the stream of fills. A watcher receives the fills in the order in which they
  were queued, each exactly once: what was queued before and during the call is, in this
  order, what was written to the stream, at most one fill that was taken and lost
  because its write failed, and what is still queued. Without a failing write none is lost.
\<close>

theorem watch_fills_in_order:
  assumes "WatchFills ps reg = (reg', events, rest)"
  shows "\<exists>sent lost. fillQueue reg @ concat (map pl_arrivals (used_polls ps rest)) = sent @ lost @ fillQueue reg'
    \<and> events = map fill_event sent \<and> length lost \<le> 1 \<and> (list_all pl_write_ok ps \<longrightarrow> lost = [])"
  using assms by (rule watch_fills_conserved)

theorem watch_fills_in_order_witness:
  "\<exists>reg'. WatchFills [\<lparr>pl_cancelled = False, pl_arrivals = [demo_fill 3, demo_fill 4], pl_write_ok = True\<rparr>] (new_registry new_segment)
     = (reg', [fill_event (demo_fill 3)], []) \<and> fillQueue reg' = [demo_fill 4]"
proof -
  let ?p = "\<lparr>pl_cancelled = False, pl_arrivals = [demo_fill 3, demo_fill 4], pl_write_ok = True\<rparr>" and ?reg = "new_registry new_segment"
  obtain reg' events rest where w: "WatchFills [?p] ?reg = (reg', events, rest)" by (rule prod_cases3)
  have r: "events = [fill_event (demo_fill 3)]" "rest = []"
    using w by (auto simp: waitForFill_def pushFill_def new_registry_def)
  obtain sent lost where "fillQueue ?reg @ concat (map pl_arrivals (used_polls [?p] rest)) = sent @ lost @ fillQueue reg'"
    "events = map fill_event sent" "lost = []"
    using watch_fills_in_order [OF w] by auto
  then have "fillQueue reg' = [demo_fill 4]" by (cases sent) (auto simp: r used_polls_def new_registry_def)
  then show ?thesis using w r by blast
qed

end
