(* ===== verification/Histogram.thy ===== *)
theory Histogram
  imports Prelude
begin

text \<open>
  The latency histograms, \<^verbatim>\<open>engine/include/engine/observability/histogram.hpp\<close> and
  \<^verbatim>\<open>engine/src/observability/histogram.cpp\<close>: 64 power-of-two buckets, the largest sample, and
  percentiles read off the buckets.

  A percentile's target rank is the product of a \<^verbatim>\<open>double\<close> fraction and the count converted
  to \<^verbatim>\<open>double\<close>. Both roundings are modelled on natural numbers: rounding to 53 significant
  bits, ties to even, which is exact for every number below \<open>2\<^sup>5\<^sup>3\<close>. The hash map of the
  registry is an association list in iteration order.
\<close>

section \<open>Definitions\<close>

definition kNumBuckets :: nat where "kNumBuckets = 64"

record LatencyHistogram =
  lh_name :: string
  buckets :: "u64 list"
  maxNanos :: u64

record HistSnapshot =
  hs_name :: string
  hs_count :: u64
  hs_p50 :: u64
  hs_p90 :: u64
  hs_p99 :: u64
  hs_max :: u64

definition new_histogram :: "string \<Rightarrow> LatencyHistogram" where
  "new_histogram name = \<lparr>lh_name = name, buckets = replicate kNumBuckets 0, maxNanos = 0\<rparr>"

text \<open>\<^verbatim>\<open>std::countl_zero\<close> of a 64-bit value.\<close>

definition countl_zero :: "u64 \<Rightarrow> nat" where
  "countl_zero w = length (takeWhile (\<lambda>i. \<not> bit w i) (rev [0..<64]))"

definition bucketFor :: "u64 \<Rightarrow> nat" where
  "bucketFor nanos = (if nanos = 0 then 0 else nat (max 0 (min 63 (63 - int (countl_zero nanos)))))"

definition count_sample :: "u64 \<Rightarrow> LatencyHistogram \<Rightarrow> LatencyHistogram" where
  "count_sample nanos h = h\<lparr>buckets := (buckets h)[bucketFor nanos := buckets h ! bucketFor nanos + 1]\<rparr>"

text \<open>\<^verbatim>\<open>record\<close>, run by one thread alone.\<close>

definition record_nanos :: "u64 \<Rightarrow> LatencyHistogram \<Rightarrow> LatencyHistogram" where
  "record_nanos nanos h =
     (let h1 = count_sample nanos h; prevMax = maxNanos h1
      in if nanos > prevMax then h1\<lparr>maxNanos := nanos\<rparr> else h1)"

subsection \<open>Doubles\<close>

fun bit_length :: "nat \<Rightarrow> nat" where
  "bit_length n = (if n = 0 then 0 else Suc (bit_length (n div 2)))"

declare bit_length.simps [simp del]

definition round53 :: "nat \<Rightarrow> nat" where
  "round53 n =
     (if n < 2 ^ 53 then n
      else let e = bit_length n - 53; q = n div 2 ^ e; r = n mod 2 ^ e; half = 2 ^ (e - 1)
           in (if half < r \<or> r = half \<and> odd q then q + 1 else q) * 2 ^ e)"

text \<open>
  The \<^verbatim>\<open>double\<close> constants 0.50, 0.90 and 0.99, times \<open>2\<^sup>5\<^sup>3\<close>, and the truncated product of such
  a constant with a count.
\<close>

definition FRACTION_50 :: nat where "FRACTION_50 = 4503599627370496"
definition FRACTION_90 :: nat where "FRACTION_90 = 8106479329266893"
definition FRACTION_99 :: nat where "FRACTION_99 = 8917127262193582"

definition scaled :: "nat \<Rightarrow> u64 \<Rightarrow> u64" where
  "scaled fraction count_total = of_nat (round53 (fraction * round53 (unat count_total)) div 2 ^ 53)"

subsection \<open>Snapshots\<close>

fun percentile_loop :: "u64 list \<Rightarrow> u64 \<Rightarrow> nat \<Rightarrow> u64 \<Rightarrow> u64" where
  "percentile_loop [] target i cumulative = push_bit (kNumBuckets - 1) 1"
| "percentile_loop (c # counts) target i cumulative =
     (let cumulative' = cumulative + c
      in if cumulative' \<ge> target then push_bit i 1 else percentile_loop counts target (Suc i) cumulative')"

definition percentileValue :: "u64 list \<Rightarrow> u64 \<Rightarrow> nat \<Rightarrow> u64" where
  "percentileValue counts count_total fraction =
     (let target = max 1 (scaled fraction count_total) in percentile_loop counts target 0 0)"

definition snapshot :: "LatencyHistogram \<Rightarrow> HistSnapshot" where
  "snapshot h =
     (let counts = buckets h; count_total = sum_list counts;
          s = \<lparr>hs_name = lh_name h, hs_count = count_total, hs_p50 = 0, hs_p90 = 0, hs_p99 = 0, hs_max = maxNanos h\<rparr>
      in if count_total = 0 then s
         else s\<lparr>hs_p50 := percentileValue counts count_total FRACTION_50, hs_p90 := percentileValue counts count_total FRACTION_90,
                hs_p99 := percentileValue counts count_total FRACTION_99\<rparr>)"

definition reset_histogram :: "LatencyHistogram \<Rightarrow> LatencyHistogram" where
  "reset_histogram h = h\<lparr>buckets := map (\<lambda>_. 0) (buckets h), maxNanos := 0\<rparr>"

subsection \<open>Registry and timer\<close>

type_synonym HistogramRegistry = "(string \<times> LatencyHistogram) list"

definition get_histogram :: "string \<Rightarrow> HistogramRegistry \<Rightarrow> HistogramRegistry \<times> LatencyHistogram" where
  "get_histogram name reg =
     (case map_of reg name of
        Some h \<Rightarrow> (reg, h)
      | None \<Rightarrow> (reg @ [(name, new_histogram name)], new_histogram name))"

definition snapshotAll :: "HistogramRegistry \<Rightarrow> HistSnapshot list" where
  "snapshotAll reg = map (\<lambda>(name, h). snapshot h) reg"

definition snapshot_text :: "HistSnapshot \<Rightarrow> string" where
  "snapshot_text s = hs_name s @ '' count='' @ to_string (unat (hs_count s)) @ '' p50='' @ to_string (unat (hs_p50 s))
     @ ''ns p90='' @ to_string (unat (hs_p90 s)) @ ''ns p99='' @ to_string (unat (hs_p99 s)) @ ''ns max='' @ to_string (unat (hs_max s))
     @ ''ns'' @ [char_of (10 :: nat)]"

definition log_line :: "HistSnapshot \<Rightarrow> string" where
  "log_line s = ''engine: perf.'' @ snapshot_text s"

text \<open>
  One round of \<^verbatim>\<open>logAllAndReset\<close> after its sleep: the lines printed, the reset of all histograms,
  and both when nothing is recorded in between.
\<close>

definition log_lines :: "HistogramRegistry \<Rightarrow> string list" where
  "log_lines reg = map log_line (filter (\<lambda>s. hs_count s \<noteq> 0) (snapshotAll reg))"

definition reset_all :: "HistogramRegistry \<Rightarrow> HistogramRegistry" where
  "reset_all reg = map (\<lambda>(name, h). (name, reset_histogram h)) reg"

definition log_round :: "HistogramRegistry \<Rightarrow> string list \<times> HistogramRegistry" where
  "log_round reg = (log_lines reg, reset_all reg)"

text \<open>The destructor of a \<^verbatim>\<open>ScopedLatencyTimer\<close>; \<open>start\<close> and \<open>now\<close> are steady clock readings in nanoseconds.\<close>

definition timer_record :: "int \<Rightarrow> int \<Rightarrow> LatencyHistogram \<Rightarrow> LatencyHistogram" where
  "timer_record start now h = record_nanos (of_int (now - start)) h"

text \<open>A scope with such a timer on the histogram of a name; the readings are those at its begin and end.\<close>

definition timed :: "string \<Rightarrow> int \<times> int \<Rightarrow> HistogramRegistry \<Rightarrow> HistogramRegistry" where
  "timed name clock hists =
     (let (hists1, h) = get_histogram name hists
      in map (\<lambda>(other, g). (other, if other = name then timer_record (fst clock) (snd clock) g else g)) hists1)"

subsection \<open>Concurrent recording\<close>

text \<open>
  Any number of threads record at the same time. A call first increments its bucket, then
  loads the maximum, then compares and exchanges until it is not above the maximum any more;
  \<^verbatim>\<open>compare_exchange_weak\<close> may fail spuriously, and a failure reloads the maximum.
\<close>

datatype Recorder = Rec_Start u64 | Rec_Counted u64 | Rec_Loaded u64 u64 | Rec_Done u64

record recording =
  rc_hist :: LatencyHistogram
  rc_calls :: "Recorder list"

definition set_call :: "nat \<Rightarrow> Recorder \<Rightarrow> recording \<Rightarrow> recording" where
  "set_call k r s = s\<lparr>rc_calls := (rc_calls s)[k := r]\<rparr>"

inductive record_step :: "recording \<Rightarrow> recording \<Rightarrow> bool" where
  call: "record_step s (s\<lparr>rc_calls := rc_calls s @ [Rec_Start n]\<rparr>)"
| count: "k < length (rc_calls s) \<Longrightarrow> rc_calls s ! k = Rec_Start n \<Longrightarrow>
    record_step s (set_call k (Rec_Counted n) (s\<lparr>rc_hist := count_sample n (rc_hist s)\<rparr>))"
| load: "k < length (rc_calls s) \<Longrightarrow> rc_calls s ! k = Rec_Counted n \<Longrightarrow>
    record_step s (set_call k (Rec_Loaded n (maxNanos (rc_hist s))) s)"
| exit: "k < length (rc_calls s) \<Longrightarrow> rc_calls s ! k = Rec_Loaded n prevMax \<Longrightarrow> \<not> prevMax < n \<Longrightarrow>
    record_step s (set_call k (Rec_Done n) s)"
| exchange: "k < length (rc_calls s) \<Longrightarrow> rc_calls s ! k = Rec_Loaded n prevMax \<Longrightarrow> prevMax < n \<Longrightarrow>
    maxNanos (rc_hist s) = prevMax \<Longrightarrow>
    record_step s (set_call k (Rec_Done n) (s\<lparr>rc_hist := (rc_hist s)\<lparr>maxNanos := n\<rparr>\<rparr>))"
| retry: "k < length (rc_calls s) \<Longrightarrow> rc_calls s ! k = Rec_Loaded n prevMax \<Longrightarrow> prevMax < n \<Longrightarrow>
    record_step s (set_call k (Rec_Loaded n (maxNanos (rc_hist s))) s)"

section \<open>Lemmas\<close>

subsection \<open>Buckets\<close>

lemma upt_split: "k < n \<Longrightarrow> [0..<n] = [0..<k] @ k # [Suc k..<n]"
  using upt_add_eq_append [of 0 k "n - k"] by (simp add: upt_conv_Cons)

text \<open>The leading zeros are the positions above the highest set bit.\<close>

lemma countl_zero_bits:
  assumes "bit w k" and "\<And>j. bit w j \<Longrightarrow> j \<le> k"
  shows "countl_zero w = 63 - k"
proof -
  have k: "k < 64" using assms(1) bit_imp_le_length by fastforce
  have r: "rev [0..<64] = rev [Suc k..<64] @ k # rev [0..<k]" unfolding upt_split [OF k] by (simp only: rev_append rev.simps append.simps append_assoc)
  have "takeWhile (\<lambda>i. \<not> bit w i) (rev [Suc k..<64] @ k # rev [0..<k]) = rev [Suc k..<64]"
    using assms by (subst takeWhile_append2) (auto dest!: assms(2))
  then show ?thesis unfolding countl_zero_def r by simp
qed

lemma top_bit:
  fixes w :: u64
  assumes "w \<noteq> 0"
  obtains k where "bit w k" and "\<And>j. bit w j \<Longrightarrow> j \<le> k" and "2 ^ k \<le> unat w" and "unat w < 2 ^ Suc k"
proof -
  define n where "n = unat w"
  have "0 < n" using assms by (simp add: n_def unat_gt_0)
  then obtain k where k: "2 ^ k \<le> n" "n < 2 ^ Suc k" using ex_power_ivl1 [of 2 n] by auto
  have "n div 2 ^ k = 1" using k by (intro div_nat_eqI) simp_all
  then have "bit n k" by (simp add: bit_iff_odd)
  moreover have "j \<le> k" if "bit n j" for j
  proof (rule ccontr)
    assume "\<not> j \<le> k"
    then have "(2::nat) ^ Suc k \<le> 2 ^ j" by (intro power_increasing) simp_all
    then have "n div 2 ^ j = 0" using k by simp
    then show False using that by (simp add: bit_iff_odd)
  qed
  ultimately show ?thesis using k that by (simp add: n_def bit_unsigned_iff)
qed

lemma bucketFor_range:
  assumes "w \<noteq> 0"
  shows "2 ^ bucketFor w \<le> unat w" and "unat w < 2 ^ Suc (bucketFor w)"
proof -
  obtain k where k: "bit w k" "\<And>j. bit w j \<Longrightarrow> j \<le> k" "2 ^ k \<le> unat w" "unat w < 2 ^ Suc k" using assms by (rule top_bit) blast
  have "k < 64" using k(1) bit_imp_le_length by fastforce
  then have "bucketFor w = k" using assms countl_zero_bits [OF k(1,2)] by (simp add: bucketFor_def)
  then show "2 ^ bucketFor w \<le> unat w" "unat w < 2 ^ Suc (bucketFor w)" using k(3,4) by simp_all
qed

lemma bucketFor_less [simp]: "bucketFor w < 64"
  by (auto simp: bucketFor_def)

lemma bucketFor_mono:
  assumes "v \<le> w"
  shows "bucketFor v \<le> bucketFor w"
proof (cases "v = 0")
  case True
  then show ?thesis by (simp add: bucketFor_def)
next
  case False
  then have "w \<noteq> 0" using assms by auto
  have "2 ^ bucketFor v \<le> unat v" using False by (rule bucketFor_range)
  also have "unat v \<le> unat w" using assms by (simp add: word_le_nat_alt)
  also have "unat w < 2 ^ Suc (bucketFor w)" using \<open>w \<noteq> 0\<close> by (rule bucketFor_range)
  finally have "bucketFor v < Suc (bucketFor w)" by (rule power_less_imp_less_exp [rotated]) simp
  then show ?thesis by simp
qed

subsection \<open>Recording a list of samples\<close>

definition in_bucket :: "u64 list \<Rightarrow> nat \<Rightarrow> nat" where
  "in_bucket ns i = length (filter (\<lambda>n. bucketFor n = i) ns)"

definition bucket_counts :: "u64 list \<Rightarrow> u64 list" where
  "bucket_counts ns = map (\<lambda>i. of_nat (in_bucket ns i)) [0..<kNumBuckets]"

lemma bucket_counts_snoc:
  "(bucket_counts ns)[bucketFor n := bucket_counts ns ! bucketFor n + 1] = bucket_counts (ns @ [n])"
  by (rule nth_equalityI) (auto simp: bucket_counts_def in_bucket_def kNumBuckets_def nth_list_update)

lemma count_sample_counts: "buckets h = bucket_counts ns \<Longrightarrow> buckets (count_sample n h) = bucket_counts (ns @ [n])"
  by (simp add: count_sample_def bucket_counts_snoc)

definition record_all :: "u64 list \<Rightarrow> LatencyHistogram \<Rightarrow> LatencyHistogram" where
  "record_all ns h = foldl (\<lambda>h n. record_nanos n h) h ns"

lemma record_all_buckets: "buckets (record_all ns (new_histogram name)) = bucket_counts ns"
proof (induction ns rule: rev_induct)
  case Nil
  show ?case by (rule nth_equalityI) (simp_all add: record_all_def new_histogram_def bucket_counts_def in_bucket_def)
next
  case (snoc n ns)
  then show ?case by (simp add: record_all_def record_nanos_def Let_def count_sample_counts)
qed

lemma count_sample_max [simp]: "maxNanos (count_sample n h) = maxNanos h"
  by (simp add: count_sample_def)

lemma record_all_max: "maxNanos (record_all ns (new_histogram name)) = Max (set (0 # ns))"
proof (induction ns rule: rev_induct)
  case Nil
  show ?case by (simp add: record_all_def new_histogram_def)
next
  case (snoc n ns)
  have "maxNanos (record_nanos n h) = max n (maxNanos h)" for h by (auto simp: record_nanos_def Let_def max_def)
  then have "maxNanos (record_all (ns @ [n]) (new_histogram name)) = max n (Max (set (0 # ns)))"
    using snoc by (simp add: record_all_def)
  also have "\<dots> = Max (insert n (set (0 # ns)))" by (rule Max_insert [symmetric]) simp_all
  also have "insert n (set (0 # ns)) = set (0 # ns @ [n])" by auto
  finally show ?case .
qed

lemma record_all_name: "lh_name (record_all ns (new_histogram name)) = name"
  by (induction ns rule: rev_induct) (simp_all add: record_all_def new_histogram_def record_nanos_def count_sample_def Let_def)

text \<open>The counts up to a bucket are the samples of those buckets.\<close>

definition up_to :: "u64 list \<Rightarrow> nat \<Rightarrow> nat" where
  "up_to ns i = length (filter (\<lambda>n. bucketFor n < i) ns)"

lemma up_to_Suc: "up_to ns (Suc i) = up_to ns i + in_bucket ns i"
proof -
  have "filter (\<lambda>n. bucketFor n < Suc i) ns = filter (\<lambda>n. bucketFor n < i \<or> bucketFor n = i) ns"
    by (simp add: less_Suc_eq)
  then show ?thesis
    unfolding up_to_def in_bucket_def by (induction ns) auto
qed

lemma up_to_le: "up_to ns i \<le> length ns"
  by (simp add: up_to_def)

lemma sum_counts:
  assumes "length ns < 2 ^ 64" and "i \<le> 64"
  shows "sum_list (take i (bucket_counts ns)) = of_nat (up_to ns i)"
  using assms(2)
proof (induction i)
  case (Suc i)
  then show ?case by (simp add: take_Suc_conv_app_nth bucket_counts_def kNumBuckets_def up_to_Suc)
qed (simp add: up_to_def)

lemma total_counts: "length ns < 2 ^ 64 \<Longrightarrow> sum_list (bucket_counts ns) = of_nat (length ns)"
  using sum_counts [of ns 64] by (simp add: bucket_counts_def kNumBuckets_def up_to_def)

subsection \<open>The target rank\<close>

lemma bit_length_bounds: "0 < n \<Longrightarrow> 2 ^ (bit_length n - 1) \<le> n \<and> n < 2 ^ bit_length n"
proof (induction n rule: bit_length.induct)
  case (1 n)
  show ?case
  proof (cases "n div 2 = 0")
    case True
    then have "n = 1" using 1(2) by simp
    then show ?thesis by (simp add: bit_length.simps)
  next
    case False
    then have IH: "2 ^ (bit_length (n div 2) - 1) \<le> n div 2 \<and> n div 2 < 2 ^ bit_length (n div 2)" using 1 by simp
    have pos: "0 < bit_length (n div 2)" using False by (simp add: bit_length.simps)
    have "bit_length n = Suc (bit_length (n div 2))" using 1(2) by (subst bit_length.simps) simp
    moreover have "2 ^ bit_length (n div 2) = (2::nat) * 2 ^ (bit_length (n div 2) - 1)" using pos by (simp flip: power_Suc)
    moreover have "2 * (n div 2) \<le> n" "n \<le> 2 * (n div 2) + 1" by simp_all
    ultimately show ?thesis using IH by (simp del: times_div_less_eq_dividend)
  qed
qed

text \<open>Rounding changes a number by at most one part in \<open>2\<^sup>5\<^sup>3\<close>.\<close>

lemma round53_le: "round53 n * 2 ^ 53 \<le> n * (2 ^ 53 + 1)"
proof (cases "n < 2 ^ 53")
  case True
  then show ?thesis by (simp add: round53_def)
next
  case False
  then have "0 < n" by (cases n) simp_all
  note b = bit_length_bounds [OF this]
  define e where "e = bit_length n - 53"
  have "2 ^ 53 < (2::nat) ^ bit_length n" using False b by linarith
  then have len: "53 < bit_length n" by (rule power_less_imp_less_exp [rotated]) simp
  have eq: "bit_length n - 1 = 53 + (e - 1)" using len by (simp add: e_def)
  have half: "2 ^ 53 * 2 ^ (e - 1) \<le> n" using b unfolding eq power_add by blast
  have e: "(2::nat) ^ e = 2 * 2 ^ (e - 1)" using len by (simp add: e_def flip: power_Suc)
  define q where "q = n div 2 ^ e"
  define r where "r = n mod 2 ^ e"
  have n: "n = q * 2 ^ e + r" unfolding q_def r_def by (rule div_mult_mod_eq [symmetric])
  have "round53 n = (if 2 ^ (e - 1) < r \<or> r = 2 ^ (e - 1) \<and> odd q then q + 1 else q) * 2 ^ e"
    unfolding round53_def Let_def e_def [symmetric] q_def [symmetric] r_def [symmetric] using False by simp
  then have "round53 n \<le> n + 2 ^ (e - 1)" using n e by (auto simp: algebra_simps)
  then have "round53 n * 2 ^ 53 \<le> n * 2 ^ 53 + 2 ^ 53 * 2 ^ (e - 1)" by (simp add: algebra_simps)
  also have "\<dots> \<le> n * 2 ^ 53 + n" using half by simp
  finally show ?thesis by (simp add: algebra_simps)
qed

lemma scaled_le:
  assumes "fraction * (2 ^ 53 + 1) * (2 ^ 53 + 1) \<le> 2 ^ 53 * 2 ^ 53 * 2 ^ 53"
  shows "scaled fraction n \<le> n"
proof -
  let ?t = "round53 (unat n)"
  let ?R = "round53 (fraction * ?t)"
  have "?R * 2 ^ 53 * 2 ^ 53 \<le> fraction * ?t * (2 ^ 53 + 1) * 2 ^ 53"
    using round53_le [of "fraction * ?t"] by (intro mult_right_mono) simp_all
  also have "\<dots> = fraction * (2 ^ 53 + 1) * (?t * 2 ^ 53)" by (simp only: ac_simps)
  also have "\<dots> \<le> fraction * (2 ^ 53 + 1) * (unat n * (2 ^ 53 + 1))" by (intro mult_left_mono round53_le) simp
  also have "\<dots> = fraction * (2 ^ 53 + 1) * (2 ^ 53 + 1) * unat n" by (simp only: ac_simps)
  also have "\<dots> \<le> 2 ^ 53 * 2 ^ 53 * 2 ^ 53 * unat n" using assms by (intro mult_right_mono) simp_all
  finally have "?R * (2 ^ 53 * 2 ^ 53) \<le> unat n * 2 ^ 53 * (2 ^ 53 * 2 ^ 53)" by (simp only: ac_simps)
  then have "?R \<le> unat n * 2 ^ 53" by (rule mult_right_le_imp_le) simp
  then have "?R div 2 ^ 53 \<le> unat n" by (metis div_le_mono nonzero_mult_div_cancel_right power_not_zero zero_neq_numeral)
  moreover have "unat (of_nat m :: u64) \<le> m" for m by (simp add: unat_of_nat)
  ultimately show ?thesis unfolding scaled_def word_le_nat_alt by (meson le_trans)
qed

lemma fractions_le:
  "scaled FRACTION_50 n \<le> n" "scaled FRACTION_90 n \<le> n" "scaled FRACTION_99 n \<le> n"
  by (rule scaled_le; simp add: FRACTION_50_def FRACTION_90_def FRACTION_99_def)+

subsection \<open>Order statistics\<close>

text \<open>The loop stops at the first bucket whose cumulative count reaches the target.\<close>

lemma percentile_loop_finds:
  assumes "unat cumulative + sum_list (map unat counts) < 2 ^ 64" and "j < length counts"
    and "unat cumulative + sum_list (map unat (take j counts)) < unat target"
    and "unat target \<le> unat cumulative + sum_list (map unat (take (Suc j) counts))"
  shows "percentile_loop counts target i cumulative = push_bit (i + j) 1"
  using assms
proof (induction counts arbitrary: cumulative i j)
  case (Cons c counts)
  have s: "unat (cumulative + c) = unat cumulative + unat c" using Cons.prems(1) by (intro unat_add_lem [THEN iffD1]) simp
  show ?case
  proof (cases j)
    case 0
    then show ?thesis using Cons.prems(4) s by (simp add: word_le_nat_alt)
  next
    case (Suc k)
    then have "\<not> target \<le> cumulative + c" using Cons.prems(3) s by (simp add: word_le_nat_alt)
    moreover have "percentile_loop counts target (Suc i) (cumulative + c) = push_bit (Suc i + k) 1"
      using Cons.prems Suc s by (intro Cons.IH) simp_all
    ultimately show ?thesis using Suc by simp
  qed
qed simp

lemma sum_unat_counts:
  assumes "length ns < 2 ^ 64" and "i \<le> 64"
  shows "sum_list (map unat (take i (bucket_counts ns))) = up_to ns i"
  using assms(2)
proof (induction i)
  case (Suc i)
  have "in_bucket ns i \<le> length ns" by (simp add: in_bucket_def)
  then have "unat (of_nat (in_bucket ns i) :: u64) = in_bucket ns i" using assms(1) by (simp add: unat_of_nat)
  then show ?case using Suc by (simp add: take_Suc_conv_app_nth bucket_counts_def kNumBuckets_def up_to_Suc)
qed (simp add: up_to_def)

text \<open>The sample of rank \<open>t\<close> lies in the bucket at which the counts reach \<open>t\<close>.\<close>

lemma up_to_sort: "up_to (sort ns) i = up_to ns i"
  unfolding up_to_def by (metis filter_sort length_sort)

lemma rank_bucket:
  assumes "0 < t" and "t \<le> length ns" and "x = sort ns ! (t - 1)"
  shows "up_to ns (bucketFor x) < t" and "t \<le> up_to ns (Suc (bucketFor x))"
proof -
  let ?xs = "sort ns"
  have idx: "t - 1 < length ?xs" using assms by simp
  have split: "?xs = take (t - 1) ?xs @ x # drop t ?xs" using id_take_nth_drop [OF idx] assms(1,3) by simp
  have sorted: "sorted (take (t - 1) ?xs @ x # drop t ?xs)" using split sorted_sort by metis
  have low: "bucketFor y < Suc (bucketFor x)" if "y \<in> set (take (t - 1) ?xs)" for y
    using that sorted bucketFor_mono [of y x] by (auto simp: sorted_append)
  have high: "\<not> bucketFor y < bucketFor x" if "y \<in> set (x # drop t ?xs)" for y
    using that sorted bucketFor_mono [of x y] by (auto simp: sorted_append)
  have "filter (\<lambda>n. bucketFor n < bucketFor x) (x # drop t ?xs) = []" using high by (simp only: filter_empty_conv) blast
  then have "up_to ?xs (bucketFor x) = length (filter (\<lambda>n. bucketFor n < bucketFor x) (take (t - 1) ?xs))"
    unfolding up_to_def by (subst split) (simp only: filter_append length_append list.size add_0_right)
  also have "\<dots> \<le> t - 1" using length_filter_le [of _ "take (t - 1) ?xs"] by (rule order_trans) simp
  finally show "up_to ns (bucketFor x) < t" using assms(1) by (simp add: up_to_sort)
  have "filter (\<lambda>n. bucketFor n < Suc (bucketFor x)) (take (t - 1) ?xs) = take (t - 1) ?xs"
    using low by (simp only: filter_id_conv) blast
  then have "t - 1 + 1 \<le> up_to ?xs (Suc (bucketFor x))"
    unfolding up_to_def using assms(2) by (subst split) simp
  then show "t \<le> up_to ns (Suc (bucketFor x))" using assms(1) by (simp add: up_to_sort)
qed

definition rank_of :: "nat \<Rightarrow> u64 list \<Rightarrow> nat" where
  "rank_of fraction ns = unat (max 1 (scaled fraction (of_nat (length ns))))"

lemma percentile_is_rank:
  assumes "ns \<noteq> []" and "length ns < 2 ^ 64" and "scaled fraction (of_nat (length ns)) \<le> of_nat (length ns)"
  shows "percentileValue (bucket_counts ns) (of_nat (length ns)) fraction = push_bit (bucketFor (sort ns ! (rank_of fraction ns - 1))) 1"
    and "0 < rank_of fraction ns" and "rank_of fraction ns \<le> length ns"
proof -
  let ?n = "of_nat (length ns) :: u64" and ?t = "rank_of fraction ns"
  let ?x = "sort ns ! (?t - 1)"
  have n: "unat ?n = length ns" using assms(2) by (simp add: unat_of_nat)
  have "1 \<le> ?n" using assms(1) n by (simp add: word_le_nat_alt Suc_le_eq)
  then have "max 1 (scaled fraction ?n) \<le> ?n" using assms(3) by simp
  then show le: "?t \<le> length ns" by (simp add: rank_of_def word_le_nat_alt n)
  have "1 \<le> max 1 (scaled fraction ?n)" by simp
  then show pos: "0 < ?t" by (simp add: rank_of_def word_le_nat_alt)
  note r = rank_bucket [OF pos le refl]
  have i: "Suc (bucketFor ?x) \<le> 64" by (simp add: Suc_le_eq)
  have "percentile_loop (bucket_counts ns) (max 1 (scaled fraction ?n)) 0 0 = push_bit (0 + bucketFor ?x) 1"
  proof (rule percentile_loop_finds)
    show "unat (0 :: u64) + sum_list (map unat (bucket_counts ns)) < 2 ^ 64"
      using sum_unat_counts [OF assms(2), of 64] up_to_le [of ns 64] assms(2) by (simp add: bucket_counts_def kNumBuckets_def)
    show "bucketFor ?x < length (bucket_counts ns)" by (simp add: bucket_counts_def kNumBuckets_def)
    show "unat (0 :: u64) + sum_list (map unat (take (bucketFor ?x) (bucket_counts ns))) < unat (max 1 (scaled fraction ?n))"
      using r(1) sum_unat_counts [OF assms(2), of "bucketFor ?x"] i by (simp add: rank_of_def)
    show "unat (max 1 (scaled fraction ?n)) \<le> unat (0 :: u64) + sum_list (map unat (take (Suc (bucketFor ?x)) (bucket_counts ns)))"
      using r(2) sum_unat_counts [OF assms(2) i] by (simp add: rank_of_def)
  qed
  then show "percentileValue (bucket_counts ns) ?n fraction = push_bit (bucketFor ?x) 1"
    by (simp add: percentileValue_def Let_def)
qed

subsection \<open>Concurrent recording\<close>

primrec sample :: "Recorder \<Rightarrow> u64" where
  "sample (Rec_Start n) = n"
| "sample (Rec_Counted n) = n"
| "sample (Rec_Loaded n p) = n"
| "sample (Rec_Done n) = n"

primrec counted :: "Recorder \<Rightarrow> bool" where
  "counted (Rec_Start n) = False"
| "counted (Rec_Counted n) = True"
| "counted (Rec_Loaded n p) = True"
| "counted (Rec_Done n) = True"

primrec is_done :: "Recorder \<Rightarrow> bool" where
  "is_done (Rec_Start n) = False"
| "is_done (Rec_Counted n) = False"
| "is_done (Rec_Loaded n p) = False"
| "is_done (Rec_Done n) = True"

definition start_recording :: "string \<Rightarrow> recording" where
  "start_recording name = \<lparr>rc_hist = new_histogram name, rc_calls = []\<rparr>"

definition counted_samples :: "Recorder list \<Rightarrow> u64 multiset" where
  "counted_samples calls = image_mset sample (filter_mset counted (mset calls))"

text \<open>The maximum is one of the samples, no smaller than any sample that is done and any value loaded.\<close>

definition max_ok :: "u64 \<Rightarrow> Recorder \<Rightarrow> bool" where
  "max_ok m r = (case r of Rec_Done n \<Rightarrow> n \<le> m | Rec_Loaded n p \<Rightarrow> p \<le> m | _ \<Rightarrow> True)"

definition recording_inv :: "recording \<Rightarrow> bool" where
  "recording_inv s \<longleftrightarrow>
     (\<exists>ns. mset ns = counted_samples (rc_calls s) \<and> buckets (rc_hist s) = bucket_counts ns)
     \<and> maxNanos (rc_hist s) \<in> insert 0 (sample ` set (rc_calls s))
     \<and> (\<forall>r \<in> set (rc_calls s). max_ok (maxNanos (rc_hist s)) r)"

lemma bucket_counts_mset: "mset ns = mset ms \<Longrightarrow> bucket_counts ns = bucket_counts ms"
proof -
  assume eq: "mset ns = mset ms"
  have "in_bucket ns i = size (filter_mset (\<lambda>n. bucketFor n = i) (mset ns))" for ns i
    by (simp add: in_bucket_def flip: mset_filter)
  then show ?thesis by (simp add: bucket_counts_def eq)
qed

lemma counted_samples_update:
  assumes "k < length calls" and "sample r = sample (calls ! k)"
  shows "counted_samples (calls[k := r]) =
    (if counted (calls ! k) = counted r then counted_samples calls
     else if counted r then add_mset (sample r) (counted_samples calls) else counted_samples calls - {#sample r#})"
proof -
  have "calls ! k \<in># mset calls" using assms(1) by simp
  then obtain M where M: "mset calls = add_mset (calls ! k) M" by (metis multi_member_split)
  have "mset (calls[k := r]) = add_mset r M" using assms(1) by (simp add: mset_update M)
  then show ?thesis using M assms(2) by (simp add: counted_samples_def)
qed

lemma sample_update: "k < length calls \<Longrightarrow> sample r = sample (calls ! k) \<Longrightarrow> sample ` set (calls[k := r]) = sample ` set calls"
  by (metis list.set_map list_update_id map_update)

text \<open>A step of one call that leaves the buckets alone and does not lower the maximum.\<close>

lemma recording_inv_call:
  assumes "recording_inv s" and "k < length (rc_calls s)" and "sample r = sample (rc_calls s ! k)"
    and "counted r" and "counted (rc_calls s ! k)" and "buckets h = buckets (rc_hist s)"
    and "maxNanos (rc_hist s) \<le> maxNanos h" and "maxNanos h = maxNanos (rc_hist s) \<or> maxNanos h = sample r"
    and "max_ok (maxNanos h) r"
  shows "recording_inv (set_call k r (s\<lparr>rc_hist := h\<rparr>))"
proof -
  have mono: "max_ok (maxNanos h) r'" if "max_ok (maxNanos (rc_hist s)) r'" for r'
    using that assms(7) by (auto simp: max_ok_def split: Recorder.splits)
  have "\<forall>r' \<in> set ((rc_calls s)[k := r]). max_ok (maxNanos h) r'"
    using assms(1,9) mono set_update_subset_insert [of "rc_calls s" k r] by (auto simp: recording_inv_def)
  moreover have "sample r \<in> sample ` set (rc_calls s)" using assms(2,3) by simp
  ultimately show ?thesis
    using assms counted_samples_update [OF assms(2,3)] sample_update [OF assms(2,3)]
    by (auto simp: recording_inv_def set_call_def)
qed

lemma recording_inv_step: "record_step s s' \<Longrightarrow> recording_inv s \<Longrightarrow> recording_inv s'"
proof (induction rule: record_step.induct)
  case (call s n)
  then show ?case by (auto simp: recording_inv_def counted_samples_def max_ok_def)
next
  case (count k s n)
  obtain ns where ns: "mset ns = counted_samples (rc_calls s)" "buckets (rc_hist s) = bucket_counts ns"
    using count(3) by (auto simp: recording_inv_def)
  have "mset (ns @ [n]) = counted_samples ((rc_calls s)[k := Rec_Counted n])"
    using counted_samples_update [OF count(1), of "Rec_Counted n"] count(2) ns(1) by simp
  moreover have "buckets (count_sample n (rc_hist s)) = bucket_counts (ns @ [n])" by (rule count_sample_counts [OF ns(2)])
  ultimately have "\<exists>ns. mset ns = counted_samples ((rc_calls s)[k := Rec_Counted n])
      \<and> buckets (count_sample n (rc_hist s)) = bucket_counts ns" by blast
  moreover have "\<forall>r \<in> set ((rc_calls s)[k := Rec_Counted n]). max_ok (maxNanos (rc_hist s)) r"
    using count(3) set_update_subset_insert [of "rc_calls s" k "Rec_Counted n"] by (auto simp: recording_inv_def max_ok_def)
  ultimately show ?case
    using count(3) sample_update [OF count(1), of "Rec_Counted n"] count(2) by (simp add: recording_inv_def set_call_def)
next
  case (load k s n)
  then show ?case
    using recording_inv_call [OF load(3,1), of "Rec_Loaded n (maxNanos (rc_hist s))" "rc_hist s"] by (simp add: max_ok_def)
next
  case (exit k s n prevMax)
  have "max_ok (maxNanos (rc_hist s)) (rc_calls s ! k)" using exit(1,4) by (simp add: recording_inv_def)
  then have "n \<le> maxNanos (rc_hist s)" using exit(2,3) by (simp add: max_ok_def)
  then show ?case
    using recording_inv_call [OF exit(4,1), of "Rec_Done n" "rc_hist s"] exit(2) by (simp add: max_ok_def)
next
  case (exchange k s n prevMax)
  then show ?case
    using recording_inv_call [OF exchange(5,1), of "Rec_Done n" "(rc_hist s)\<lparr>maxNanos := n\<rparr>"] by (simp add: max_ok_def)
next
  case (retry k s n prevMax)
  then show ?case
    using recording_inv_call [OF retry(4,1), of "Rec_Loaded n (maxNanos (rc_hist s))" "rc_hist s"] by (simp add: max_ok_def)
qed

lemma recording_reachable: "rtranclp record_step (start_recording name) s \<Longrightarrow> recording_inv s"
proof (induction rule: rtranclp_induct)
  case base
  have "buckets (new_histogram name) = bucket_counts []" using record_all_buckets [of "[]" name] by (simp add: record_all_def)
  then show ?case by (simp add: recording_inv_def start_recording_def counted_samples_def new_histogram_def)
qed (rule recording_inv_step)

subsection \<open>The registry\<close>

text \<open>A name keeps its histogram; a new one is empty, and a logging round empties all.\<close>

lemma get_histogram_lookup:
  assumes "get_histogram name reg = (reg', h)"
  shows "map_of reg' name = Some h" and "other \<noteq> name \<Longrightarrow> map_of reg' other = map_of reg other"
    and "get_histogram name reg' = (reg', h)"
  using assms by (auto simp: get_histogram_def map_add_def split: option.splits)

text \<open>A timed scope records one sample under its name and changes nothing else.\<close>

definition histogram_of :: "HistogramRegistry \<Rightarrow> string \<Rightarrow> LatencyHistogram" where
  "histogram_of hists name = snd (get_histogram name hists)"

lemma histogram_of_lookup: "histogram_of hists name = (case map_of hists name of Some h \<Rightarrow> h | None \<Rightarrow> new_histogram name)"
  by (simp add: histogram_of_def get_histogram_def split: option.splits)

lemma map_of_timed: "map_of (map (\<lambda>(other, g). (other, if other = name then f g else g)) hists) key
    = map_option (if key = name then f else (\<lambda>g. g)) (map_of hists key)"
  by (induction hists) auto

lemma histogram_of_timed [simp]:
  "histogram_of (timed name clock hists) other =
    (if other = name then timer_record (fst clock) (snd clock) (histogram_of hists name) else histogram_of hists other)"
proof -
  obtain hists1 h where g: "get_histogram name hists = (hists1, h)" by (rule prod.exhaust)
  have "map_of hists1 name = Some h" "other \<noteq> name \<Longrightarrow> map_of hists1 other = map_of hists other" "histogram_of hists name = h"
    using get_histogram_lookup [OF g] g by (auto simp: histogram_of_def)
  then show ?thesis by (auto simp: timed_def g histogram_of_lookup map_of_timed option.map_id0 split: option.splits)
qed

lemma histogram_of_new [simp]: "histogram_of [] name = new_histogram name"
  by (simp add: histogram_of_lookup)

lemma histogram_of_reset [simp]: "histogram_of (reset_all hists) name =
    (case map_of hists name of Some h \<Rightarrow> reset_histogram h | None \<Rightarrow> new_histogram name)"
  unfolding reset_all_def by (induction hists) (auto simp: histogram_of_lookup)

text \<open>The registry never holds two histograms of a name, and each carries its name and has all its buckets.\<close>

definition hists_inv :: "HistogramRegistry \<Rightarrow> bool" where
  "hists_inv hists \<longleftrightarrow> distinct (map fst hists) \<and> (\<forall>(name, h) \<in> set hists. lh_name h = name \<and> length (buckets h) = kNumBuckets)"

lemma record_nanos_shape [simp]: "lh_name (record_nanos n h) = lh_name h" "length (buckets (record_nanos n h)) = length (buckets h)"
  by (simp_all add: record_nanos_def count_sample_def Let_def)

lemma hists_inv_timed: "hists_inv hists \<Longrightarrow> hists_inv (timed name clock hists)"
proof -
  assume inv: "hists_inv hists"
  obtain hists1 h where g: "get_histogram name hists = (hists1, h)" by (rule prod.exhaust)
  have "hists_inv hists1"
    using inv g by (auto simp: hists_inv_def get_histogram_def new_histogram_def map_of_eq_None_iff image_iff split: option.splits)
  moreover have "map fst (timed name clock hists) = map fst hists1" by (simp add: timed_def g case_prod_unfold o_def)
  moreover have "\<forall>(other, h) \<in> set (timed name clock hists). lh_name h = other \<and> length (buckets h) = kNumBuckets"
    using calculation(1) by (auto simp: hists_inv_def timed_def g timer_record_def)
  ultimately show ?thesis by (simp add: hists_inv_def)
qed

lemma hists_inv_reset: "hists_inv hists \<Longrightarrow> hists_inv (reset_all hists)"
  by (auto simp: hists_inv_def reset_all_def reset_histogram_def o_def case_prod_unfold)

lemma reset_new: "hists_inv hists \<Longrightarrow> histogram_of (reset_all hists) name = new_histogram name"
  by (auto simp: hists_inv_def new_histogram_def reset_histogram_def map_replicate_const dest!: map_of_SomeD split: option.splits)

lemma record_all_append: "record_all (ns @ ms) h = record_all ms (record_all ns h)"
  by (simp add: record_all_def)

lemma record_all_one: "record_all [n] h = record_nanos n h" and record_all_none [simp]: "record_all [] h = h"
  by (simp_all add: record_all_def)

lemma sum_list_zeros: "sum_list (map (\<lambda>_. 0 :: u64) xs) = 0"
  by (induction xs) simp_all

lemma log_round_empties: "\<forall>s \<in> set (snapshotAll (snd (log_round reg))). hs_count s = 0 \<and> hs_max s = 0"
  by (auto simp: log_round_def reset_all_def snapshotAll_def snapshot_def reset_histogram_def sum_list_zeros Let_def)

section \<open>Properties\<close>

definition brackets :: "u64 \<Rightarrow> u64 \<Rightarrow> bool" where
  "brackets p x \<longleftrightarrow> (if x = 0 then p = 1 else unat p \<le> unat x \<and> unat x < 2 * unat p)"

lemma brackets_bucket: "brackets (push_bit (bucketFor x) 1) x"
proof -
  have "(2 :: u64) ^ k = of_nat (2 ^ k)" for k by simp
  moreover have "(2 :: nat) ^ bucketFor x < 2 ^ 64" by (intro power_strict_increasing) simp_all
  ultimately have "unat (push_bit (bucketFor x) (1 :: u64)) = 2 ^ bucketFor x"
    by (simp only: push_bit_eq_mult mult_1 unat_of_nat) simp
  then show ?thesis using bucketFor_range [of x] by (auto simp: brackets_def bucketFor_def)
qed

text \<open>
  C37 (functional): a snapshot of a histogram into which a list of samples was recorded has
  their number and their maximum, and each percentile is the lower bound of the power-of-two
  bucket of the sample of its rank: the true order statistic lies between the reported value
  and its double. The rank, computed in floating point, is always a valid one.
\<close>

theorem snapshot_percentiles:
  assumes "ns \<noteq> []" and "length ns < 2 ^ 64"
  shows "hs_count (snapshot (record_all ns (new_histogram name))) = of_nat (length ns)
    \<and> hs_max (snapshot (record_all ns (new_histogram name))) = Max (set ns)
    \<and> brackets (hs_p50 (snapshot (record_all ns (new_histogram name)))) (sort ns ! (rank_of FRACTION_50 ns - 1))
    \<and> brackets (hs_p90 (snapshot (record_all ns (new_histogram name)))) (sort ns ! (rank_of FRACTION_90 ns - 1))
    \<and> brackets (hs_p99 (snapshot (record_all ns (new_histogram name)))) (sort ns ! (rank_of FRACTION_99 ns - 1))
    \<and> {rank_of FRACTION_50 ns, rank_of FRACTION_90 ns, rank_of FRACTION_99 ns} \<subseteq> {1..length ns}"
proof -
  let ?n = "of_nat (length ns) :: u64"
  have "unat ?n = length ns" using assms(2) by (simp add: unat_of_nat)
  then have n: "?n \<noteq> 0" using assms(1) by (metis length_0_conv unat_0)
  have m: "Max (set (0 # ns)) = Max (set ns)" using assms(1) by (simp add: Max_insert)
  note p = percentile_is_rank [OF assms fractions_le(1)] percentile_is_rank [OF assms fractions_le(2)]
    percentile_is_rank [OF assms fractions_le(3)]
  have s: "snapshot (record_all ns (new_histogram name)) = \<lparr>hs_name = name, hs_count = ?n,
      hs_p50 = percentileValue (bucket_counts ns) ?n FRACTION_50, hs_p90 = percentileValue (bucket_counts ns) ?n FRACTION_90,
      hs_p99 = percentileValue (bucket_counts ns) ?n FRACTION_99, hs_max = Max (set ns)\<rparr>"
    using n by (simp only: snapshot_def Let_def record_all_buckets total_counts [OF assms(2)] record_all_max record_all_name m) simp
  show ?thesis unfolding s using p brackets_bucket by (auto simp: Suc_le_eq)
qed

theorem snapshot_percentiles_witness:
  "hs_count (snapshot (record_all [5, 700, 6] (new_histogram ''x''))) = 3
     \<and> hs_max (snapshot (record_all [5, 700, 6] (new_histogram ''x''))) = 700"
  using snapshot_percentiles [of "[5, 700, 6]" "''x''"] by (simp add: max_def)

text \<open>
  C38 (safety): concurrent recording loses nothing. However the calls of any number of
  threads interleave, spurious failures of the compare-and-exchange included, once all calls
  are done every bucket has the number of its samples and the maximum is the largest sample.
\<close>

theorem concurrent_recording_exact:
  assumes "rtranclp record_step (start_recording name) s" and "list_all is_done (rc_calls s)"
  shows "buckets (rc_hist s) = bucket_counts (map sample (rc_calls s))
    \<and> maxNanos (rc_hist s) = Max (set (0 # map sample (rc_calls s)))"
proof
  have inv: "recording_inv s" using assms(1) by (rule recording_reachable)
  have done_cases: "is_done r \<Longrightarrow> counted r \<and> max_ok m r = (sample r \<le> m)" for r m by (cases r) (simp_all add: max_ok_def)
  have "counted_samples (rc_calls s) = mset (map sample (rc_calls s))"
    using assms(2) done_cases unfolding counted_samples_def list_all_iff
    by (metis (no_types, lifting) filter_mset_True filter_mset_cong mset_map set_mset_mset)
  then show "buckets (rc_hist s) = bucket_counts (map sample (rc_calls s))"
    using inv bucket_counts_mset by (metis recording_inv_def)
  show "maxNanos (rc_hist s) = Max (set (0 # map sample (rc_calls s)))"
  proof (rule Max_eqI [symmetric])
    show "maxNanos (rc_hist s) \<in> set (0 # map sample (rc_calls s))" using inv by (simp add: recording_inv_def)
    fix y
    assume "y \<in> set (0 # map sample (rc_calls s))"
    then show "y \<le> maxNanos (rc_hist s)"
      using inv assms(2) done_cases [where m = "maxNanos (rc_hist s)"] by (auto simp: recording_inv_def list_all_iff)
  qed simp
qed

theorem concurrent_recording_exact_witness:
  "\<exists>s. rtranclp record_step (start_recording ''x'') s \<and> map sample (rc_calls s) = [7] \<and> maxNanos (rc_hist s) = 7"
proof -
  let ?h = "count_sample 7 (new_histogram ''x'')"
  let ?s0 = "start_recording ''x''" and ?s1 = "\<lparr>rc_hist = new_histogram ''x'', rc_calls = [Rec_Start 7]\<rparr>"
    and ?s2 = "\<lparr>rc_hist = ?h, rc_calls = [Rec_Counted 7]\<rparr>"
    and ?s3 = "\<lparr>rc_hist = ?h, rc_calls = [Rec_Loaded 7 0]\<rparr>"
    and ?s4 = "\<lparr>rc_hist = ?h\<lparr>maxNanos := 7\<rparr>, rc_calls = [Rec_Done 7]\<rparr>"
  have m: "maxNanos ?h = 0" by (simp add: new_histogram_def)
  have 1: "record_step ?s0 ?s1" using record_step.call [of ?s0 7] by (simp add: start_recording_def)
  have 2: "record_step ?s1 ?s2" using record_step.count [of 0 ?s1 7] by (simp add: set_call_def)
  have 3: "record_step ?s2 ?s3" using record_step.load [of 0 ?s2 7] m by (simp add: set_call_def)
  have 4: "record_step ?s3 ?s4" using record_step.exchange [of 0 ?s3 7 0] m by (simp add: set_call_def)
  note step = rtranclp.rtrancl_into_rtrancl [where r = record_step]
  have run: "rtranclp record_step ?s0 ?s4" by (rule step [OF step [OF step [OF r_into_rtranclp [where r = record_step, OF 1] 2] 3] 4])
  show ?thesis using concurrent_recording_exact [OF run] run by (intro exI [of _ ?s4]) simp
qed

end
