(* ===== verification/Engine_Process.thy ===== *)
theory Engine_Process
  imports Control_Server Replay_Tools Histogram
begin

text \<open>
  The two executables that put the engine together, \<^verbatim>\<open>engine/src/main.cpp\<close> and the test harness
  \<^verbatim>\<open>engine/tools/replay/test_engine_harness.cpp\<close>: a shared-memory segment, the registry on it and
  the service on the registry.

  The environment variables are a map, the random instance id is a parameter, and so is
  whether gRPC could start the server. The running service is a step relation of whole calls
  and of steps of the registry's workers between and, while a call waits, during them. Around
  it the process has the latency histograms and the detached thread that prints and resets
  them; the times at which that thread wakes up are not modelled.
\<close>

section \<open>Definitions\<close>

subsection \<open>The engine\<close>

definition controlPlaneAddress :: "(string \<rightharpoonup> string) \<Rightarrow> string" where
  "controlPlaneAddress getenv =
     (let host = getenv ''ENGINE_GRPC_HOST''; port = getenv ''ENGINE_GRPC_PORT''
      in (case host of Some h \<Rightarrow> h | None \<Rightarrow> ''127.0.0.1'') @ '':'' @ (case port of Some p \<Rightarrow> p | None \<Rightarrow> ''50051''))"

definition new_service :: "(SharedMemorySegment \<times> nat) option \<Rightarrow> u64 \<Rightarrow> ControlService" where
  "new_service existing iid = \<lparr>cs_registry = new_registry (open_segment existing), instanceId = iid\<rparr>"

text \<open>
  \<open>listens\<close> is the answer of \<^verbatim>\<open>BuildAndStart\<close> for the address. Without a server the process
  returns 1; otherwise it continues as the service at the address.
\<close>

definition engine_main :: "(string \<rightharpoonup> string) \<Rightarrow> (SharedMemorySegment \<times> nat) option \<Rightarrow> u64 \<Rightarrow> (string \<Rightarrow> bool)
    \<Rightarrow> (string \<times> ControlService) outcome" where
  "engine_main getenv existing iid listens =
     (let service = new_service existing iid; address = controlPlaneAddress getenv
      in if \<not> listens address then Exit 1 else Continue (address, service))"

subsection \<open>The test harness\<close>

definition kControlAddress :: string where "kControlAddress = ''127.0.0.1:57050''"

definition kFixedInstanceId :: u64 where "kFixedInstanceId = 1"

definition fixedPrecisionLookup :: "string \<Rightarrow> SymbolPrecision option" where
  "fixedPrecisionLookup symbol =
     (if symbol \<noteq> ''BTC/USD'' then None else Some \<lparr>pairDecimals = 1, lotDecimals = 8\<rparr>)"

definition harness_main :: "(SharedMemorySegment \<times> nat) option \<Rightarrow> (string \<Rightarrow> bool) \<Rightarrow> (string \<times> ControlService) outcome" where
  "harness_main existing listens =
     (let service = new_service existing kFixedInstanceId
      in if \<not> listens kControlAddress then Exit 1 else Continue (kControlAddress, service))"

subsection \<open>The running process\<close>

text \<open>
  A wait does to the registry what its other threads do. Fills that arrive while a stream is
  watched are pushed by the workers' steps, so its polls bring none of their own.
\<close>

definition fair_wait :: "waiting \<Rightarrow> bool" where
  "fair_wait meanwhile \<longleftrightarrow> (\<forall>key rq reg reg' answer. meanwhile key rq reg = (reg', answer) \<longrightarrow> rtranclp registry_step reg reg')"

inductive service_step :: "(string \<Rightarrow> SymbolPrecision option) \<Rightarrow> ControlService \<Rightarrow> ControlService \<Rightarrow> bool"
  for precisionLookup :: "string \<Rightarrow> SymbolPrecision option" where
  subscribe: "SubscribeBook precisionLookup t symbol svc = (svc', sreply) \<Longrightarrow> service_step precisionLookup svc svc'"
| unsubscribe: "UnsubscribeBook symbol svc = (svc', sreply) \<Longrightarrow> service_step precisionLookup svc svc'"
| place: "fair_wait meanwhile \<Longrightarrow> wire_request request \<Longrightarrow> PlaceOrder meanwhile request svc = (svc', oreply) \<Longrightarrow> service_step precisionLookup svc svc'"
| cancel: "fair_wait meanwhile \<Longrightarrow> CancelOrder meanwhile oid svc = (svc', oreply) \<Longrightarrow> service_step precisionLookup svc svc'"
| watch: "list_all (\<lambda>p. pl_arrivals p = []) ps \<Longrightarrow> WatchFills ps (cs_registry svc) = (reg, events, rest) \<Longrightarrow>
    service_step precisionLookup svc (svc\<lparr>cs_registry := reg\<rparr>)"
| background: "registry_step (cs_registry svc) reg \<Longrightarrow> service_step precisionLookup svc (svc\<lparr>cs_registry := reg\<rparr>)"

text \<open>
  The process: the service, the histograms of \<^verbatim>\<open>HistogramRegistry::instance()\<close> with the lines
  printed so far, and whether the logging thread is between printing and resetting, where it
  does not hold the mutex.
\<close>

record engine_process =
  ep_service :: ControlService
  ep_hists :: HistogramRegistry
  ep_printed :: "string list"
  ep_logging :: bool

definition new_process :: "ControlService \<Rightarrow> engine_process" where
  "new_process svc = \<lparr>ep_service = svc, ep_hists = [], ep_printed = [], ep_logging = False\<rparr>"

inductive process_step :: "(string \<Rightarrow> SymbolPrecision option) \<Rightarrow> engine_process \<Rightarrow> engine_process \<Rightarrow> bool"
  for precisionLookup :: "string \<Rightarrow> SymbolPrecision option" where
  service: "service_step precisionLookup (ep_service p) svc \<Longrightarrow> process_step precisionLookup p (p\<lparr>ep_service := svc\<rparr>)"
| sample: "name \<in> {''book.tick_to_apply'', ''ipc.ring_push''} \<Longrightarrow>
    process_step precisionLookup p (p\<lparr>ep_hists := timed name clock (ep_hists p)\<rparr>)"
| print: "\<not> ep_logging p \<Longrightarrow>
    process_step precisionLookup p (p\<lparr>ep_printed := ep_printed p @ log_lines (ep_hists p), ep_logging := True\<rparr>)"
| reset: "ep_logging p \<Longrightarrow> process_step precisionLookup p (p\<lparr>ep_hists := reset_all (ep_hists p), ep_logging := False\<rparr>)"

section \<open>Lemmas\<close>

text \<open>Every call is a run of the registry's critical sections, and the instance id is constant.\<close>

lemma WatchFills_steps:
  "list_all (\<lambda>p. pl_arrivals p = []) ps \<Longrightarrow> WatchFills ps reg = (reg', events, rest) \<Longrightarrow> rtranclp registry_step reg reg'"
proof (induction ps reg arbitrary: reg' events rest rule: WatchFills.induct)
  case (2 p ps reg)
  obtain reg1 out where w: "waitForFill reg = (reg1, out)" by (rule prod.exhaust)
  have step: "registry_step reg reg1" using w by (rule registry_step.fill)
  have "reg' = reg \<or> reg' = reg1 \<or> rtranclp registry_step reg1 reg'"
    using 2 w by (cases out) (auto split: if_splits prod.splits)
  then show ?case using step by (auto intro: converse_rtranclp_into_rtranclp)
qed simp

lemma fair_waitD: "fair_wait meanwhile \<Longrightarrow> meanwhile key rq reg = (reg', answer) \<Longrightarrow> rtranclp registry_step reg reg'"
  unfolding fair_wait_def by blast

lemma service_step_registry:
  assumes "service_step lookup svc svc'"
  shows "rtranclp registry_step (cs_registry svc) (cs_registry svc') \<and> instanceId svc' = instanceId svc"
  using assms
proof cases
  case (subscribe t symbol sreply)
  then show ?thesis using SubscribeBook_steps by (auto simp: SubscribeBook_def split: prod.splits)
next
  case (unsubscribe symbol sreply)
  then show ?thesis using UnsubscribeBook_steps by (auto simp: UnsubscribeBook_def split: prod.splits)
next
  case (place meanwhile request oreply)
  have "rtranclp registry_step (cs_registry svc) (cs_registry svc')"
    by (rule PlaceOrder_steps [OF place(3,2)]) (rule fair_waitD [OF place(1)])
  then show ?thesis using place by (auto simp: PlaceOrder_def split: prod.splits)
next
  case (cancel meanwhile oid oreply)
  have "rtranclp registry_step (cs_registry svc) (cs_registry svc')"
    by (rule CancelOrder_steps [OF cancel(2)]) (rule fair_waitD [OF cancel(1)])
  then show ?thesis using cancel by (auto simp: CancelOrder_def split: prod.splits)
next
  case (watch ps reg events rest)
  then show ?thesis using WatchFills_steps by simp
qed auto

lemma service_reachable:
  "rtranclp (service_step lookup) (new_service existing iid) svc \<Longrightarrow>
    rtranclp registry_step (new_registry (open_segment existing)) (cs_registry svc) \<and> GetEngineInfo svc = iid"
proof (induction rule: rtranclp_induct)
  case base
  then show ?case by (simp add: new_service_def GetEngineInfo_def)
next
  case (step svc svc')
  then show ?case using service_step_registry [OF step(2)] by (auto simp: GetEngineInfo_def intro: rtranclp_trans)
qed

lemma service_inv:
  assumes "rtranclp (service_step lookup) (new_service existing iid) svc" and "usable existing"
  shows "registry_inv (cs_registry svc)"
  using service_reachable [OF assms(1)] assms(2) by (intro registry_reachable_inv) simp_all

text \<open>The process around the service: what is proved of the service holds for the process.\<close>

lemma process_reachable:
  "rtranclp (process_step lookup) (new_process (new_service existing iid)) p \<Longrightarrow>
    rtranclp (service_step lookup) (new_service existing iid) (ep_service p) \<and> hists_inv (ep_hists p)"
proof (induction rule: rtranclp_induct)
  case base
  then show ?case by (simp add: new_process_def hists_inv_def)
next
  case (step p p')
  from step(2) step(3) show ?case
    by cases (auto simp: hists_inv_timed hists_inv_reset)
qed

text \<open>
  A sample recorded after the logging thread has printed and before it resets is lost: it is
  on no line, and after the reset the histogram is as new.
\<close>

lemma sample_between_print_and_reset_lost:
  assumes "rtranclp (process_step lookup) (new_process (new_service existing iid)) p" and "\<not> ep_logging p"
    and "name \<in> {''book.tick_to_apply'', ''ipc.ring_push''}"
  shows "\<exists>p'. rtranclp (process_step lookup) p p' \<and> ep_printed p' = ep_printed p @ log_lines (ep_hists p)
    \<and> ep_hists p' = reset_all (timed name clock (ep_hists p))
    \<and> histogram_of (ep_hists p') name = new_histogram name"
proof -
  let ?p1 = "p\<lparr>ep_printed := ep_printed p @ log_lines (ep_hists p), ep_logging := True\<rparr>"
  let ?p2 = "?p1\<lparr>ep_hists := timed name clock (ep_hists ?p1)\<rparr>"
  let ?p3 = "?p2\<lparr>ep_hists := reset_all (ep_hists ?p2), ep_logging := False\<rparr>"
  have "process_step lookup p ?p1" using assms(2) by (rule process_step.print)
  moreover have "process_step lookup ?p1 ?p2" using assms(3) by (rule process_step.sample)
  moreover have "process_step lookup ?p2 ?p3" by (rule process_step.reset) simp
  ultimately have "rtranclp (process_step lookup) p ?p3" by (meson converse_rtranclp_into_rtranclp rtranclp.rtrancl_refl)
  moreover have "hists_inv (timed name clock (ep_hists p))" using process_reachable [OF assms(1)] hists_inv_timed by blast
  ultimately show ?thesis by (intro exI [of _ ?p3]) (simp add: reset_new del: histogram_of_reset)
qed

text \<open>The worker's heartbeat is such a wait.\<close>

lemma fair_heartbeat: "fair_wait (heartbeat zlib net t cks)"
  by (auto simp: fair_wait_def intro: heartbeat_steps)

text \<open>A fresh harness serves exactly the recorded symbol.\<close>

lemma harness_serves:
  assumes "SubscribeBook fixedPrecisionLookup t symbol (new_service None iid) = (svc', reply)"
  shows "sr_ok reply \<longleftrightarrow> symbol = ''BTC/USD''"
proof (cases "symbol = ''BTC/USD''")
  case True
  obtain seg i where "claimSlot new_segment ''BTC/USD'' = (seg, Inr (Some i))" by (rule demo_claim)
  moreover have "check_precision (fixedPrecisionLookup ''BTC/USD'') = None"
    using demo_precision_ok by (simp add: fixedPrecisionLookup_def demo_precision_def)
  ultimately show ?thesis
    using assms True by (auto simp: SubscribeBook_def new_service_def subscribe_def subscribe_check_def subscribe_commit_def
        new_registry_def open_segment_def subscribe_reply_def sub_success_def split: prod.splits)
next
  case False
  let ?reg = "cs_registry (new_service None iid)"
  have "entries ?reg symbol = None" by (simp add: new_service_def new_registry_def)
  moreover have "check_precision (fixedPrecisionLookup symbol) = Some (sub_failure ''could not determine symbol precision'')"
    using False by (simp add: fixedPrecisionLookup_def check_precision_def)
  ultimately show ?thesis using subscribe_refused [of ?reg symbol fixedPrecisionLookup _ t] assms False
    by (auto simp: SubscribeBook_def subscribe_reply_def)
qed

end
