(* ===== verification/Replay_Bench.thy ===== *)
theory Replay_Bench
  imports Replay_Tools Delta_Feed Histogram "HOL-Library.Sublist"
begin

text \<open>
  The benchmark of the replayer, \<^verbatim>\<open>runBench\<close> and \<^verbatim>\<open>main\<close> of \<^verbatim>\<open>engine/tools/replay/replayer.cpp\<close>:
  a recording is replayed into a client whose delta callback pushes to a ring buffer, a second
  thread may pop from it, the latencies of all three go into histograms, and a report is
  printed at the end.

  The turns that the pop thread takes are a parameter: any number of them may happen before
  every callback and after the last frame. Each is one call of \<^verbatim>\<open>tryPop\<close>; how such a call
  interleaves with a push access by access is the subject of the theory of the ring buffer.
  All clock readings are parameters as well.
\<close>

section \<open>Definitions\<close>

text \<open>
  The world of a run: the readings of the client's own clock, of the timers around a message
  and around the push of a callback (counted within its frame), the turns of the pop thread
  before a callback with the readings of their timers, and the clock before and after.
\<close>

record bench_world =
  bw_client :: "nat \<Rightarrow> readings"
  bw_tick :: "nat \<Rightarrow> int \<times> int"
  bw_push :: "nat \<Rightarrow> nat \<Rightarrow> int \<times> int"
  bw_pops :: "nat \<Rightarrow> nat \<Rightarrow> (int \<times> int) list"
  bw_run :: "int \<times> int"

text \<open>The state: what was popped and the sleeps of the main thread are kept as logs.\<close>

record bench =
  bn_client :: Client
  bn_ring :: RingBuffer
  bn_hists :: HistogramRegistry
  bn_popped :: "BookDelta list"
  bn_slept :: "int list"

definition start_bench :: "ReplayerArgs \<Rightarrow> int \<Rightarrow> bench" where
  "start_bench args t = \<lparr>bn_client = tool_client args t, bn_ring = new_ring, bn_hists = [], bn_popped = [], bn_slept = []\<rparr>"

definition sleepNanos :: "ReplayerArgs \<Rightarrow> u64 \<Rightarrow> u64 \<Rightarrow> int list" where
  "sleepNanos args prev ts =
     (let gapNanos = ts - prev;
          n = (if rp_speed args = ''Nx'' then gapNanos div of_int (max 1 (rp_factor args)) else gapNanos)
      in if n > 0 then [sint n] else [])"

definition pop_turn :: "int \<times> int \<Rightarrow> bench \<Rightarrow> bench" where
  "pop_turn clock b =
     (let (rb, popped) = tryPop (bn_ring b)
      in b\<lparr>bn_ring := rb, bn_hists := timed ''ipc.ring_pop'' clock (bn_hists b),
           bn_popped := bn_popped b @ (case popped of None \<Rightarrow> [] | Some d \<Rightarrow> [d])\<rparr>)"

definition pop_thread :: "ReplayerArgs \<Rightarrow> (int \<times> int) list \<Rightarrow> bench \<Rightarrow> bench" where
  "pop_thread args turns b = (if rp_measurePop args then fold pop_turn turns b else b)"

fun bench_delta :: "string \<Rightarrow> int \<times> int \<Rightarrow> client_event \<Rightarrow> bench \<Rightarrow> bench result" where
  "bench_delta symbol clock (OnDelta side price quantity seq) b =
     bind_result (setSymbol zero_delta symbol) (\<lambda>delta.
       Inr (b\<lparr>bn_ring := fst (tryPush (bn_ring b) (delta\<lparr>bd_seq := seq, bd_side := toWireSide side, bd_price := price, bd_size := quantity\<rparr>)),
              bn_hists := timed ''ipc.ring_push'' clock (bn_hists b)\<rparr>))"
| "bench_delta symbol clock ev b = Inr b"

fun bench_events :: "ReplayerArgs \<Rightarrow> bench_world \<Rightarrow> nat \<Rightarrow> nat \<Rightarrow> client_event list \<Rightarrow> bench \<Rightarrow> bench result" where
  "bench_events args w n i [] b = Inr b"
| "bench_events args w n i (ev # evs) b =
     bind_result (bench_delta (rp_symbol args) (bw_push w n i) ev (pop_thread args (bw_pops w n i) b))
       (bench_events args w n (Suc i) evs)"

text \<open>One message with its callbacks and its timer.\<close>

definition bench_message :: "'v simdjson \<Rightarrow> zlib_crc32 \<Rightarrow> network \<Rightarrow> ReplayerArgs \<Rightarrow> bench_world \<Rightarrow> nat \<Rightarrow> string \<Rightarrow> bench \<Rightarrow> bench result" where
  "bench_message js zlib net args w n payload b =
     (let (exc, c1) = handleMessage js zlib net (bw_client w n) payload (bn_client b)
      in bind_result (bench_events args w n 0 (new_events (bn_client b) c1) b) (\<lambda>b1.
           case exc of
             Some e \<Rightarrow> Inl e
           | None \<Rightarrow> Inr (b1\<lparr>bn_client := c1, bn_hists := timed ''book.tick_to_apply'' (bw_tick w n) (bn_hists b1)\<rparr>)))"

fun bench_loop :: "'v simdjson \<Rightarrow> zlib_crc32 \<Rightarrow> network \<Rightarrow> ReplayerArgs \<Rightarrow> bench_world \<Rightarrow> nat \<Rightarrow> u64 option \<Rightarrow> RecordedFrame list
    \<Rightarrow> bench \<Rightarrow> bench result" where
  "bench_loop js zlib net args w n prev [] b = Inr b"
| "bench_loop js zlib net args w n prev (frame # frames) b =
     (let slept = (case prev of
                     None \<Rightarrow> []
                   | Some p \<Rightarrow> if rp_speed args \<noteq> ''burst'' then sleepNanos args p (recvTsNanos frame) else [])
      in bind_result (bench_message js zlib net args w n (raw frame) (b\<lparr>bn_slept := bn_slept b @ slept\<rparr>))
           (bench_loop js zlib net args w (Suc n) (Some (recvTsNanos frame)) frames))"

text \<open>The whole measurement, until the pop thread has been joined.\<close>

definition bench_run :: "'v simdjson \<Rightarrow> zlib_crc32 \<Rightarrow> network \<Rightarrow> ReplayerArgs \<Rightarrow> int \<Rightarrow> bench_world \<Rightarrow> RecordedFrame list \<Rightarrow> bench result" where
  "bench_run js zlib net args t w frames =
     bind_result (bench_loop js zlib net args w 0 None frames (start_bench args t))
       (\<lambda>b. Inr (pop_thread args (bw_pops w (length frames) 0) b))"

definition bench_line :: "HistSnapshot \<Rightarrow> string" where
  "bench_line s = ''  '' @ snapshot_text s"

definition loaded_line :: "ReplayerArgs \<Rightarrow> RecordedFrame list \<Rightarrow> string" where
  "loaded_line args frames = ''kraken_replayer: loaded '' @ to_string (length frames) @ '' frames from '' @ rp_inPath args @ [char_of (10 :: nat)]"

definition replayed_line :: "bench_world \<Rightarrow> RecordedFrame list \<Rightarrow> string" where
  "replayed_line w frames = ''kraken_replayer: replayed '' @ to_string (length frames) @ '' frames in ''
     @ to_string (nat ((snd (bw_run w) - fst (bw_run w)) div 1000000)) @ ''ms'' @ [char_of (10 :: nat)]"

definition bench_report :: "bench_world \<Rightarrow> RecordedFrame list \<Rightarrow> bench \<Rightarrow> string list" where
  "bench_report w frames b = replayed_line w frames # map bench_line (filter (\<lambda>s. hs_count s \<noteq> 0) (snapshotAll (bn_hists b)))"

text \<open>\<^verbatim>\<open>runBench\<close>: the lines on the standard output, and the exit.\<close>

definition runBench :: "'v simdjson \<Rightarrow> zlib_crc32 \<Rightarrow> network \<Rightarrow> ReplayerArgs \<Rightarrow> int \<Rightarrow> bench_world \<Rightarrow> files \<Rightarrow> string list \<times> unit outcome" where
  "runBench js zlib net args t w fs =
     (case loadFrames fs (rp_inPath args) of
        Exit n \<Rightarrow> ([], Exit n)
      | Terminate e \<Rightarrow> ([], Terminate e)
      | Continue frames \<Rightarrow>
          (case bench_run js zlib net args t w frames of
             Inl e \<Rightarrow> ([loaded_line args frames], Terminate e)
           | Inr b \<Rightarrow> (loaded_line args frames # bench_report w frames b, Exit 0)))"

text \<open>\<^verbatim>\<open>main\<close>; the verification reads the client's clock only.\<close>

definition replayer_main :: "'v simdjson \<Rightarrow> zlib_crc32 \<Rightarrow> network \<Rightarrow> (string \<Rightarrow> bool) \<Rightarrow> string list \<Rightarrow> int \<Rightarrow> bench_world \<Rightarrow> files
    \<Rightarrow> files \<times> unit outcome" where
  "replayer_main js zlib net writable argv t w fs =
     (case replayer_parseArgs argv of
        Exit n \<Rightarrow> (fs, Exit n)
      | Terminate e \<Rightarrow> (fs, Terminate e)
      | Continue args \<Rightarrow>
          if rp_mode args = ''bench'' then (fs, snd (runBench js zlib net args t w fs))
          else if rp_mode args = ''verify'' then
            (if rp_goldenPath args = [] then (fs, Exit 2) else runVerify js zlib net writable args t (bw_client w) fs)
          else (fs, Exit 2))"

section \<open>Lemmas\<close>

text \<open>An option without its value, as the last argument, ends the replayer by an exception.\<close>

lemma replayer_dangling_option:
  assumes "opt \<in> {''--in'', ''--speed'', ''--factor'', ''--golden'', ''--symbol''}"
  shows "replayer_main js zlib net writable [mode, opt] t w fs = (fs, null_argument)"
  using assms by (auto simp: replayer_main_def replayer_parseArgs_def null_argument_def)

text \<open>
  What holds after a list of callbacks: the ring buffer and the popped items together are
  the announced deltas without those that found the buffer full, which are counted, and
  every push has been timed. Without a pop thread the buffer keeps the first deltas.
\<close>

definition delta_events_of :: "client_event list \<Rightarrow> client_event list" where
  "delta_events_of evs = filter is_delta_event evs"

definition delivered :: "bench \<Rightarrow> client_event list" where
  "delivered b = map decode_delta (bn_popped b @ ring_items (bn_ring b))"

definition push_samples :: "bench \<Rightarrow> nat \<Rightarrow> bool" where
  "push_samples b n \<longleftrightarrow> (\<exists>ns. histogram_of (bn_hists b) ''ipc.ring_push'' = record_all ns (new_histogram ''ipc.ring_push'') \<and> length ns = n)"

definition unpopped :: "client_event list \<Rightarrow> bench \<Rightarrow> bool" where
  "unpopped evs b \<longleftrightarrow> bn_popped b = [] \<and> delivered b = take 4096 (delta_events_of evs)
     \<and> histogram_of (bn_hists b) ''ipc.ring_pop'' = new_histogram ''ipc.ring_pop''"

definition bench_inv :: "ReplayerArgs \<Rightarrow> client_event list \<Rightarrow> bench \<Rightarrow> bool" where
  "bench_inv args evs b \<longleftrightarrow> ring_inv (bn_ring b) \<and> subseq (delivered b) (delta_events_of evs)
     \<and> of_nat (length (delivered b)) + droppedCount (bn_ring b) = (of_nat (length (delta_events_of evs)) :: u64)
     \<and> push_samples b (length (delta_events_of evs)) \<and> (\<not> rp_measurePop args \<longrightarrow> unpopped evs b)"

lemma bench_inv_cong:
  assumes "bench_inv args evs b" and "bn_ring b' = bn_ring b" and "bn_popped b' = bn_popped b"
    and "\<And>name. name \<noteq> ''book.tick_to_apply'' \<Longrightarrow> histogram_of (bn_hists b') name = histogram_of (bn_hists b) name"
  shows "bench_inv args evs b'"
proof -
  have "delivered b' = delivered b" "push_samples b' = push_samples b" "unpopped evs b' = unpopped evs b"
    using assms(2-4) by (simp_all add: fun_eq_iff delivered_def push_samples_def unpopped_def)
  then show ?thesis using assms(1,2) by (simp add: bench_inv_def)
qed

text \<open>Which parts of the state the threads leave alone.\<close>

definition same_main :: "bench \<Rightarrow> bench \<Rightarrow> bool" where
  "same_main b b' \<longleftrightarrow> bn_client b' = bn_client b
     \<and> histogram_of (bn_hists b') ''book.tick_to_apply'' = histogram_of (bn_hists b) ''book.tick_to_apply''"

lemma pop_turn_inv:
  assumes "bench_inv args evs b" and "rp_measurePop args"
  shows "bench_inv args evs (pop_turn clock b)" and "same_main b (pop_turn clock b)"
proof -
  obtain rb out where p: "tryPop (bn_ring b) = (rb, out)" by (rule prod.exhaust)
  have inv: "ring_inv (bn_ring b)" using assms(1) by (simp add: bench_inv_def)
  have items: "(case out of None \<Rightarrow> [] | Some d \<Rightarrow> [d]) @ ring_items rb = ring_items (bn_ring b)" "ring_inv rb"
    using tryPop_law [OF inv p] by (auto split: option.splits)
  have "droppedCount rb = droppedCount (bn_ring b)" using p by (auto simp: tryPop_def Let_def split: if_splits)
  moreover have "delivered (pop_turn clock b) = delivered b"
    unfolding delivered_def items(1) [symmetric] by (simp add: pop_turn_def p)
  moreover have "push_samples (pop_turn clock b) = push_samples b" by (simp add: fun_eq_iff push_samples_def pop_turn_def p)
  moreover have "bn_ring (pop_turn clock b) = rb" by (simp add: pop_turn_def p)
  ultimately show "bench_inv args evs (pop_turn clock b)" using assms items(2) by (simp add: bench_inv_def)
  show "same_main b (pop_turn clock b)" by (simp add: same_main_def pop_turn_def p)
qed

lemma pop_thread_inv:
  assumes "bench_inv args evs b"
  shows "bench_inv args evs (pop_thread args turns b) \<and> same_main b (pop_thread args turns b)"
proof (cases "rp_measurePop args")
  case True
  have "bench_inv args evs (fold pop_turn turns b) \<and> same_main b (fold pop_turn turns b)"
    using assms
  proof (induction turns arbitrary: b)
    case (Cons clock turns)
    from Cons.IH [OF pop_turn_inv(1) [OF Cons.prems True]] show ?case
      using pop_turn_inv(2) [OF Cons.prems True] by (simp add: same_main_def)
  qed (simp add: same_main_def)
  then show ?thesis using True by (simp add: pop_thread_def)
qed (simp add: pop_thread_def same_main_def assms)

lemma push_samples_timed:
  "push_samples b n \<Longrightarrow> bn_hists b' = timed ''ipc.ring_push'' clock (bn_hists b) \<Longrightarrow> push_samples b' (Suc n)"
proof -
  assume "push_samples b n" and h: "bn_hists b' = timed ''ipc.ring_push'' clock (bn_hists b)"
  then obtain ns where ns: "histogram_of (bn_hists b) ''ipc.ring_push'' = record_all ns (new_histogram ''ipc.ring_push'')" "length ns = n"
    by (auto simp: push_samples_def)
  then show ?thesis
    by (auto simp: push_samples_def h timer_record_def record_all_append record_all_one
        intro!: exI [of _ "ns @ [of_int (snd clock - fst clock)]"])
qed

lemma bench_delta_inv:
  assumes "bench_inv args evs b" and "bench_delta symbol clock ev b = Inr b'"
  shows "bench_inv args (evs @ [ev]) b' \<and> same_main b b'"
proof (cases ev)
  case (OnDelta side p q seq)
  obtain delta where d: "setSymbol zero_delta symbol = Inr delta"
    using assms(2) OnDelta by (cases "setSymbol zero_delta symbol") (simp_all add: bind_result_def)
  obtain rb ok where r: "tryPush (bn_ring b) (wire_delta symbol 0 side p q seq) = (rb, ok)" by (rule prod.exhaust)
  have b': "b' = b\<lparr>bn_ring := rb, bn_hists := timed ''ipc.ring_push'' clock (bn_hists b)\<rparr>"
    using assms(2) OnDelta d r by (simp add: bind_result_def setSymbol_zero [OF d])
  have inv: "ring_inv (bn_ring b)" and old: "subseq (delivered b) (delta_events_of evs)"
    and sum: "of_nat (length (delivered b)) + droppedCount (bn_ring b) = (of_nat (length (delta_events_of evs)) :: u64)"
    using assms(1) by (simp_all add: bench_inv_def)
  note law = tryPush_law [OF inv r]
  have drop: "droppedCount rb = droppedCount (bn_ring b) + (if ok then 0 else 1)"
    using r by (auto simp: tryPush_def Let_def split: if_splits)
  have evs: "delta_events_of (evs @ [ev]) = delta_events_of evs @ [ev]" by (simp add: delta_events_of_def OnDelta)
  have del: "delivered b' = delivered b @ (if ok then [ev] else [])" using law by (simp add: delivered_def b' OnDelta)
  have "subseq (delivered b') (delta_events_of (evs @ [ev]))"
    unfolding del evs using old by (intro list_emb_append_mono) simp_all
  moreover have "of_nat (length (delivered b')) + droppedCount rb = (of_nat (length (delta_events_of (evs @ [ev]))) :: u64)"
    unfolding del evs drop using sum by (cases ok) (simp_all add: ac_simps flip: sum)
  moreover have "push_samples b' (length (delta_events_of (evs @ [ev])))"
    unfolding evs using assms(1) push_samples_timed [of b _ b' clock] by (simp add: bench_inv_def b')
  moreover have "unpopped (evs @ [ev]) b'" if "unpopped evs b"
  proof -
    have "length (ring_items (bn_ring b)) = length (take 4096 (delta_events_of evs))"
      using that by (metis append_Nil delivered_def length_map unpopped_def)
    then have "ok \<longleftrightarrow> length (delta_events_of evs) < 4096" using law by auto
    then have "delivered b' = take 4096 (delta_events_of (evs @ [ev]))"
      using that unfolding del evs by (simp add: unpopped_def)
    then show ?thesis using that by (simp add: unpopped_def b')
  qed
  ultimately show ?thesis using assms(1) law by (auto simp: bench_inv_def b' same_main_def)
qed (use assms in \<open>auto simp: bench_inv_def same_main_def unpopped_def delta_events_of_def\<close>)

lemma bench_events_inv:
  "bench_inv args evs b \<Longrightarrow> bench_events args w n i news b = Inr b' \<Longrightarrow> bench_inv args (evs @ news) b' \<and> same_main b b'"
proof (induction news arbitrary: evs b i)
  case (Cons ev news)
  let ?b1 = "pop_thread args (bw_pops w n i) b"
  obtain b2 where b2: "bench_delta (rp_symbol args) (bw_push w n i) ev ?b1 = Inr b2" "bench_events args w n (Suc i) news b2 = Inr b'"
    using Cons.prems(2) by (cases "bench_delta (rp_symbol args) (bw_push w n i) ev ?b1") (simp_all add: bind_result_def)
  note 1 = pop_thread_inv [OF Cons.prems(1), of "bw_pops w n i"]
  note 2 = bench_delta_inv [OF conjunct1 [OF 1] b2(1)]
  note 3 = Cons.IH [OF conjunct1 [OF 2] b2(2)]
  show ?case using 1 2 3 by (simp add: same_main_def)
qed (simp add: same_main_def)

lemma bench_message_inv:
  assumes "bench_inv args (cl_log (bn_client b)) b" and "bench_message js zlib net args w n payload b = Inr b'"
  shows "bench_inv args (cl_log (bn_client b')) b'"
    and "handleMessage js zlib net (bw_client w n) payload (bn_client b) = (None, bn_client b')"
    and "histogram_of (bn_hists b') ''book.tick_to_apply''
      = timer_record (fst (bw_tick w n)) (snd (bw_tick w n)) (histogram_of (bn_hists b) ''book.tick_to_apply'')"
proof -
  obtain exc c1 where h: "handleMessage js zlib net (bw_client w n) payload (bn_client b) = (exc, c1)" by (rule prod.exhaust)
  let ?evs = "new_events (bn_client b) c1"
  obtain b1 where b1: "bench_events args w n 0 ?evs b = Inr b1"
    using assms(2) h by (cases "bench_events args w n 0 ?evs b") (simp_all add: bench_message_def bind_result_def)
  have exc: "exc = None" and b': "b' = b1\<lparr>bn_client := c1, bn_hists := timed ''book.tick_to_apply'' (bw_tick w n) (bn_hists b1)\<rparr>"
    using assms(2) h b1 by (auto simp: bench_message_def bind_result_def split: option.splits)
  have inv: "bench_inv args (cl_log (bn_client b) @ ?evs) b1" and same: "same_main b b1"
    using bench_events_inv [OF assms(1) b1] by auto
  have "bench_inv args (cl_log c1) b1" using inv unfolding handleMessage_log [OF h, symmetric] .
  then show "bench_inv args (cl_log (bn_client b')) b'" unfolding b' by (simp add: bench_inv_cong)
  show "handleMessage js zlib net (bw_client w n) payload (bn_client b) = (None, bn_client b')" by (simp add: h exc b')
  show "histogram_of (bn_hists b') ''book.tick_to_apply''
      = timer_record (fst (bw_tick w n)) (snd (bw_tick w n)) (histogram_of (bn_hists b) ''book.tick_to_apply'')"
    using same by (simp add: b' same_main_def)
qed

definition tick_samples :: "bench_world \<Rightarrow> nat \<Rightarrow> nat \<Rightarrow> u64 list" where
  "tick_samples w n m = map (\<lambda>k. of_int (snd (bw_tick w k) - fst (bw_tick w k))) [n..<n + m]"

lemma tick_samples_Suc: "tick_samples w n (Suc m) = of_int (snd (bw_tick w n) - fst (bw_tick w n)) # tick_samples w (Suc n) m"
  by (simp add: tick_samples_def upt_conv_Cons del: upt_Suc)

lemma bench_loop_inv:
  "bench_inv args (cl_log (bn_client b)) b \<Longrightarrow> bench_loop js zlib net args w n prev frames b = Inr b' \<Longrightarrow>
     bench_inv args (cl_log (bn_client b')) b'
   \<and> bn_client b' = read_loop js zlib net (zip (map raw frames) (map (bw_client w) [n..<n + length frames])) (bn_client b)
   \<and> histogram_of (bn_hists b') ''book.tick_to_apply''
       = record_all (tick_samples w n (length frames)) (histogram_of (bn_hists b) ''book.tick_to_apply'')"
proof (induction frames arbitrary: b n prev)
  case (Cons frame frames)
  define b0 where "b0 = b\<lparr>bn_slept := bn_slept b @ (case prev of None \<Rightarrow> []
    | Some p \<Rightarrow> if rp_speed args \<noteq> ''burst'' then sleepNanos args p (recvTsNanos frame) else [])\<rparr>"
  have inv0: "bench_inv args (cl_log (bn_client b0)) b0"
    using Cons.prems(1) unfolding b0_def by (simp add: bench_inv_cong)
  obtain b1 where b1: "bench_message js zlib net args w n (raw frame) b0 = Inr b1"
    and l: "bench_loop js zlib net args w (Suc n) (Some (recvTsNanos frame)) frames b1 = Inr b'"
    using Cons.prems(2) unfolding bench_loop.simps Let_def b0_def [symmetric]
    by (cases "bench_message js zlib net args w n (raw frame) b0") (simp_all add: bind_result_def)
  note m = bench_message_inv [OF inv0 b1]
  have up: "[n..<n + Suc (length frames)] = n # [Suc n..<Suc n + length frames]" by (simp add: upt_conv_Cons del: upt_Suc)
  note ih = Cons.IH [OF m(1) l]
  have "bench_inv args (cl_log (bn_client b')) b'" using ih by (rule conjunct1)
  then show ?case
    using conjunct2 [OF ih] m(2,3)
    unfolding length_Cons up tick_samples_Suc by (intro conjI) (assumption, simp_all add: b0_def record_all_def timer_record_def del: upt_Suc)
qed (simp add: tick_samples_def)

lemma start_bench_inv: "bench_inv args (cl_log (bn_client (start_bench args t))) (start_bench args t)"
  by (auto simp: start_bench_def tool_client_def new_client_def bench_inv_def delivered_def push_samples_def unpopped_def
      delta_events_of_def new_ring_def [THEN arg_cong [where f = droppedCount]] intro: exI [of _ "[]"])

lemma bench_run_inv:
  assumes "bench_run js zlib net args t w frames = Inr b"
  shows "bench_inv args (cl_log (bn_client b)) b
    \<and> bn_client b = read_loop js zlib net (zip (map raw frames) (map (bw_client w) [0..<length frames])) (tool_client args t)
    \<and> histogram_of (bn_hists b) ''book.tick_to_apply'' = record_all (tick_samples w 0 (length frames)) (new_histogram ''book.tick_to_apply'')"
proof -
  obtain b1 where l: "bench_loop js zlib net args w 0 None frames (start_bench args t) = Inr b1"
    and b: "b = pop_thread args (bw_pops w (length frames) 0) b1"
    using assms by (cases "bench_loop js zlib net args w 0 None frames (start_bench args t)") (simp_all add: bench_run_def bind_result_def)
  note i = bench_loop_inv [OF start_bench_inv l]
  show ?thesis
    using i pop_thread_inv [OF conjunct1 [OF i], of "bw_pops w (length frames) 0"]
    unfolding b by (simp add: same_main_def start_bench_def)
qed

text \<open>For a symbol that fits its field the callbacks never throw.\<close>

lemma bench_events_total:
  assumes "length (rp_symbol args) < SYMBOL_BYTES"
  shows "\<exists>b'. bench_events args w n i evs b = Inr b'"
proof (induction evs arbitrary: i b)
  case (Cons ev evs)
  obtain b1 where "bench_delta (rp_symbol args) (bw_push w n i) ev (pop_thread args (bw_pops w n i) b) = Inr b1"
    using assms by (cases ev) (auto simp: bind_result_def setSymbol_def)
  then show ?case using Cons.IH by (simp add: bind_result_def)
qed simp

section \<open>Properties\<close>

text \<open>
  C35 (functional): the benchmark measures what it replays. A run that ends leaves the client
  exactly as reading the recorded frames does, at any speed and however the pop thread runs;
  the histogram of the messages has exactly one sample per frame, that of the pushes one per
  announced delta; the deltas popped and those left in the ring buffer are announced deltas in
  their order, and together with the dropped ones they are as many as were announced. Without
  a pop thread nothing makes room: the buffer keeps the first 4096 deltas, and every later
  sample of the pushes times a refused one.
\<close>

theorem benchmark_accounts_for_deltas:
  assumes "bench_run js zlib net args t w frames = Inr b"
  shows "bn_client b = read_loop js zlib net (zip (map raw frames) (map (bw_client w) [0..<length frames])) (tool_client args t)
    \<and> histogram_of (bn_hists b) ''book.tick_to_apply'' = record_all (tick_samples w 0 (length frames)) (new_histogram ''book.tick_to_apply'')
    \<and> push_samples b (length (filter is_delta_event (cl_log (bn_client b))))
    \<and> subseq (map decode_delta (bn_popped b @ ring_items (bn_ring b))) (filter is_delta_event (cl_log (bn_client b)))
    \<and> of_nat (length (bn_popped b @ ring_items (bn_ring b))) + droppedCount (bn_ring b)
        = (of_nat (length (filter is_delta_event (cl_log (bn_client b)))) :: u64)
    \<and> (\<not> rp_measurePop args \<longrightarrow>
        map decode_delta (ring_items (bn_ring b)) = take 4096 (filter is_delta_event (cl_log (bn_client b))))"
proof -
  note r = bench_run_inv [OF assms]
  have inv: "bench_inv args (cl_log (bn_client b)) b" using r by blast
  note i = inv [unfolded bench_inv_def delta_events_of_def]
  have len: "length (delivered b) = length (bn_popped b @ ring_items (bn_ring b))" unfolding delivered_def by (rule length_map)
  have "map decode_delta (ring_items (bn_ring b)) = take 4096 (filter is_delta_event (cl_log (bn_client b)))"
    if "\<not> rp_measurePop args"
  proof -
    have "unpopped (cl_log (bn_client b)) b" using i that by blast
    then show ?thesis by (auto simp: unpopped_def delivered_def delta_events_of_def)
  qed
  then show ?thesis using r i [unfolded len] unfolding delivered_def by blast
qed

definition demo_world :: bench_world where
  "demo_world = \<lparr>bw_client = (\<lambda>_. (1, 1)), bw_tick = (\<lambda>_. (0, 700)), bw_push = (\<lambda>_ _. (0, 40)), bw_pops = (\<lambda>_ _. [(0, 30)]), bw_run = (0, 2000000)\<rparr>"

lemma parse_demo_tree: "parseBookMessage (tree_js demo_tree) payload = Inr (Some demo_msg)"
  by (rule presents_parsed [OF demo_presents])

theorem benchmark_accounts_for_deltas_witness:
  "\<exists>b. bench_run (tree_js demo_tree) demo_zlib (\<lambda>_. True) default_replayer_args 0 demo_world [\<lparr>recvTsNanos = 5, raw = ''x''\<rparr>] = Inr b
     \<and> histogram_of (bn_hists b) ''book.tick_to_apply'' = record_all [700] (new_histogram ''book.tick_to_apply'')
     \<and> map decode_delta (ring_items (bn_ring b)) = take 4096 (filter is_delta_event (cl_log (bn_client b)))"
proof -
  let ?js = "tree_js demo_tree" and ?net = "\<lambda>_ :: string. True" and ?args = default_replayer_args
  let ?f = "\<lparr>recvTsNanos = 5, raw = ''x''\<rparr>" and ?c = "tool_client default_replayer_args 0"
  obtain exc c' where h: "handleMessage ?js demo_zlib ?net (1, 1) ''x'' ?c = (exc, c')" by (rule prod.exhaust)
  have sym: "length (rp_symbol ?args) < SYMBOL_BYTES" by (simp add: default_replayer_args_def SYMBOL_BYTES_def)
  have exc: "exc = None"
    using h by (auto simp: handleMessage_def handle_parsed_def and_then_def parse_demo_tree applyMessage_eq resubscribe_eq Let_def
        tool_client_def new_client_def default_replayer_args_def split: option.splits prod.splits if_splits)
  obtain b1 where "bench_events ?args demo_world 0 0 (new_events ?c c') (start_bench ?args 0) = Inr b1"
    using bench_events_total [OF sym] by blast
  then obtain b where r: "bench_run ?js demo_zlib ?net ?args 0 demo_world [?f] = Inr b"
    using h exc by (simp add: bench_run_def bind_result_def bench_message_def start_bench_def demo_world_def)
  moreover have "tick_samples demo_world 0 (length [?f]) = [700]" by (simp add: tick_samples_def demo_world_def)
  moreover have "\<not> rp_measurePop ?args" by (simp add: default_replayer_args_def)
  ultimately show ?thesis using benchmark_accounts_for_deltas [OF r] by metis
qed
end
