(* ===== verification/Client_Shutdown.thy ===== *)
theory Client_Shutdown
  imports Kraken_Book_Client
begin

text \<open>
  How a client is stopped: \<^verbatim>\<open>KrakenBookClient::run\<close> on the worker thread and
  \<^verbatim>\<open>KrakenBookClient::stop\<close> on the thread of a caller, in
  \<^verbatim>\<open>engine/src/market_data/kraken_book_client.cpp\<close>. \<^verbatim>\<open>SymbolRegistry::unsubscribe\<close> joins the worker
  after \<^verbatim>\<open>stop\<close> has returned, so it depends on the worker's loop ending.

  What the messages do is the subject of the theory of the client; here only the control flow
  of \<^verbatim>\<open>run\<close> is kept, with a program point before every operation that reads or writes
  what the two threads share: the stop flag, the socket and the condition variable of the
  backoff. Each critical section of \<^verbatim>\<open>wsMutex_\<close> is one step. A wait on the condition variable
  first tests its predicate; the notification of \<^verbatim>\<open>stop\<close>, which does not hold \<^verbatim>\<open>backoffMutex_\<close>,
  wakes the thread only if it is asleep by then.

  Connecting opens the socket even if it has been closed before, as the connect operations of
  Boost.Asio do. Resolving the host, connecting, and every handshake, write and read on an open
  socket wait for the network: how they end is a step of the network, not of the worker. A
  handshake, write or read on a closed socket fails, which is a step of the worker. The guard of
  \<^verbatim>\<open>connect\<close> closes the socket once, while connecting or shaking hands; the watchdog of the
  reading loop may close it there. Nothing bounds resolving or the first write.
\<close>

section \<open>Definitions\<close>

datatype Socket = Unopened | Open | Closed

datatype RunPoint = Loop_Test | Resolving | Emplacing | Connecting | Handshaking | Subscribing
  | Reader_Test | Reading | Handling | Rewriting | After_Try | Wait_Test | Wait_Enter | Wait_Sleep | Wait_Over | Run_Returned

datatype StopPoint = Stop_Idle | Stop_Stored | Stop_Notified | Stop_Returned

datatype Actor = Run_Thread | Stop_Thread | Network | Timer

record Shutdown =
  sd_stopRequested :: bool
  sd_ws :: "Socket option"
  sd_guard :: bool
  sd_backoff :: int
  sd_run :: RunPoint
  sd_stop :: StopPoint

definition start_shutdown :: Shutdown where
  "start_shutdown = \<lparr>sd_stopRequested = False, sd_ws = None, sd_guard = False, sd_backoff = kInitialBackoff, sd_run = Loop_Test, sd_stop = Stop_Idle\<rparr>"

definition close_socket :: "Socket option \<Rightarrow> Socket option" where
  "close_socket = map_option (\<lambda>_. Closed)"

inductive shutdown_step :: "Actor \<Rightarrow> Shutdown \<Rightarrow> Shutdown \<Rightarrow> bool" where
  loop_go: "sd_run s = Loop_Test \<Longrightarrow> \<not> sd_stopRequested s \<Longrightarrow> shutdown_step Run_Thread s (s\<lparr>sd_run := Resolving\<rparr>)"
| loop_end: "sd_run s = Loop_Test \<Longrightarrow> sd_stopRequested s \<Longrightarrow> shutdown_step Run_Thread s (s\<lparr>sd_run := Run_Returned\<rparr>)"
| resolved: "sd_run s = Resolving \<Longrightarrow> shutdown_step Network s (s\<lparr>sd_run := Emplacing\<rparr>)"
| emplaced: "sd_run s = Emplacing \<Longrightarrow>
    shutdown_step Run_Thread s (s\<lparr>sd_ws := Some Unopened, sd_guard := True, sd_run := Connecting\<rparr>)"
| connected: "sd_run s = Connecting \<Longrightarrow> shutdown_step Network s (s\<lparr>sd_ws := Some Open, sd_run := Handshaking\<rparr>)"
| shaken: "sd_run s = Handshaking \<Longrightarrow> sd_ws s = Some Open \<Longrightarrow>
    shutdown_step Network s (s\<lparr>sd_guard := False, sd_run := Subscribing\<rparr>)"
| subscribed: "sd_run s = Subscribing \<Longrightarrow> sd_ws s = Some Open \<Longrightarrow>
    shutdown_step Network s (s\<lparr>sd_backoff := kInitialBackoff, sd_run := Reader_Test\<rparr>)"
| reader_go: "sd_run s = Reader_Test \<Longrightarrow> \<not> sd_stopRequested s \<Longrightarrow> shutdown_step Run_Thread s (s\<lparr>sd_run := Reading\<rparr>)"
| reader_end: "sd_run s = Reader_Test \<Longrightarrow> sd_stopRequested s \<Longrightarrow> shutdown_step Run_Thread s (s\<lparr>sd_run := After_Try\<rparr>)"
| frame: "sd_run s = Reading \<Longrightarrow> sd_ws s = Some Open \<Longrightarrow> shutdown_step Network s (s\<lparr>sd_run := Handling\<rparr>)"
| handled: "sd_run s = Handling \<Longrightarrow> shutdown_step Run_Thread s (s\<lparr>sd_run := Reader_Test\<rparr>)"
| threw: "sd_run s = Handling \<Longrightarrow> shutdown_step Run_Thread s (s\<lparr>sd_run := After_Try\<rparr>)"
| rebuild: "sd_run s = Handling \<Longrightarrow> shutdown_step Run_Thread s (s\<lparr>sd_run := Rewriting\<rparr>)"
| rewritten: "sd_run s = Rewriting \<Longrightarrow> sd_ws s = Some Open \<Longrightarrow> shutdown_step Network s (s\<lparr>sd_run := Reader_Test\<rparr>)"
| network_fails: "sd_run s \<in> {Resolving, Connecting} \<or> sd_run s \<in> {Handshaking, Subscribing, Reading, Rewriting} \<and> sd_ws s = Some Open \<Longrightarrow>
    shutdown_step Network s (s\<lparr>sd_guard := False, sd_run := After_Try\<rparr>)"
| closed_fails: "sd_run s \<in> {Handshaking, Subscribing, Reading, Rewriting} \<Longrightarrow> sd_ws s \<noteq> Some Open \<Longrightarrow>
    shutdown_step Run_Thread s (s\<lparr>sd_guard := False, sd_run := After_Try\<rparr>)"
| try_end: "sd_run s = After_Try \<Longrightarrow> sd_stopRequested s \<Longrightarrow> shutdown_step Run_Thread s (s\<lparr>sd_run := Run_Returned\<rparr>)"
| try_go: "sd_run s = After_Try \<Longrightarrow> \<not> sd_stopRequested s \<Longrightarrow> shutdown_step Run_Thread s (s\<lparr>sd_run := Wait_Test\<rparr>)"
| wait_true: "sd_run s = Wait_Test \<Longrightarrow> sd_stopRequested s \<Longrightarrow> shutdown_step Run_Thread s (s\<lparr>sd_run := Wait_Over\<rparr>)"
| wait_false: "sd_run s = Wait_Test \<Longrightarrow> \<not> sd_stopRequested s \<Longrightarrow> shutdown_step Run_Thread s (s\<lparr>sd_run := Wait_Enter\<rparr>)"
| wait_enter: "sd_run s = Wait_Enter \<Longrightarrow> shutdown_step Run_Thread s (s\<lparr>sd_run := Wait_Sleep\<rparr>)"
| wait_timeout: "sd_run s = Wait_Sleep \<Longrightarrow> shutdown_step Run_Thread s (s\<lparr>sd_run := Wait_Over\<rparr>)"
| wait_spurious: "sd_run s = Wait_Sleep \<Longrightarrow> shutdown_step Run_Thread s (s\<lparr>sd_run := Wait_Test\<rparr>)"
| wait_over: "sd_run s = Wait_Over \<Longrightarrow>
    shutdown_step Run_Thread s (s\<lparr>sd_backoff := min (sd_backoff s * 2) kMaxBackoff, sd_run := Loop_Test\<rparr>)"
| stop_store: "sd_stop s = Stop_Idle \<Longrightarrow> shutdown_step Stop_Thread s (s\<lparr>sd_stopRequested := True, sd_stop := Stop_Stored\<rparr>)"
| stop_notify: "sd_stop s = Stop_Stored \<Longrightarrow>
    shutdown_step Stop_Thread s (s\<lparr>sd_run := if sd_run s = Wait_Sleep then Wait_Test else sd_run s, sd_stop := Stop_Notified\<rparr>)"
| stop_close: "sd_stop s = Stop_Notified \<Longrightarrow>
    shutdown_step Stop_Thread s (s\<lparr>sd_ws := close_socket (sd_ws s), sd_stop := Stop_Returned\<rparr>)"
| guard_fires: "sd_run s \<in> {Connecting, Handshaking} \<Longrightarrow> sd_guard s \<Longrightarrow>
    shutdown_step Timer s (s\<lparr>sd_ws := close_socket (sd_ws s), sd_guard := False\<rparr>)"
| watchdog_fires: "sd_run s \<in> {Reader_Test, Reading, Handling, Rewriting} \<Longrightarrow>
    shutdown_step Timer s (s\<lparr>sd_ws := close_socket (sd_ws s)\<rparr>)"

text \<open>A schedule: who takes the steps from one state to another.\<close>

inductive shutdown_path :: "Actor list \<Rightarrow> Shutdown \<Rightarrow> Shutdown \<Rightarrow> bool" where
  refl: "shutdown_path [] s s"
| step: "shutdown_step a s s' \<Longrightarrow> shutdown_path as s' s'' \<Longrightarrow> shutdown_path (a # as) s s''"

inductive_cases shutdown_path_ConsE: "shutdown_path (a # as) s t"

section \<open>Lemmas\<close>

definition has_socket :: "RunPoint \<Rightarrow> bool" where
  "has_socket p \<longleftrightarrow> p \<in> {Connecting, Handshaking, Subscribing, Reader_Test, Reading, Handling, Rewriting}"

definition shutdown_inv :: "Shutdown \<Rightarrow> bool" where
  "shutdown_inv s \<longleftrightarrow> (sd_stopRequested s \<longleftrightarrow> sd_stop s \<noteq> Stop_Idle)
     \<and> (has_socket (sd_run s) \<longrightarrow> sd_ws s \<noteq> None)
     \<and> (sd_run s \<in> {Reading, Handling, Rewriting} \<and> sd_stop s = Stop_Returned \<longrightarrow> sd_ws s = Some Closed)
     \<and> kInitialBackoff \<le> sd_backoff s \<and> sd_backoff s \<le> kMaxBackoff"

lemma close_socket_simps [simp]: "close_socket ws = None \<longleftrightarrow> ws = None" "close_socket ws \<noteq> Some Open"
  "ws \<noteq> None \<Longrightarrow> close_socket ws = Some Closed"
  by (auto simp: close_socket_def)

lemma shutdown_inv_start [simp]: "shutdown_inv start_shutdown"
  by (simp add: shutdown_inv_def start_shutdown_def has_socket_def kInitialBackoff_def kMaxBackoff_def)

lemma shutdown_inv_step: "shutdown_step a s s' \<Longrightarrow> shutdown_inv s \<Longrightarrow> shutdown_inv s'"
proof (induction rule: shutdown_step.induct)
  case (stop_close s)
  then show ?case by (simp add: shutdown_inv_def has_socket_def disj_imp)
qed (auto simp: shutdown_inv_def has_socket_def kInitialBackoff_def kMaxBackoff_def)

lemma shutdown_inv_path: "shutdown_path as s s' \<Longrightarrow> shutdown_inv s \<Longrightarrow> shutdown_inv s'"
  by (induction rule: shutdown_path.induct) (auto intro: shutdown_inv_step)

text \<open>Once a stop is requested it stays so, and a stop that has returned does nothing more.\<close>

lemma stop_stable: "shutdown_step a s s' \<Longrightarrow> sd_stop s = Stop_Returned \<Longrightarrow> sd_stop s' = Stop_Returned"
  by (induction rule: shutdown_step.induct) simp_all

lemma stop_stable_path: "shutdown_path as s s' \<Longrightarrow> sd_stop s = Stop_Returned \<Longrightarrow> sd_stop s' = Stop_Returned"
  by (induction rule: shutdown_path.induct) (auto intro: stop_stable)

text \<open>How many steps the worker, and the network on its behalf, still take once the flag is set.\<close>

primrec steps_left :: "RunPoint \<Rightarrow> nat" where
  "steps_left Run_Returned = 0"
| "steps_left Loop_Test = 1"
| "steps_left After_Try = 1"
| "steps_left Wait_Over = 2"
| "steps_left Reader_Test = 2"
| "steps_left Wait_Test = 3"
| "steps_left Rewriting = 3"
| "steps_left Subscribing = 3"
| "steps_left Handling = 4"
| "steps_left Reading = 5"
| "steps_left Wait_Sleep = 4"
| "steps_left Handshaking = 4"
| "steps_left Wait_Enter = 5"
| "steps_left Connecting = 5"
| "steps_left Emplacing = 6"
| "steps_left Resolving = 7"

lemma steps_left_bound: "steps_left p \<le> 7"
  by (cases p) simp_all

lemma steps_left_step:
  "shutdown_step a s s' \<Longrightarrow> shutdown_inv s \<Longrightarrow> sd_stop s = Stop_Returned \<Longrightarrow>
     steps_left (sd_run s') + (if a \<in> {Run_Thread, Network} then 1 else 0) \<le> steps_left (sd_run s)"
  by (induction rule: shutdown_step.induct) (auto simp: shutdown_inv_def)

lemma steps_left_path:
  "shutdown_path as s s' \<Longrightarrow> shutdown_inv s \<Longrightarrow> sd_stop s = Stop_Returned \<Longrightarrow>
     steps_left (sd_run s') + (count_list as Run_Thread + count_list as Network) \<le> steps_left (sd_run s)"
proof (induction rule: shutdown_path.induct)
  case (step a s s' as s'')
  then show ?case
    using steps_left_step [OF step(1)] shutdown_inv_step [OF step(1)] stop_stable [OF step(1)] by fastforce
qed simp

lemma no_new_read:
  "shutdown_step a s s' \<Longrightarrow> sd_stopRequested s \<Longrightarrow> sd_run s \<noteq> Reading \<Longrightarrow> sd_stopRequested s' \<and> sd_run s' \<noteq> Reading"
  by (induction rule: shutdown_step.induct) simp_all

lemma no_new_read_path:
  "shutdown_path as s s' \<Longrightarrow> sd_stopRequested s \<Longrightarrow> sd_run s \<noteq> Reading \<Longrightarrow> sd_run s' \<noteq> Reading"
  by (induction rule: shutdown_path.induct) (auto dest: no_new_read)

text \<open>Where a stopped worker is, and what it waits for.\<close>

lemma stopped_worker:
  assumes "shutdown_inv s" and "sd_stop s = Stop_Returned"
  shows "sd_run s = Run_Returned \<or> (\<exists>s'. shutdown_step Run_Thread s s')
    \<or> sd_run s \<in> {Resolving, Connecting} \<or> sd_run s \<in> {Handshaking, Subscribing} \<and> sd_ws s = Some Open"
proof -
  have flag: "sd_stopRequested s" and closed: "sd_run s \<in> {Reading, Handling, Rewriting} \<Longrightarrow> sd_ws s \<noteq> Some Open"
    using assms by (auto simp: shutdown_inv_def)
  consider "sd_run s = Run_Returned" | "sd_run s \<in> {Resolving, Connecting}" | "sd_run s \<in> {Handshaking, Subscribing, Reading, Rewriting}"
    | "sd_run s \<in> {Loop_Test, Emplacing, Reader_Test, Handling}" | "sd_run s \<in> {After_Try, Wait_Test, Wait_Enter, Wait_Sleep, Wait_Over}"
    by (cases "sd_run s") simp_all
  then show ?thesis
  proof cases
    case 3
    then show ?thesis using closed shutdown_step.closed_fails [of s] by blast
  next
    case 4
    then show ?thesis
      using flag by (blast intro: shutdown_step.loop_end shutdown_step.emplaced shutdown_step.reader_end shutdown_step.handled)
  next
    case 5
    then show ?thesis using flag by (blast intro: shutdown_step.try_end shutdown_step.wait_true shutdown_step.wait_enter
        shutdown_step.wait_timeout shutdown_step.wait_over)
  qed simp_all
qed

lemma guard_frees:
  assumes "sd_run s = Handshaking" and "sd_guard s"
  shows "\<exists>s1 s2. shutdown_step Timer s s1 \<and> shutdown_step Run_Thread s1 s2 \<and> sd_run s2 = After_Try"
proof -
  let ?s1 = "s\<lparr>sd_ws := close_socket (sd_ws s), sd_guard := False\<rparr>"
  have "shutdown_step Timer s ?s1" using assms by (intro shutdown_step.guard_fires) simp_all
  moreover have "shutdown_step Run_Thread ?s1 (?s1\<lparr>sd_guard := False, sd_run := After_Try\<rparr>)"
    using assms(1) by (intro shutdown_step.closed_fails) simp_all
  ultimately show ?thesis by force
qed

text \<open>
  What \<^verbatim>\<open>stop\<close> cannot do: the worker may have tested the flag before it is set and fall asleep
  after the notification. It then sleeps for the whole backoff, and whoever joins it waits
  that long.
\<close>

abbreviation demo_state :: "bool \<Rightarrow> Socket option \<Rightarrow> RunPoint \<Rightarrow> StopPoint \<Rightarrow> Shutdown" where
  "demo_state flag ws p q \<equiv> \<lparr>sd_stopRequested = flag, sd_ws = ws, sd_guard = False, sd_backoff = kInitialBackoff, sd_run = p, sd_stop = q\<rparr>"

lemma demo_until_resolving:
  "shutdown_path as (demo_state False None Resolving Stop_Idle) t \<Longrightarrow> shutdown_path (Run_Thread # as) start_shutdown t"
  using shutdown_step.loop_go [of start_shutdown] by (auto simp: start_shutdown_def intro: shutdown_path.step)

lemma notification_lost:
  "\<exists>as s. shutdown_path as start_shutdown s \<and> sd_stop s = Stop_Returned \<and> sd_run s = Wait_Sleep"
proof -
  let ?S = "\<lambda>flag. demo_state flag None"
  have w: "shutdown_step Network (?S False Resolving Stop_Idle) (?S False After_Try Stop_Idle)"
      "shutdown_step Run_Thread (?S False After_Try Stop_Idle) (?S False Wait_Test Stop_Idle)"
      "shutdown_step Run_Thread (?S False Wait_Test Stop_Idle) (?S False Wait_Enter Stop_Idle)"
      "shutdown_step Run_Thread (?S True Wait_Enter Stop_Returned) (?S True Wait_Sleep Stop_Returned)"
    using shutdown_step.network_fails [of "?S False Resolving Stop_Idle"] shutdown_step.try_go [of "?S False After_Try Stop_Idle"]
      shutdown_step.wait_false [of "?S False Wait_Test Stop_Idle"] shutdown_step.wait_enter [of "?S True Wait_Enter Stop_Returned"]
    by simp_all
  have t: "shutdown_step Stop_Thread (?S False Wait_Enter Stop_Idle) (?S True Wait_Enter Stop_Stored)"
      "shutdown_step Stop_Thread (?S True Wait_Enter Stop_Stored) (?S True Wait_Enter Stop_Notified)"
      "shutdown_step Stop_Thread (?S True Wait_Enter Stop_Notified) (?S True Wait_Enter Stop_Returned)"
    using shutdown_step.stop_store [of "?S False Wait_Enter Stop_Idle"] shutdown_step.stop_notify [of "?S True Wait_Enter Stop_Stored"]
      shutdown_step.stop_close [of "?S True Wait_Enter Stop_Notified"]
    by (simp_all add: close_socket_def)
  have "shutdown_path [Run_Thread, Network, Run_Thread, Run_Thread, Stop_Thread, Stop_Thread, Stop_Thread, Run_Thread]
      start_shutdown (?S True Wait_Sleep Stop_Returned)"
    by (intro demo_until_resolving shutdown_path.refl shutdown_path.step [OF w(1)] shutdown_path.step [OF w(2)] shutdown_path.step [OF w(3)]
        shutdown_path.step [OF w(4)] shutdown_path.step [OF t(1)] shutdown_path.step [OF t(2)] shutdown_path.step [OF t(3)])
  moreover have "sd_stop (?S True Wait_Sleep Stop_Returned) = Stop_Returned" "sd_run (?S True Wait_Sleep Stop_Returned) = Wait_Sleep" by simp_all
  ultimately show ?thesis by blast
qed

subsection \<open>The loop of the client\<close>

text \<open>
  The rounds of \<open>run_loop\<close> in the theory of the client are schedules here, as long as nobody asks
  to stop: a round that connects resets the backoff and reads until the connection is lost, one that
  fails keeps it, and both go through the wait and double it.
\<close>

lemma path_append: "shutdown_path as s t \<Longrightarrow> shutdown_path bs t u \<Longrightarrow> shutdown_path (as @ bs) s u"
  by (induction rule: shutdown_path.induct) (auto intro: shutdown_path.step)

abbreviation running :: "Socket option \<Rightarrow> int \<Rightarrow> RunPoint \<Rightarrow> Shutdown" where
  "running ws b p \<equiv> \<lparr>sd_stopRequested = False, sd_ws = ws, sd_guard = False, sd_backoff = b, sd_run = p, sd_stop = Stop_Idle\<rparr>"

definition leads :: "Shutdown \<Rightarrow> Shutdown \<Rightarrow> bool" where
  "leads s t \<longleftrightarrow> (\<exists>as. shutdown_path as s t)"

lemma leads_step: "shutdown_step a s t \<Longrightarrow> leads s t" and leads_trans [trans]: "leads s t \<Longrightarrow> leads t u \<Longrightarrow> leads s u"
  by (auto simp: leads_def intro: shutdown_path.intros path_append)

lemma leads_failure: "leads (running ws b Loop_Test) (running ws b After_Try)"
proof -
  have "leads (running ws b Loop_Test) (running ws b Resolving)" using leads_step [OF shutdown_step.loop_go, of "running ws b Loop_Test"] by simp
  moreover have "leads (running ws b Resolving) (running ws b After_Try)" using leads_step [OF shutdown_step.network_fails, of "running ws b Resolving"] by simp
  ultimately show ?thesis by (rule leads_trans)
qed

lemma leads_session: "leads (running ws b Loop_Test) (running (Some Open) kInitialBackoff Reader_Test)"
proof -
  have "leads (running ws b Loop_Test) (running ws b Resolving)" using leads_step [OF shutdown_step.loop_go, of "running ws b Loop_Test"] by simp
  also have "leads (running ws b Resolving) (running ws b Emplacing)"
    using leads_step [OF shutdown_step.resolved, of "running ws b Resolving"] by simp
  also have "leads (running ws b Emplacing) ((running (Some Unopened) b Connecting)\<lparr>sd_guard := True\<rparr>)"
    using leads_step [OF shutdown_step.emplaced, of "running ws b Emplacing"] by simp
  also have "leads ((running (Some Unopened) b Connecting)\<lparr>sd_guard := True\<rparr>) ((running (Some Open) b Handshaking)\<lparr>sd_guard := True\<rparr>)"
    using leads_step [OF shutdown_step.connected, of "(running (Some Unopened) b Connecting)\<lparr>sd_guard := True\<rparr>"] by simp
  also have "leads ((running (Some Open) b Handshaking)\<lparr>sd_guard := True\<rparr>) (running (Some Open) b Subscribing)"
    using leads_step [OF shutdown_step.shaken, of "(running (Some Open) b Handshaking)\<lparr>sd_guard := True\<rparr>"] by simp
  also have "leads (running (Some Open) b Subscribing) (running (Some Open) kInitialBackoff Reader_Test)"
    using leads_step [OF shutdown_step.subscribed, of "running (Some Open) b Subscribing"] by simp
  finally show ?thesis .
qed

lemma leads_read: "leads (running (Some Open) b Reader_Test) (running (Some Open) b Reading)"
    "leads (running (Some Open) b Reading) (running (Some Open) b After_Try)"
proof -
  let ?S = "running (Some Open) b"
  show "leads (?S Reader_Test) (?S Reading)" using leads_step [OF shutdown_step.reader_go, of "?S Reader_Test"] by simp
  show "leads (?S Reading) (?S After_Try)" using leads_step [OF shutdown_step.network_fails, of "?S Reading"] by simp
qed

lemma leads_wait: "leads (running ws b After_Try) (running ws b Wait_Sleep)"
    "leads (running ws b Wait_Sleep) (running ws (min (b * 2) kMaxBackoff) Loop_Test)"
proof -
  let ?S = "running ws b"
  have "leads (?S After_Try) (?S Wait_Test)" using leads_step [OF shutdown_step.try_go, of "?S After_Try"] by simp
  also have "leads (?S Wait_Test) (?S Wait_Enter)" using leads_step [OF shutdown_step.wait_false, of "?S Wait_Test"] by simp
  also have "leads (?S Wait_Enter) (?S Wait_Sleep)" using leads_step [OF shutdown_step.wait_enter, of "?S Wait_Enter"] by simp
  finally show "leads (?S After_Try) (?S Wait_Sleep)" .
  have "leads (?S Wait_Sleep) (?S Wait_Over)" using leads_step [OF shutdown_step.wait_timeout, of "?S Wait_Sleep"] by simp
  also have "leads (?S Wait_Over) (running ws (min (b * 2) kMaxBackoff) Loop_Test)"
    using leads_step [OF shutdown_step.wait_over, of "?S Wait_Over"] by simp
  finally show "leads (?S Wait_Sleep) (running ws (min (b * 2) kMaxBackoff) Loop_Test)" .
qed

text \<open>The delays of \<open>run_loop\<close> are the backoffs with which the worker falls asleep, one after the other.\<close>

fun sleeps :: "int list \<Rightarrow> Shutdown \<Rightarrow> bool" where
  "sleeps [] s \<longleftrightarrow> True"
| "sleeps (b # bs) s \<longleftrightarrow> (\<exists>ws. leads s (running ws b Wait_Sleep) \<and> sleeps bs (running ws (min (b * 2) kMaxBackoff) Loop_Test))"

lemma run_loop_sleeps:
  "list_all (\<lambda>a. \<not> at_stop a) attempts \<Longrightarrow> sleeps (snd (run_loop js zlib net b attempts c)) (running ws b Loop_Test)"
proof (induction attempts arbitrary: b c ws)
  case (Cons a as)
  obtain exc c0 where s: "start_session net a c = (exc, c0)" by (rule prod.exhaust)
  define b1 where "b1 = (if exc = None then kInitialBackoff else b)"
  define c1 where "c1 = (if exc = None then read_loop js zlib net (at_frames a) c0 else c0)"
  have go: "\<not> at_stop a" and rest: "list_all (\<lambda>a. \<not> at_stop a) as" using Cons.prems by simp_all
  have "snd (run_loop js zlib net b (a # as) c) = b1 # snd (run_loop js zlib net (min (b1 * 2) kMaxBackoff) as c1)"
    using go by (cases exc) (simp_all add: s b1_def c1_def case_prod_unfold Let_def)
  moreover have "\<exists>ws'. leads (running ws b Loop_Test) (running ws' b1 After_Try)"
  proof (cases exc)
    case None
    then show ?thesis using leads_trans [OF leads_session [of ws b] leads_trans [OF leads_read]] by (auto simp: b1_def)
  next
    case (Some e)
    then show ?thesis using leads_failure [of ws b] by (auto simp: b1_def)
  qed
  then have "\<exists>ws'. leads (running ws b Loop_Test) (running ws' b1 Wait_Sleep)" using leads_trans leads_wait(1) by blast
  ultimately show ?case using Cons.IH [OF rest] by auto
qed simp

section \<open>Properties\<close>

text \<open>
  C21 (termination): a stopped client ends as soon as the network lets it. However the two
  threads, the network and the timers interleaved before and go on afterwards, once \<^verbatim>\<open>stop\<close> has
  returned: the worker starts no read, and a read or a request to rebuild that it is still in
  is on a closed socket; it has returned, or can take its next step by itself, or waits for the
  network to resolve the host, to connect, or to answer a handshake or take the first write on a
  socket that \<^verbatim>\<open>connect\<close> opened again; in a handshake whose guard has not fired yet, the guard can
  close the socket and the worker goes on by itself; and worker and network together take at
  most seven more steps before the worker has returned, whatever the others do. A sleep it is
  still in lasts at most 32 seconds.
\<close>

theorem stop_ends_worker:
  assumes "shutdown_path before start_shutdown s" and "sd_stop s = Stop_Returned" and "shutdown_path after s s'"
  shows "(sd_run s \<noteq> Reading \<longrightarrow> sd_run s' \<noteq> Reading)
    \<and> (sd_run s' \<in> {Reading, Rewriting} \<longrightarrow> sd_ws s' = Some Closed)
    \<and> (sd_run s' = Run_Returned \<or> (\<exists>s''. shutdown_step Run_Thread s' s'') \<or> sd_run s' \<in> {Resolving, Connecting}
        \<or> sd_run s' \<in> {Handshaking, Subscribing} \<and> sd_ws s' = Some Open)
    \<and> (sd_run s' = Handshaking \<and> sd_guard s' \<longrightarrow>
        (\<exists>s1 s2. shutdown_step Timer s' s1 \<and> shutdown_step Run_Thread s1 s2 \<and> sd_run s2 = After_Try))
    \<and> count_list after Run_Thread + count_list after Network \<le> 7 \<and> sd_backoff s' \<le> 32000"
proof -
  have inv: "shutdown_inv s" using shutdown_inv_path [OF assms(1)] by simp
  have inv': "shutdown_inv s'" using assms(3) inv by (rule shutdown_inv_path)
  have stop': "sd_stop s' = Stop_Returned" using assms(3,2) by (rule stop_stable_path)
  have flag: "sd_stopRequested s" using inv assms(2) by (simp add: shutdown_inv_def)
  have "count_list after Run_Thread + count_list after Network \<le> 7"
    using steps_left_path [OF assms(3) inv assms(2)] steps_left_bound [of "sd_run s"] by simp
  moreover have "sd_run s' \<in> {Reading, Rewriting} \<longrightarrow> sd_ws s' = Some Closed" "sd_backoff s' \<le> 32000"
    using inv' stop' by (auto simp: shutdown_inv_def kMaxBackoff_def)
  ultimately show ?thesis
    using stopped_worker [OF inv' stop'] guard_frees no_new_read_path [OF assms(3) flag] by blast
qed

theorem stop_ends_worker_witness:
  "\<exists>before s. shutdown_path before start_shutdown s \<and> sd_stop s = Stop_Returned \<and> sd_run s = Wait_Sleep
     \<and> (\<exists>s''. shutdown_step Run_Thread s s'') \<and> sd_backoff s \<le> 32000"
proof -
  obtain before s where s: "shutdown_path before start_shutdown s" "sd_stop s = Stop_Returned" "sd_run s = Wait_Sleep"
    using notification_lost by blast
  show ?thesis using stop_ends_worker [OF s(1,2) shutdown_path.refl] s by auto
qed

end
