(* ===== verification/Socket_Timeouts.thy ===== *)
theory Socket_Timeouts
  imports Prelude
begin

text \<open>
  The two threads that close a socket when an operation takes too long,
  \<^verbatim>\<open>engine/include/engine/market_data/idle_timeout_watchdog.hpp\<close> (closes the socket unless it is
  kicked in time) and \<^verbatim>\<open>engine/include/engine/market_data/sync_timeout_guard.hpp\<close> (closes it
  unless the guard is destroyed in time).

  The mutex makes each of their critical sections one step: \<^verbatim>\<open>kick\<close>, the first half of the
  destructor, the start of the thread, and what the thread does from waking up to waiting
  again or returning. A wait on the condition variable may return at any time, as the
  standard allows. Time is the reading of the steady clock in nanoseconds and advances in
  steps of its own.
\<close>

section \<open>Definitions\<close>

datatype TimerThread = T_Starting | T_Waiting | T_Returned

text \<open>\<open>tm_activity\<close> is the time of construction or of the last \<^verbatim>\<open>kick\<close>; the code does not store it.\<close>

record SocketTimer =
  tm_timeout :: int
  tm_now :: int
  tm_deadline :: int
  tm_done :: bool
  tm_thread :: TimerThread
  tm_closed :: bool
  tm_activity :: int

definition new_timer :: "int \<Rightarrow> int \<Rightarrow> SocketTimer" where
  "new_timer timeout now = \<lparr>tm_timeout = timeout, tm_now = now, tm_deadline = 0, tm_done = False,
     tm_thread = T_Starting, tm_closed = False, tm_activity = now\<rparr>"

definition kick :: "SocketTimer \<Rightarrow> SocketTimer" where
  "kick s = s\<lparr>tm_deadline := tm_now s + tm_timeout s, tm_activity := tm_now s\<rparr>"

definition set_done :: "SocketTimer \<Rightarrow> SocketTimer" where
  "set_done s = s\<lparr>tm_done := True\<rparr>"

text \<open>The thread of the watchdog up to its first wait, and one turn of its loop after a wait.\<close>

definition run_start :: "SocketTimer \<Rightarrow> SocketTimer" where
  "run_start s =
     (let s1 = s\<lparr>tm_deadline := tm_now s + tm_timeout s\<rparr>
      in s1\<lparr>tm_thread := if \<not> tm_done s1 then T_Waiting else T_Returned\<rparr>)"

definition run_wake :: "SocketTimer \<Rightarrow> SocketTimer" where
  "run_wake s =
     (if tm_done s then s\<lparr>tm_thread := T_Returned\<rparr>
      else if tm_now s \<ge> tm_deadline s then s\<lparr>tm_closed := True, tm_thread := T_Returned\<rparr>
      else s)"

text \<open>
  The thread of the guard: \<^verbatim>\<open>wait_for\<close> with a predicate tests it first, then after every
  return of the wait, and gives the predicate's value once the time is over.
\<close>

definition guard_start :: "SocketTimer \<Rightarrow> SocketTimer" where
  "guard_start s = s\<lparr>tm_deadline := tm_now s + tm_timeout s, tm_thread := if tm_done s then T_Returned else T_Waiting\<rparr>"

definition guard_wake :: "SocketTimer \<Rightarrow> SocketTimer" where
  "guard_wake s =
     (let timed_out = tm_now s \<ge> tm_deadline s; pred = tm_done s
      in if pred then s\<lparr>tm_thread := T_Returned\<rparr>
         else if timed_out then s\<lparr>tm_closed := True, tm_thread := T_Returned\<rparr>
         else s)"

definition advance :: "int \<Rightarrow> SocketTimer \<Rightarrow> SocketTimer" where
  "advance d s = s\<lparr>tm_now := tm_now s + d\<rparr>"

inductive watchdog_step :: "SocketTimer \<Rightarrow> SocketTimer \<Rightarrow> bool" where
  pass: "0 \<le> d \<Longrightarrow> watchdog_step s (advance d s)"
| kicked: "\<not> tm_done s \<Longrightarrow> watchdog_step s (kick s)"
| destroyed: "watchdog_step s (set_done s)"
| start: "tm_thread s = T_Starting \<Longrightarrow> watchdog_step s (run_start s)"
| wake: "tm_thread s = T_Waiting \<Longrightarrow> watchdog_step s (run_wake s)"

inductive guard_step :: "SocketTimer \<Rightarrow> SocketTimer \<Rightarrow> bool" where
  pass: "0 \<le> d \<Longrightarrow> guard_step s (advance d s)"
| destroyed: "guard_step s (set_done s)"
| start: "tm_thread s = T_Starting \<Longrightarrow> guard_step s (guard_start s)"
| wake: "tm_thread s = T_Waiting \<Longrightarrow> guard_step s (guard_wake s)"

inductive_cases watchdog_stepE: "watchdog_step s t"
inductive_cases guard_stepE: "guard_step s t"

section \<open>Specification: a socket timer\<close>

text \<open>
  The contract both threads keep: a step relation under which time does not go back, the
  socket is closed only after a full period without activity and not after the timer
  was told that the operation is done, and a thread that wakes up too late does close it.
\<close>

definition timer_inv :: "SocketTimer \<Rightarrow> bool" where
  "timer_inv s \<longleftrightarrow> tm_activity s \<le> tm_now s \<and> (tm_closed s \<longrightarrow> tm_thread s = T_Returned)
     \<and> (tm_thread s = T_Waiting \<longrightarrow> tm_activity s + tm_timeout s \<le> tm_deadline s)"

locale socket_timer =
  fixes step :: "SocketTimer \<Rightarrow> SocketTimer \<Rightarrow> bool" and begin_thread wake_thread :: "SocketTimer \<Rightarrow> SocketTimer"
  assumes step_iff: "step s t \<Longrightarrow> (\<exists>d \<ge> 0. t = advance d s) \<or> (\<not> tm_done s \<and> t = kick s) \<or> t = set_done s
      \<or> tm_thread s = T_Starting \<and> t = begin_thread s \<or> tm_thread s = T_Waiting \<and> t = wake_thread s"
    and begin_law: "begin_thread s = s\<lparr>tm_deadline := tm_now s + tm_timeout s,
      tm_thread := if tm_done s then T_Returned else T_Waiting\<rparr>"
    and wake_law: "wake_thread s = (if tm_done s then s\<lparr>tm_thread := T_Returned\<rparr>
      else if tm_now s \<ge> tm_deadline s then s\<lparr>tm_closed := True, tm_thread := T_Returned\<rparr> else s)"
    and can_wake: "tm_thread s = T_Waiting \<Longrightarrow> step s (wake_thread s)"
begin

lemma timer_inv_step: "step s t \<Longrightarrow> timer_inv s \<Longrightarrow> timer_inv t"
  by (drule step_iff)
    (auto simp: timer_inv_def advance_def kick_def set_done_def begin_law wake_law split: if_splits)

lemma timer_reachable: "rtranclp step (new_timer timeout now) s \<Longrightarrow> timer_inv s"
proof (induction rule: rtranclp_induct)
  case base
  show ?case by (simp add: timer_inv_def new_timer_def)
qed (rule timer_inv_step)

lemma closes_only_idle:
  assumes "rtranclp step (new_timer timeout now) s" and "step s t" and "\<not> tm_closed s" and "tm_closed t"
  shows "tm_activity s + tm_timeout s \<le> tm_now s \<and> \<not> tm_done s"
proof -
  have "t = wake_thread s \<and> tm_thread s = T_Waiting"
    using step_iff [OF assms(2)] assms(3,4) by (auto simp: advance_def kick_def set_done_def begin_law)
  then show ?thesis
    using timer_reachable [OF assms(1)] assms(3,4) by (cases "tm_done s") (auto simp: timer_inv_def wake_law split: if_splits)
qed

lemma wakes_and_closes:
  assumes "tm_thread s = T_Waiting" and "\<not> tm_done s" and "tm_deadline s \<le> tm_now s"
  shows "step s (wake_thread s)" and "tm_closed (wake_thread s)" and "tm_thread (wake_thread s) = T_Returned"
proof -
  show "step s (wake_thread s)" using assms(1) by (rule can_wake)
qed (use assms in \<open>simp_all add: wake_law\<close>)

lemma returns_when_done: "tm_done s \<Longrightarrow> tm_thread (wake_thread s) = T_Returned \<and> tm_closed (wake_thread s) = tm_closed s"
  by (simp add: wake_law)

end

interpretation watchdog: socket_timer watchdog_step run_start run_wake
proof
  show "watchdog_step s t \<Longrightarrow> (\<exists>d \<ge> 0. t = advance d s) \<or> (\<not> tm_done s \<and> t = kick s) \<or> t = set_done s
      \<or> tm_thread s = T_Starting \<and> t = run_start s \<or> tm_thread s = T_Waiting \<and> t = run_wake s" for s t
    by (erule watchdog_stepE) auto
  show "tm_thread s = T_Waiting \<Longrightarrow> watchdog_step s (run_wake s)" for s by (rule watchdog_step.wake)
qed (simp_all add: run_start_def run_wake_def)

interpretation guard: socket_timer guard_step guard_start guard_wake
proof
  show "guard_step s t \<Longrightarrow> (\<exists>d \<ge> 0. t = advance d s) \<or> (\<not> tm_done s \<and> t = kick s) \<or> t = set_done s
      \<or> tm_thread s = T_Starting \<and> t = guard_start s \<or> tm_thread s = T_Waiting \<and> t = guard_wake s" for s t
    by (erule guard_stepE) auto
  show "tm_thread s = T_Waiting \<Longrightarrow> guard_step s (guard_wake s)" for s by (rule guard_step.wake)
qed (simp_all add: guard_start_def guard_wake_def Let_def)

text \<open>The guard closes the socket of an operation only after the full timeout, and does so when it wakes up late.\<close>

lemma guard_closes_late_operation:
  assumes "rtranclp guard_step (new_timer timeout now) s"
  shows "guard_step s t \<Longrightarrow> \<not> tm_closed s \<Longrightarrow> tm_closed t \<Longrightarrow> tm_activity s + tm_timeout s \<le> tm_now s \<and> \<not> tm_done s"
    and "tm_thread s = T_Waiting \<Longrightarrow> \<not> tm_done s \<Longrightarrow> tm_deadline s \<le> tm_now s \<Longrightarrow> tm_closed (guard_wake s)"
  using guard.closes_only_idle [OF assms] guard.wakes_and_closes(2) by blast+

section \<open>Properties\<close>

text \<open>
  C39 (safety): the watchdog closes exactly an idle connection. Whatever the timing of kicks,
  of its thread and of its destructor, a step that closes the socket happens a full timeout
  after the last kick and not once the destructor has begun; and when the thread wakes up at
  or after the deadline it closes the socket and returns.
\<close>

theorem watchdog_closes_idle_connection:
  assumes "rtranclp watchdog_step (new_timer timeout now) s"
  shows "(\<forall>t. watchdog_step s t \<and> \<not> tm_closed s \<and> tm_closed t \<longrightarrow>
       tm_activity s + tm_timeout s \<le> tm_now s \<and> \<not> tm_done s)
    \<and> (tm_thread s = T_Waiting \<and> \<not> tm_done s \<and> tm_deadline s \<le> tm_now s \<longrightarrow>
       watchdog_step s (run_wake s) \<and> tm_closed (run_wake s) \<and> tm_thread (run_wake s) = T_Returned)"
  using watchdog.closes_only_idle [OF assms] watchdog.wakes_and_closes by blast

theorem watchdog_closes_idle_connection_witness:
  "\<exists>s. rtranclp watchdog_step (new_timer 60 0) s \<and> tm_now s = 60 \<and> tm_closed (run_wake s)"
proof -
  let ?s1 = "run_start (new_timer 60 0)" and ?s2 = "advance 60 (run_start (new_timer 60 0))"
  have 1: "watchdog_step (new_timer 60 0) ?s1" by (rule watchdog_step.start) (simp add: new_timer_def)
  have 2: "watchdog_step ?s1 ?s2" by (rule watchdog_step.pass) simp
  have run: "rtranclp watchdog_step (new_timer 60 0) ?s2" by (rule rtranclp.rtrancl_into_rtrancl [OF r_into_rtranclp [of watchdog_step, OF 1] 2])
  have "tm_thread ?s2 = T_Waiting" "\<not> tm_done ?s2" "tm_deadline ?s2 \<le> tm_now ?s2" "tm_now ?s2 = 60"
    by (simp_all add: run_start_def new_timer_def advance_def Let_def)
  then show ?thesis using watchdog_closes_idle_connection [OF run] run by blast
qed

end
