(* ===== verification/Spec2Isabelle.thy ===== *)
theory Spec2Isabelle
  imports Trading_System Snapshot_Feed Value_Ranges Worker_Threads Engine_Process Replay_Bench Client_Shutdown Socket_Timeouts
begin

text \<open>
  \<^bold>\<open>The engine of a real-time paper trading platform.\<close> The C++ program under
  \<^verbatim>\<open>src/engine\<close> keeps the order books of Kraken symbols up to date, publishes them to other
  processes through shared memory, and matches simulated (paper) orders against them. File
  names below are relative to \<^verbatim>\<open>src/engine\<close>.

  \<^bold>\<open>Parts and their interaction.\<close> A caller subscribes a symbol through the gRPC service, which
  calls the symbol registry. The registry looks up the symbol's decimal precision, claims a
  slot of the shared-memory segment and starts a worker thread with a Kraken book client.
  The client reads websocket messages, parses them, applies them to the book, checks Kraken's
  checksum, and calls back for every delta, snapshot and tick. The registry's callbacks put
  deltas on the slot's ring buffer and into the matching engine, write snapshots to the slot's
  seqlock, and at a tick serve the orders waiting in the symbol's inbox. Fills go to a queue
  that the service streams out. Histograms time the hot paths; a recorder and a replayer
  capture and replay the websocket frames.

  \<^bold>\<open>Theories and sources.\<close>

  \<^item> \<open>Prelude\<close>: machine integers (64-bit signed values as integers with explicit wrap-around,
    unsigned ones as words), the exceptions as a datatype, \<^verbatim>\<open>std::lower_bound\<close>,
    \<^verbatim>\<open>std::to_string\<close>, and the arithmetic and list lemmas the others share.
  \<^item> \<open>Price_Quantity\<close>: \<^verbatim>\<open>common/price_quantity.hpp\<close>. The parser computes the meaning of a
    decimal text modulo 64 bits and is exact exactly on values in range; printing and parsing
    is a round trip (locale \<open>decimal_text\<close>, interpreted for prices and for quantities).
  \<^item> \<open>Order_Book\<close>: \<^verbatim>\<open>book/order_book.hpp\<close>, \<^verbatim>\<open>book/order_book.cpp\<close>, \<^verbatim>\<open>book/price_level.hpp\<close>. A side is
    the sorted vector of the code; it refines a finite map from prices to quantities with
    eviction of the worst price beyond 100 levels (locale \<open>level_store\<close>).
  \<^item> \<open>Checksum\<close>: \<^verbatim>\<open>book/checksum.cpp\<close>. The text that is checksummed is the one Kraken
    prescribes.
  \<^item> \<open>Matching_Engine\<close>, \<open>Matching_Queue\<close> and \<open>Matching_Priority\<close>: \<^verbatim>\<open>matching/paper_order.hpp\<close>,
    \<^verbatim>\<open>matching/matching_engine.cpp\<close>. Crossing orders take the best levels first and completely;
    the rest of a limit order rests behind the visible size; over any sequence of deltas its
    fill is the accumulated reduction beyond its queue; orders of one level keep time priority in
    every session in which the book is not replaced while orders rest; cancellation; and the
    iteration order of the hash map is irrelevant.
  \<^item> \<open>Kraken_Parser\<close>: \<^verbatim>\<open>market_data/kraken_parser.cpp\<close>, with simdjson as a record of access
    functions.
  \<^item> \<open>Kraken_Book_Client\<close> and \<open>Client_Publication\<close>: \<^verbatim>\<open>market_data/kraken_book_client.cpp\<close>, the whole
    client with its reconnecting loop. Consumers of its callbacks mirror its book exactly; published snapshots
    are verified ones; a checksum mismatch rebuilds, after the deltas of the message went out;
    fewer than 500 deltas follow the last snapshot; sequence numbers and backoff are as documented.
  \<^item> \<open>Client_Shutdown\<close>: \<^verbatim>\<open>run\<close> and \<^verbatim>\<open>stop\<close> of the same file as two threads that share the stop flag,
    the socket and the condition variable of the backoff; what waits for the network is a step of
    the network. Once \<^verbatim>\<open>stop\<close> has returned the worker reads no more and, with the answers of the
    network it may still wait for while connecting, ends within seven steps, although the
    notification can come too early for a worker that is about to sleep; the delays of the loop
    are those of the sequential model.
  \<^item> \<open>Asset_Pairs\<close>: \<^verbatim>\<open>market_data/kraken_asset_pairs.cpp\<close>; URL encoding is a round trip.
  \<^item> \<open>Socket_Timeouts\<close>: \<^verbatim>\<open>market_data/idle_timeout_watchdog.hpp\<close> and
    \<^verbatim>\<open>market_data/sync_timeout_guard.hpp\<close>; both threads are interpretations of the locale
    \<open>socket_timer\<close>.
  \<^item> \<open>Wire_Layout\<close>, \<open>Ring_Buffer\<close>, \<open>Snapshot_Slot\<close>, \<open>Shared_Memory\<close>: \<^verbatim>\<open>ipc/ring_buffer.hpp\<close>,
    \<^verbatim>\<open>ipc/snapshot_slot.hpp\<close>, \<^verbatim>\<open>ipc/shared_memory_manager.cpp\<close>. Struct layouts agree with the
    static assertions; the ring buffer answers every call like a list of capacity 4096, across index
    wrap-around (locale \<open>bounded_queue\<close>), and keeps the order when producer and consumer interleave
    access by access; the seqlock returns no torn value if the reader's loads keep their order, and
    can return one if they do not; a read returns when the writer pauses; the pool hands out free slots only (locale \<open>slot_pool\<close>). The
    three fixed-width symbol fields interpret the locale \<open>symbol_field\<close>.
  \<^item> \<open>Delta_Feed\<close>: the vocabulary that the registry and the replayer share, from the client's
    events to the wire structs on the ring buffer and back.
  \<^item> \<open>Symbol_Registry\<close>: \<^verbatim>\<open>symbol/symbol_registry.cpp\<close>. Every critical section is a definition and
    \<open>registry_step\<close> interleaves them for any number of callers, workers and consumers of the
    ring buffers. \<open>Registry_Slots\<close>: slots are never shared or reused early. \<open>Registry_Requests\<close>: every waiting
    request is answered once, and the deltas of a message arrive in the symbol's queue.
    \<open>Registry_Entries\<close>: the changes a step can make to the entry of a symbol; an invariant of
    entries is an interpretation of the locale \<open>entry_invariant\<close> (or of its extension
    \<open>unguarded_invariant\<close>), whose lemmas carry it to the reachable registries. \<open>Registry_Ids\<close>:
    order ids are unique until the counter wraps.
  \<^item> \<open>Market_Feed\<close>, \<open>Trading_System\<close> and \<open>Value_Ranges\<close>: invariants of the registry's reachable
    states that span client, shared memory and matching engine, all three interpretations of
    those locales: what a worker can rely on, well-formed books and engines, and the
    range of every 64-bit value. \<open>Snapshot_Feed\<close>: the way of a snapshot into its seqlock slot.
  \<^item> \<open>Worker_Threads\<close>: the thread that the registry starts for a recording,
    \<^verbatim>\<open>replaySessionIntoClient\<close>, over the registry. It takes steps of the registry only, and what the
    recorder captured reaches the client frame by frame.
  \<^item> \<open>Control_Server\<close>: \<^verbatim>\<open>control/control_server.cpp\<close>, each handler with the registry call it
    makes; every handler is a run of registry steps.
  \<^item> \<open>Histogram\<close>: \<^verbatim>\<open>observability/histogram.cpp\<close>, with the floating-point rank of a percentile
    computed as the code rounds it, and concurrent recording access by access.
  \<^item> \<open>Recorded_Session\<close>, \<open>Replay_Tools\<close> and \<open>Replay_Bench\<close>: \<^verbatim>\<open>replay/recorded_session.hpp\<close>,
    \<^verbatim>\<open>tools/replay/recorder.cpp\<close>, \<^verbatim>\<open>tools/replay/replayer.cpp\<close> and \<^verbatim>\<open>replaySessionIntoClient\<close> of the
    registry. Recordings load back, truncated ones are reported (except inside a timestamp), golden-file
    verification is reproducible, and the benchmark with its pop thread accounts for every
    frame and delta.
  \<^item> \<open>Engine_Process\<close>: \<^verbatim>\<open>src/main.cpp\<close> and \<^verbatim>\<open>tools/replay/test_engine_harness.cpp\<close>; the running
    process as calls of the service, all of whose states are reachable registries, beside the
    histograms and the thread that prints and resets them.
  \<^item> this theory: the properties across components, below.

  \<^bold>\<open>State and effects.\<close> A class is a record and an operation a function that returns the new
  record. Exceptions are values of a sum type, or the first component of a result where the
  state changes before the throw. Callbacks and websocket writes of the client are an event
  log. Threads are step relations whose steps are critical sections, or single accesses where
  the code is lock-free; invariants are proved by rule induction. Components named by a locale
  rely on each other only through its laws.

  \<^bold>\<open>Parameters.\<close> Code that is not part of the repository is an argument: zlib's CRC, simdjson,
  the network (whether a write succeeds, what connections deliver), the HTTPS exchange, the
  file system, all clocks and the random instance id. The laws of a parameter are hypotheses of
  the theorems that need them, and their witnesses instantiate it.

  \<^bold>\<open>Bounds and fuel.\<close> No definition uses fuel. Loops over data are structural or have a
  termination proof; a loop that waits for the world runs over the list of what it meets, so a
  theorem about it holds for every finite run. The reader of the seqlock needs at most \<open>2n + 5\<close>
  steps for \<open>n\<close> cells once the writer pauses. The consistency of a read is for reads that overlap
  fewer than \<open>2\<^sup>3\<^sup>1\<close> writes, because the 32-bit version repeats after that; order ids are unique
  until the 64-bit counter wraps. That all prices and quantities are 64-bit values is proved
  (of the parser's output, the requests on the wire and everything computed from them); that
  the market announces no negative quantity is a hypothesis where a theorem needs it.

  \<^bold>\<open>Defects.\<close> Behaviour that is probably not intended is proved as lemmas beside the properties:
  \<open>eviction_fills_resting_order\<close> (\<open>Trading_System\<close>), \<open>timed_out_order_executes\<close> (\<open>Control_Server\<close>),
  \<open>stale_size_breaks_priority\<close> (\<open>Matching_Priority\<close>), \<open>timestamp_cut_dropped\<close> (\<open>Recorded_Session\<close>),
  \<open>notification_lost\<close> (\<open>Client_Shutdown\<close>), \<open>sample_between_print_and_reset_lost\<close> (\<open>Engine_Process\<close>) and
  \<open>replayer_dangling_option\<close> (\<open>Replay_Bench\<close>).

  \<^bold>\<open>Not modelled.\<close> Memory orders weaker than sequential consistency, except that the second version
  load of the seqlock's reader may overtake its copy, which its acquire order permits (that the
  copy races with the writer at all is undefined behaviour of C++ and not followed); several
  watchers of the fills at a time; overflow of a symbol's reference count; failing writes of the
  recorder's output stream; sockets,
  TLS and the operating system's shared memory calls beyond their outcomes; the generated gRPC
  classes; console output apart from the histogram lines and the benchmark's report; which of
  the worker's steps take a latency sample, and when the logging thread wakes up. The Go backend, the web
  frontend, the tests and the build files are other programs or no code of the engine.
\<close>

section \<open>Properties across components\<close>

text \<open>
  C2 (refinement): the market data path end to end. In every reachable registry, when the
  worker of a subscribed symbol receives an update whose checksum matches, and the ring
  buffer has room for its deltas, a consumer of the shared memory that had the symbol's book
  and replays the deltas it newly finds in the ring buffer has exactly the client's new book
  and sequence number.
\<close>

theorem ring_feed_mirrors_book:
  assumes "rtranclp registry_step (new_registry (open_segment existing)) reg" and "usable existing"
    and "entries reg key = Some en" and "msg_symbol msg = key" and "msg_type msg = Update"
    and "book_checksum zlib (en_client en) (applied_book msg (cl_book (en_client en))) = msg_checksum msg"
    and "worker_parsed zlib net t cks key (Inr (Some msg)) (start_worker en reg) = Inr w"
    and "mirrors (cl_book (en_client en)) m"
    and "length (ring_items (deltaQueue (seg_slots (reg_segment reg) ! en_slot en))) + delta_count msg (cl_book (en_client en)) \<le> 4096"
  shows "\<exists>ds. ring_items (deltaQueue (seg_slots (wk_segment w) ! en_slot en)) =
        ring_items (deltaQueue (seg_slots (reg_segment reg) ! en_slot en)) @ ds
      \<and> mirrors (cl_book (en_client (wk_entry w))) (foldl mirror_event m (map decode_delta ds))"
proof -
  let ?c = "en_client en"
  obtain exc c' where h: "handle_parsed zlib net t (Inr (Some msg)) ?c = (exc, c')" by (rule prod.exhaust)
  note feed = reachable_entry(1) [OF assms(1-3)] and seg = reachable_entry(3) [OF assms(1-3)] and slot = reachable_entry(4) [OF assms(1-3)]
  have sym: "msg_symbol msg = cl_symbol ?c" using reachable_entry(2) [OF assms(1-3)] assms(4) by simp
  note fd = feed [unfolded feeding_def callbacks_def prod.inject eq_True]
  note acc = accepted_delta_events [OF sym assms(6) h] 
  have ev: "filter is_delta_event (new_events ?c c') = applied_events msg (cl_book ?c)" using acc(1) fd by blast
  have room: "length (ring_items (deltaQueue (seg_slots (reg_segment reg) ! en_slot en)))
      + length (filter is_delta_event (new_events ?c c')) \<le> 4096"
    unfolding ev length_applied_events by (rule assms(9))
  let ?ds = "wires cks key (new_events ?c c')"
  have "ring_items (own_queue w) = ring_items (deltaQueue (seg_slots (reg_segment reg) ! en_slot en)) @ ?ds"
    using worker_queue [OF _ seg slot h assms(7) room] fd sym assms(4) by simp
  moreover have "en_slot (wk_entry w) = en_slot en" using assms(7) seg by (rule worker_parsed_frame(1))
  moreover have "mirrors (cl_book (applied zlib msg ?c)) (foldl mirror_event m (map decode_delta ?ds))"
    unfolding decode_wires ev using mirror_applied [OF _ _ assms(8,5)] fd by blast
  moreover have "en_client (wk_entry w) = c'" using h assms(7) by (rule worker_client)
  ultimately show ?thesis using acc(2-4) fd by (intro exI [of _ ?ds]) (simp add: own_queue_def mirrors_def)
qed

lemma demo_registry:
  obtains reg i where "rtranclp sane_step (new_registry (open_segment None)) reg"
    and "entries reg ''BTC/USD'' = Some (new_entry 0 demo_precision ''BTC/USD'' i)"
    and "ring_items (deltaQueue (seg_slots (reg_segment reg) ! i)) = []"
proof -
  obtain reg i where r: "registry_step (new_registry (open_segment None)) reg"
    "entries reg = [''BTC/USD'' \<mapsto> new_entry 0 demo_precision ''BTC/USD'' i]"
    "ring_items (deltaQueue (seg_slots (reg_segment reg) ! i)) = []" "nextOrderId reg = 1" "reg_leaving reg = []"
    by (rule demo_subscribed)
  then have "sane reg" by (simp add: sane_def live_def new_entry_def new_client_def)
  then show ?thesis using that [of reg i] r by (simp add: sane_step_def r_into_rtranclp)
qed

theorem ring_feed_mirrors_book_witness:
  "\<exists>reg en w ds. entries reg ''BTC/USD'' = Some en
     \<and> worker_parsed demo_zlib (\<lambda>_. True) (1, 1) (\<lambda>_. demo_clocks) ''BTC/USD'' (Inr (Some demo_msg)) (start_worker en reg) = Inr w
     \<and> ring_items (deltaQueue (seg_slots (wk_segment w) ! en_slot en)) =
         ring_items (deltaQueue (seg_slots (reg_segment reg) ! en_slot en)) @ ds
     \<and> mirrors (cl_book (en_client (wk_entry w)))
         (foldl mirror_event \<lparr>mir_bids = Map.empty, mir_asks = Map.empty, mir_seq = 0\<rparr> (map decode_delta ds))"
proof -
  let ?m = "\<lparr>mir_bids = Map.empty, mir_asks = Map.empty, mir_seq = 0\<rparr>"
  obtain reg i where r: "rtranclp sane_step (new_registry (open_segment None)) reg"
    and e: "entries reg ''BTC/USD'' = Some (new_entry 0 demo_precision ''BTC/USD'' i)"
    and q: "ring_items (deltaQueue (seg_slots (reg_segment reg) ! i)) = []" by (rule demo_registry)
  let ?en = "new_entry 0 demo_precision ''BTC/USD'' i"
  obtain w where w: "worker_parsed demo_zlib (\<lambda>_. True) (1, 1) (\<lambda>_. demo_clocks) ''BTC/USD'' (Inr (Some demo_msg)) (start_worker ?en reg) = Inr w"
    unfolding worker_parsed_def Let_def case_prod_unfold
    using dispatch_all_total [of "''BTC/USD''"] by (force simp: SYMBOL_BYTES_def)
  have c: "cl_book (en_client ?en) = new_book\<lparr>book_symbol := ''BTC/USD''\<rparr>" "en_slot ?en = i"
    by (simp_all add: new_entry_def new_client_def)
  have "delta_count demo_msg (new_book\<lparr>book_symbol := ''BTC/USD''\<rparr>) = 1"
    using demo_delta_count by (simp add: delta_count_def bid_feed_def ask_feed_def base_book_def)
  then have room: "length (ring_items (deltaQueue (seg_slots (reg_segment reg) ! en_slot ?en)))
      + delta_count demo_msg (cl_book (en_client ?en)) \<le> 4096"
    using q unfolding c by (simp del: length_ring_items)
  have m: "mirrors (cl_book (en_client ?en)) ?m"
    unfolding c by (simp add: mirrors_def new_book_def new_side_def side_map_def)
  show ?thesis using ring_feed_mirrors_book [OF sane_steps [OF r] demo_usable e _ _ _ w m room] e w by auto
qed

text \<open>
  C3 (refinement): the snapshot path end to end. In every reachable registry, whatever
  message the worker of a subscribed symbol handles, the seqlock slot of the symbol is
  untouched unless the client publishes; when it does, the slot's new value carries the
  symbol's name, a reader that decodes it has exactly the client's book and sequence
  number, and the version has advanced by one complete write. An accepted snapshot message
  always publishes.
\<close>

theorem snapshot_slot_mirrors_book:
  assumes "rtranclp registry_step (new_registry (open_segment existing)) reg" and "usable existing"
    and "entries reg key = Some en"
    and "worker_parsed zlib net t cks key parsed (start_worker en reg) = Inr w"
  shows "(if list_ex is_snapshot_event (new_events (en_client en) (en_client (wk_entry w)))
      then mirrors (cl_book (en_client (wk_entry w))) (decode_snapshot (slot_value (snapshotSlot (seg_slots (wk_segment w) ! en_slot en))))
        \<and> sn_symbol (slot_value (snapshotSlot (seg_slots (wk_segment w) ! en_slot en))) = wire_symbol key
        \<and> version (snapshotSlot (seg_slots (wk_segment w) ! en_slot en)) = version (snapshotSlot (seg_slots (reg_segment reg) ! en_slot en)) + 2
      else snapshotSlot (seg_slots (wk_segment w) ! en_slot en) = snapshotSlot (seg_slots (reg_segment reg) ! en_slot en))
    \<and> (\<forall>msg. parsed = Inr (Some msg) \<and> msg_symbol msg = key \<and> msg_type msg = Snapshot
        \<and> book_checksum zlib (en_client en) (applied_book msg (cl_book (en_client en))) = msg_checksum msg
        \<longrightarrow> list_ex is_snapshot_event (new_events (en_client en) (en_client (wk_entry w))))"
proof -
  obtain exc c' where h: "handle_parsed zlib net t parsed (en_client en) = (exc, c')" by (rule prod.exhaust)
  note feed = reachable_entry(1) [OF assms(1-3)] and sym = reachable_entry(2) [OF assms(1-3)]
    and seg = reachable_entry(3) [OF assms(1-3)] and slot = reachable_entry(4) [OF assms(1-3)]
  have c': "en_client (wk_entry w) = c'" using h assms(4) by (rule worker_client)
  have book: "book_inv (cl_book c')" using worker_feeding [OF feed assms(4)] c' by (simp add: feeding_def)
  have own: "own_slot w = snapshotSlot (seg_slots (wk_segment w) ! en_slot en)"
    using worker_parsed_frame(1) [OF assms(4) seg] by (simp add: own_slot_def)
  have "list_ex is_snapshot_event (new_events (en_client en) c')"
    if "parsed = Inr (Some msg)" "msg_symbol msg = key" "msg_type msg = Snapshot"
      "book_checksum zlib (en_client en) (applied_book msg (cl_book (en_client en))) = msg_checksum msg" for msg
    using that h sym feed by (intro accepted_snapshot_published) (auto simp: feeding_def callbacks_def)
  moreover note worker_slot [OF feed sym seg slot h assms(4), unfolded own] decode_wire_snapshot [OF book]
  ultimately show ?thesis
    unfolding c' by (auto simp: write_slot_def wire_snapshot_def [THEN arg_cong [where f = sn_symbol]])
qed

theorem snapshot_slot_mirrors_book_witness:
  "\<exists>reg en w. entries reg ''BTC/USD'' = Some en
     \<and> worker_parsed demo_zlib (\<lambda>_. True) (1, 1) (\<lambda>_. demo_clocks) ''BTC/USD'' (Inr (Some (demo_msg\<lparr>msg_type := Snapshot\<rparr>))) (start_worker en reg) = Inr w
     \<and> mirrors (cl_book (en_client (wk_entry w))) (decode_snapshot (slot_value (snapshotSlot (seg_slots (wk_segment w) ! en_slot en))))"
proof -
  let ?msg = "demo_msg\<lparr>msg_type := Snapshot\<rparr>"
  obtain reg i where r: "rtranclp sane_step (new_registry (open_segment None)) reg"
    and e: "entries reg ''BTC/USD'' = Some (new_entry 0 demo_precision ''BTC/USD'' i)" by (rule demo_registry)
  let ?en = "new_entry 0 demo_precision ''BTC/USD'' i"
  obtain w where w: "worker_parsed demo_zlib (\<lambda>_. True) (1, 1) (\<lambda>_. demo_clocks) ''BTC/USD'' (Inr (Some ?msg)) (start_worker ?en reg) = Inr w"
    unfolding worker_parsed_def Let_def case_prod_unfold
    using dispatch_all_total [of "''BTC/USD''"] by (force simp: SYMBOL_BYTES_def)
  have m: "msg_symbol ?msg = ''BTC/USD''" "msg_type ?msg = Snapshot" "book_checksum demo_zlib c b = msg_checksum ?msg" for c b by simp_all
  note slot = snapshot_slot_mirrors_book [OF sane_steps [OF r] demo_usable e w]
  have "list_ex is_snapshot_event (new_events (en_client ?en) (en_client (wk_entry w)))" using slot m by blast
  then show ?thesis using slot e w by (intro exI [of _ reg] exI [of _ ?en] exI [of _ w]) simp
qed

text \<open>
  C4 (invariant): the trading path is sound in every reachable state. However subscriptions,
  orders, cancellations and market messages of any number of symbols interleave, as long as
  no negative quantity is announced and the id counter has not wrapped, every subscribed symbol has a client for exactly that symbol whose book is
  sorted, within its depth limit and has only positive quantities, and a matching engine
  whose order ids are distinct and whose tracked levels are exactly those of its orders.
\<close>

theorem reachable_trading_system:
  assumes "rtranclp sane_step (new_registry (open_segment existing)) reg" and "usable existing" and "entries reg key = Some en"
  shows "cl_symbol (en_client en) = key \<and> book_pos (cl_book (en_client en))
    \<and> distinct (map fst (restingOrders (en_engine en))) \<and> list_all order_ok (restingOrders (en_engine en))
    \<and> dom (lastObservedSize (en_engine en)) = order_keys (restingOrders (en_engine en))"
proof -
  have "registry_inv reg" using sane_steps [OF assms(1)] assms(2) by (rule registry_reachable_inv)
  then have "cl_symbol (en_client en) = key" using assms(3) by (auto simp: registry_inv_def)
  moreover have "trading_ok en" using trading_reachable [OF assms(1)] holdsD [OF _ assms(3)] by blast
  ultimately show ?thesis by (simp add: trading_ok_def engine_inv_def list_all_iff)
qed

theorem reachable_trading_system_witness:
  "\<exists>reg en. rtranclp sane_step (new_registry (open_segment None)) reg \<and> entries reg ''BTC/USD'' = Some en
     \<and> book_pos (cl_book (en_client en)) \<and> distinct (map fst (restingOrders (en_engine en)))"
proof -
  obtain reg i where r: "rtranclp sane_step (new_registry (open_segment None)) reg"
    and e: "entries reg ''BTC/USD'' = Some (new_entry 0 demo_precision ''BTC/USD'' i)" by (rule demo_registry)
  show ?thesis using reachable_trading_system [OF r demo_usable e] r e by blast
qed

text \<open>
  C5 (functional): an order placed through the service of the running system, and its
  cancellation. In every reachable state of a sane run and whatever requests wait in the
  symbol's inbox, when the symbol's worker answers at its next heartbeat, an order of positive
  64-bit size (and positive price, if it is a limit order) is accepted under the next order id;
  the filled size in the reply is the smaller of the order size and what crosses it in the book
  at that moment; and the fills with the order's id that are put on the fill queue add up to
  that size. If the order is then cancelled and the cancellation answered at a following
  heartbeat, it succeeds and takes the order off the engine exactly when a limit order was not
  completely filled; the cancellation of a market order, or of one filled completely, is
  refused with the reason \<^verbatim>\<open>order not found\<close>.
\<close>

theorem placed_order_reply:
  assumes "rtranclp sane_step (new_registry (open_segment existing)) (cs_registry svc)" and "usable existing"
    and "entries (cs_registry svc) (pr_symbol r) = Some en" and "pos_qty (Quantity (pr_size_ticks r))"
    and "toOrderType (pr_type r) = Limit \<longrightarrow> 0 < pr_price_ticks r"
    and "PlaceOrder (heartbeat zlib net t cks) r svc = (svc', reply)"
    and "CancelOrder (heartbeat zlib' net' t' cks') (or_engine_order_id reply) svc' = (svc'', cancelled)"
  shows "or_accepted reply \<and> or_engine_order_id reply = nextOrderId (cs_registry svc)
    \<and> or_filled_size_ticks reply = min (pr_size_ticks r) (levels_total (crossing_levels (cl_book (en_client en))
        (toBookSide (pr_side r)) (toOrderType (pr_type r)) (Price (pr_price_ticks r))))
    \<and> (\<exists>fs. fillQueue (cs_registry svc') = fillQueue (cs_registry svc) @ fs
        \<and> fills_total (filter (\<lambda>f. fill_orderId f = or_engine_order_id reply) fs) = or_filled_size_ticks reply)
    \<and> (if toOrderType (pr_type r) = Limit \<and> or_filled_size_ticks reply < pr_size_ticks r
       then or_accepted cancelled \<and> (\<exists>en''. entries (cs_registry svc'') (pr_symbol r) = Some en''
         \<and> or_engine_order_id reply \<notin> fst ` set (restingOrders (en_engine en'')))
       else \<not> or_accepted cancelled \<and> or_reject_reason cancelled = ''order not found'')"
proof -
  let ?reg = "cs_registry svc"
  have "feeding en" using feed.reachable [OF sane_steps [OF assms(1)]] holdsD [OF _ assms(3)] by blast
  moreover have ok: "trading_ok en" and ids: "registry_ids ?reg" using trading_reachable [OF assms(1)] holdsD [OF _ assms(3)] by blast+
  ultimately have en: "cl_onTick (en_client en)" "book_pos (cl_book (en_client en))" "me_onFill (en_engine en)" "list_all request_ok (en_inbox en)"
    by (simp_all add: feeding_def callbacks_def trading_ok_def)
  have fresh: "nextOrderId ?reg \<notin> set (entry_ids en)" using registry_idsD(2) [OF ids live_entry [OF assms(3)]] by blast
  note placed = place_order_reply [OF assms(3) en fresh assms(4-6)]
  obtain en' where en': "entries (cs_registry svc') (pr_symbol r) = Some en'" "en_inbox en' = []" "cl_onTick (en_client en')"
    "or_engine_order_id reply \<in> fst ` set (restingOrders (en_engine en')) \<longleftrightarrow> rests_at (cl_book (en_client en)) r"
    using placed(4) by blast
  have "rests_at (cl_book (en_client en)) r \<longleftrightarrow> toOrderType (pr_type r) = Limit \<and> or_filled_size_ticks reply < pr_size_ticks r"
    using placed(1) by (auto simp: rests_at_def)
  with cancel_order_reply [OF placed(3) en'(1,3,2) assms(7)] en'(4)
  have "if toOrderType (pr_type r) = Limit \<and> or_filled_size_ticks reply < pr_size_ticks r
       then or_accepted cancelled \<and> (\<exists>en''. entries (cs_registry svc'') (pr_symbol r) = Some en''
         \<and> or_engine_order_id reply \<notin> fst ` set (restingOrders (en_engine en'')))
       else \<not> or_accepted cancelled \<and> or_reject_reason cancelled = ''order not found''"
    by auto
  then show ?thesis using placed(1,2) by blast
qed

theorem placed_order_reply_witness:
  "\<exists>svc svc' reply svc'' cancelled. PlaceOrder (heartbeat demo_zlib (\<lambda>_. True) (1, 1) (\<lambda>_. demo_clocks)) demo_request svc = (svc', reply)
     \<and> or_accepted reply
     \<and> CancelOrder (heartbeat demo_zlib (\<lambda>_. True) (2, 2) (\<lambda>_. demo_clocks)) (or_engine_order_id reply) svc' = (svc'', cancelled)
     \<and> or_accepted cancelled"
proof -
  obtain reg i where r: "rtranclp sane_step (new_registry (open_segment None)) reg"
    and e: "entries reg ''BTC/USD'' = Some (new_entry 0 demo_precision ''BTC/USD'' i)" by (rule demo_registry)
  let ?svc = "\<lparr>cs_registry = reg, instanceId = 1\<rparr>" and ?en = "new_entry 0 demo_precision ''BTC/USD'' i"
  obtain svc' reply where
    p: "PlaceOrder (heartbeat demo_zlib (\<lambda>_. True) (1, 1) (\<lambda>_. demo_clocks)) demo_request ?svc = (svc', reply)"
    by (rule prod.exhaust)
  obtain svc'' cancelled where
    c: "CancelOrder (heartbeat demo_zlib (\<lambda>_. True) (2, 2) (\<lambda>_. demo_clocks)) (or_engine_order_id reply) svc' = (svc'', cancelled)"
    by (rule prod.exhaust)
  have q: "pos_qty (Quantity (pr_size_ticks demo_request))" "0 < pr_price_ticks demo_request" "pr_symbol demo_request = ''BTC/USD''"
    "pr_size_ticks demo_request = 8" "toOrderType (pr_type demo_request) = Limit"
    by (simp_all add: demo_request_def pos_qty_def in_s64_def toOrderType_def LIMIT_def)
  have empty: "levels_total (crossing_levels (cl_book (en_client ?en)) side Limit price) = 0" for side price
    by (cases side) (simp_all add: new_entry_def new_client_def new_book_def new_side_def crossing_levels_def levels_total_def)
  have "rtranclp sane_step (new_registry (open_segment None)) (cs_registry ?svc)" "entries (cs_registry ?svc) (pr_symbol demo_request) = Some ?en"
    using r e q(3) by simp_all
  from placed_order_reply [OF this(1) demo_usable this(2) q(1) _ p c] have "or_accepted reply" "or_accepted cancelled"
    using q by (simp_all add: empty)
  then show ?thesis using p c by blast
qed

end
